(* ===== verification/Kernel_Prelude.thy ===== *)
theory Kernel_Prelude
  imports Main "HOL-Library.Word"
begin

text \<open>
  Shared vocabulary of the development.
  \<^item> Machine types of \<^verbatim>\<open>kernel/types.h\<close>: \<open>byte\<close> is \<open>uchar\<close>, \<open>u16\<close>, \<open>u32\<close> and \<open>u64\<close> are the
    unsigned integers of those widths.
  \<^item> Outcomes of kernel code. A C function that can stop the kernel returns \<open>fault + 'a\<close>:
    \<open>Panic msg\<close> is a call of \<^verbatim>\<open>panic(msg)\<close>, \<open>Sleeps chan\<close> says that the caller went to sleep
    on a channel and no step of this process can continue before somebody else runs, and
    \<open>Undefined what\<close> marks an access that C leaves undefined (an index outside an array, a null
    pointer). \<open>bindE\<close> sequences such functions and \<open>forE\<close> is the C \<^verbatim>\<open>for\<close> loop over a list of indices.
  \<^item> Byte lists: bytewise exclusive or (\<open>xorb\<close>), the little-endian layout of integers
    (\<open>bytes_le\<close>, \<open>le_nat\<close>) and reading and writing runs of bytes of a flat memory.
\<close>

unbundle bit_operations_syntax

named_theorems outcome_simps \<open>rewriting of sequenced outcomes\<close>
named_theorems len_simps \<open>lengths of the byte lists of the model\<close>

type_synonym byte = "8 word"
type_synonym u16 = "16 word"
type_synonym u32 = "32 word"
type_synonym u64 = "64 word"

type_synonym block = "byte list"
type_synonym mem = "nat \<Rightarrow> byte"

section \<open>Outcomes\<close>

datatype fault = Panic string | Sleeps string | Undefined string

definition bindE :: "'e + 'a \<Rightarrow> ('a \<Rightarrow> 'e + 'b) \<Rightarrow> 'e + 'b" where
  "bindE m f = (case m of Inl e \<Rightarrow> Inl e | Inr x \<Rightarrow> f x)"

primrec forE :: "'i list \<Rightarrow> ('i \<Rightarrow> 's \<Rightarrow> 'e + 's) \<Rightarrow> 's \<Rightarrow> 'e + 's" where
  "forE [] f s = Inr s"
| "forE (i # is) f s = bindE (f i s) (forE is f)"

section \<open>Bytes\<close>

definition xorb :: "byte list \<Rightarrow> byte list \<Rightarrow> byte list" where
  "xorb xs ys = map2 (XOR) xs ys"

primrec le_nat :: "byte list \<Rightarrow> nat" where
  "le_nat [] = 0"
| "le_nat (b # bs) = unat b + 256 * le_nat bs"

primrec bytes_le :: "nat \<Rightarrow> nat \<Rightarrow> byte list" where
  "bytes_le 0 v = []"
| "bytes_le (Suc n) v = word_of_nat v # bytes_le n (v div 256)"

definition load_bytes :: "mem \<Rightarrow> nat \<Rightarrow> nat \<Rightarrow> byte list" where
  "load_bytes m a n = map (\<lambda>i. m (a + i)) [0..<n]"

definition store_bytes :: "mem \<Rightarrow> nat \<Rightarrow> byte list \<Rightarrow> mem" where
  "store_bytes m a bs = (\<lambda>x. if a \<le> x \<and> x < a + length bs then bs ! (x - a) else m x)"

definition load64 :: "mem \<Rightarrow> nat \<Rightarrow> u64" where
  "load64 m a = word_of_nat (le_nat (load_bytes m a 8))"

definition store64 :: "mem \<Rightarrow> nat \<Rightarrow> u64 \<Rightarrow> mem" where
  "store64 m a v = store_bytes m a (bytes_le 8 (unat v))"

definition load32 :: "mem \<Rightarrow> nat \<Rightarrow> u32" where
  "load32 m a = word_of_nat (le_nat (load_bytes m a 4))"

definition store32 :: "mem \<Rightarrow> nat \<Rightarrow> u32 \<Rightarrow> mem" where
  "store32 m a v = store_bytes m a (bytes_le 4 (unat v))"

section \<open>Lemmas on outcomes\<close>

lemma bindE_simps [simp, outcome_simps]:
  "bindE (Inl e) f = Inl e"
  "bindE (Inr x) f = f x"
  by (simp_all add: bindE_def)

lemma bindE_Inr_iff [outcome_simps]:
  "bindE m f = Inr y \<longleftrightarrow> (\<exists>x. m = Inr x \<and> f x = Inr y)"
  by (simp add: bindE_def split: sum.splits)

lemma bindE_Inl_iff:
  "bindE m f = Inl e \<longleftrightarrow> m = Inl e \<or> (\<exists>x. m = Inr x \<and> f x = Inl e)"
  by (auto simp: bindE_def split: sum.splits)

lemma bindE_assoc: "bindE (bindE m f) g = bindE m (\<lambda>x. bindE (f x) g)"
  by (simp add: bindE_def split: sum.splits)

lemma bindE_cong [fundef_cong]:
  "m = m' \<Longrightarrow> (\<And>x. m' = Inr x \<Longrightarrow> f x = f' x) \<Longrightarrow> bindE m f = bindE m' f'"
  by (simp add: bindE_def split: sum.splits)

lemma forE_append: "forE (is @ js) f s = bindE (forE is f s) (forE js f)"
proof (induction "is" arbitrary: s)
  case (Cons i "is")
  then have "forE (is @ js) f = (\<lambda>x. bindE (forE is f x) (forE js f))" by blast
  then show ?case by (simp add: bindE_assoc)
qed simp

text \<open>The loop rule: an invariant indexed by the part of the list already visited.\<close>

lemma forE_rule:
  assumes "P [] s"
    and "\<And>done i rest t. is = done @ i # rest \<Longrightarrow> P done t \<Longrightarrow> \<exists>t'. f i t = Inr t' \<and> P (done @ [i]) t'"
  shows "\<exists>t. forE is f s = Inr t \<and> P is t"
  using assms
proof (induction "is" arbitrary: s P)
  case Nil
  then show ?case by simp
next
  case (Cons i "is")
  from Cons.prems(2) [of "[]"] Cons.prems(1)
  obtain t where t: "f i s = Inr t" "P [i] t" by auto
  have "\<exists>u. forE is f t = Inr u \<and> P (i # is) u"
  proof (rule Cons.IH [where P = "\<lambda>done. P (i # done)"])
    show "P [i] t" by fact
  next
    fix "done" j rest u
    assume "is = done @ j # rest" "P (i # done) u"
    then show "\<exists>t'. f j u = Inr t' \<and> P (i # done @ [j]) t'"
      using Cons.prems(2) [of "i # done" j rest u] by simp
  qed
  with t show ?case by simp
qed

lemma forE_pure: "forE is (\<lambda>i s. Inr (f i s)) s = Inr (fold f is s)"
  by (induction "is" arbitrary: s) simp_all

section \<open>Lemmas on bytes\<close>

lemma unat_bound: "unat (w :: 'a::len word) < 2 ^ LENGTH('a)"
  by (rule unsigned_less)

lemma length_xorb [simp, len_simps]: "length (xorb xs ys) = min (length xs) (length ys)"
  by (simp add: xorb_def)

lemma nth_xorb [simp]:
  "i < length xs \<Longrightarrow> i < length ys \<Longrightarrow> xorb xs ys ! i = (xs ! i XOR ys ! i)"
  by (simp add: xorb_def)

lemma xorb_commute: "xorb xs ys = xorb ys xs"
  by (rule nth_equalityI) (simp_all add: xor.commute min.commute)

lemma xorb_assoc: "xorb (xorb xs ys) zs = xorb xs (xorb ys zs)"
  by (rule nth_equalityI) (simp_all add: xor.assoc min.assoc)

lemma xorb_left_commute: "xorb xs (xorb ys zs) = xorb ys (xorb xs zs)"
  by (metis xorb_assoc xorb_commute)

lemmas xorb_ac = xorb_assoc xorb_commute xorb_left_commute

lemma xorb_self [simp]: "xorb xs xs = replicate (length xs) 0"
  by (rule nth_equalityI) simp_all

lemma xorb_zero [simp]:
  "length xs = n \<Longrightarrow> xorb xs (replicate n 0) = xs"
  "length xs = n \<Longrightarrow> xorb (replicate n 0) xs = xs"
  by (rule nth_equalityI; simp)+

lemma xorb_cancel [simp]:
  "length xs = length ys \<Longrightarrow> xorb xs (xorb xs ys) = ys"
  "length xs = length ys \<Longrightarrow> xorb (xorb ys xs) xs = ys"
  by (rule nth_equalityI; simp add: xor.assoc [symmetric] xor.commute)
    (rule nth_equalityI; simp add: xor.assoc)

lemma length_bytes_le [simp, len_simps]: "length (bytes_le n v) = n"
  by (induction n arbitrary: v) simp_all

lemma le_nat_bytes_le: "le_nat (bytes_le n v) = v mod 256 ^ n"
proof (induction n arbitrary: v)
  case 0
  then show ?case by simp
next
  case (Suc n)
  have "v mod 256 ^ Suc n = v mod 256 + 256 * (v div 256 mod 256 ^ n)"
    by (simp add: mod_mult2_eq)
  with Suc show ?case
    by (simp add: unat_of_nat take_bit_eq_mod)
qed

lemma le_nat_less: "le_nat bs < 256 ^ length bs"
proof (induction bs)
  case Nil
  then show ?case by simp
next
  case (Cons b bs)
  have "unat b < 256" using unat_bound [of b] by simp
  with Cons show ?case by simp
qed

lemma bytes_le_le_nat: "bytes_le (length bs) (le_nat bs) = bs"
proof (induction bs)
  case Nil
  then show ?case by simp
next
  case (Cons b bs)
  have "unat b < 256" using unat_bound [of b] by simp
  moreover have "(word_of_nat (unat b + 256 * le_nat bs) :: byte) = b"
  proof -
    have "(256 :: byte) = 0" by simp
    then show ?thesis by (simp only: of_nat_add of_nat_mult of_nat_numeral) simp
  qed
  ultimately show ?case using Cons by simp
qed

lemma le_nat_word32 [simp]: "word_of_nat (le_nat (bytes_le 4 (unat w))) = (w :: u32)"
  using unat_bound [of w] by (simp add: le_nat_bytes_le)

lemma le_nat_word64 [simp]: "word_of_nat (le_nat (bytes_le 8 (unat w))) = (w :: u64)"
  using unat_bound [of w] by (simp add: le_nat_bytes_le)

section \<open>Lemmas on memory\<close>

lemma length_load_bytes [simp, len_simps]: "length (load_bytes m a n) = n"
  by (simp add: load_bytes_def)

lemma nth_load_bytes [simp]: "i < n \<Longrightarrow> load_bytes m a n ! i = m (a + i)"
  by (simp add: load_bytes_def)

lemma load_bytes_cong:
  "(\<And>i. i < n \<Longrightarrow> m (a + i) = m' (b + i)) \<Longrightarrow> load_bytes m a n = load_bytes m' b n"
  by (rule nth_equalityI) simp_all

lemma load_store_same [simp]:
  "length bs = n \<Longrightarrow> load_bytes (store_bytes m a bs) a n = bs"
  by (rule nth_equalityI) (simp_all add: store_bytes_def)

lemma load_store_disjoint:
  "a + n \<le> b \<or> b + length bs \<le> a \<Longrightarrow> load_bytes (store_bytes m b bs) a n = load_bytes m a n"
  by (rule load_bytes_cong) (auto simp: store_bytes_def)

lemma store_bytes_outside:
  "x < a \<or> a + length bs \<le> x \<Longrightarrow> store_bytes m a bs x = m x"
  by (auto simp: store_bytes_def)

lemma store_bytes_Nil [simp]: "store_bytes m a [] = m"
  by (rule ext) (auto simp: store_bytes_def)

lemma store_bytes_Cons: "store_bytes m a (b # bs) = store_bytes (m(a := b)) (a + 1) bs"
proof (rule ext)
  fix x
  show "store_bytes m a (b # bs) x = store_bytes (m(a := b)) (a + 1) bs x"
  proof (cases "a < x")
    case True
    then have "x - a = Suc (x - (a + 1))" by simp
    with True show ?thesis by (auto simp: store_bytes_def)
  qed (auto simp: store_bytes_def)
qed

lemma load_bytes_Suc: "load_bytes m a (Suc n) = m a # load_bytes m (a + 1) n"
  by (rule nth_equalityI) (auto simp: nth_Cons split: nat.splits)

lemma load_bytes_append: "load_bytes m a (n + k) = load_bytes m a n @ load_bytes m (a + n) k"
  by (rule nth_equalityI) (auto simp: nth_append)

lemma load64_store64_same [simp]: "load64 (store64 m a v) a = v"
  by (simp add: load64_def store64_def)

lemma load64_store64_disjoint:
  "a + 8 \<le> b \<or> b + 8 \<le> a \<Longrightarrow> load64 (store64 m b v) a = load64 m a"
  by (simp add: load64_def store64_def load_store_disjoint)

lemma load64_store_bytes_disjoint:
  "a + 8 \<le> b \<or> b + length bs \<le> a \<Longrightarrow> load64 (store_bytes m b bs) a = load64 m a"
  by (simp add: load64_def load_store_disjoint)

lemma load32_store32_same [simp]: "load32 (store32 m a v) a = v"
  by (simp add: load32_def store32_def)

lemma load32_store32_disjoint:
  "a + 4 \<le> b \<or> b + 4 \<le> a \<Longrightarrow> load32 (store32 m b v) a = load32 m a"
  by (simp add: load32_def store32_def load_store_disjoint)

end
