(* ===== verification/Cstring.thy ===== *)
theory Cstring
  imports Kernel_Prelude
begin

text \<open>
  The memory and string routines of \<^verbatim>\<open>kernel/string.c\<close> on a flat byte memory. A pointer is an
  address, a loop is a recursion that writes the memory in the order the C code does, so that
  overlapping source and destination behave as they do in C. Loops bounded by a count recurse on
  the count; loops that stop at a NUL byte only may run forever and return \<open>option\<close>.
  The lemmas show what each routine leaves in memory: \<open>memmove\<close> copies correctly for every
  overlap, \<open>memcmp\<close> decides equality, \<open>strncpy\<close> pads, \<open>safestrcpy\<close> always terminates the string,
  and the NUL-bounded loops return on every NUL-terminated string.
\<close>

definition memset :: "mem \<Rightarrow> nat \<Rightarrow> int \<Rightarrow> nat \<Rightarrow> mem" where
  "memset m dst c n = fold (\<lambda>i m. m(dst + i := word_of_int c)) [0..<n] m"

primrec memcmp :: "mem \<Rightarrow> nat \<Rightarrow> nat \<Rightarrow> nat \<Rightarrow> int" where
  "memcmp m s1 s2 0 = 0"
| "memcmp m s1 s2 (Suc n) =
     (if m s1 \<noteq> m s2 then uint (m s1) - uint (m s2) else memcmp m (s1 + 1) (s2 + 1) n)"

primrec copy_forward :: "mem \<Rightarrow> nat \<Rightarrow> nat \<Rightarrow> nat \<Rightarrow> mem" where
  "copy_forward m d s 0 = m"
| "copy_forward m d s (Suc n) = copy_forward (m(d := m s)) (d + 1) (s + 1) n"

primrec copy_backward :: "mem \<Rightarrow> nat \<Rightarrow> nat \<Rightarrow> nat \<Rightarrow> mem" where
  "copy_backward m d s 0 = m"
| "copy_backward m d s (Suc n) = copy_backward (m(d - 1 := m (s - 1))) (d - 1) (s - 1) n"

definition memmove :: "mem \<Rightarrow> nat \<Rightarrow> nat \<Rightarrow> nat \<Rightarrow> mem" where
  "memmove m dst src n =
     (if n = 0 then m
      else if src < dst \<and> src + n > dst then copy_backward m (dst + n) (src + n) n
      else copy_forward m dst src n)"

definition memcpy :: "mem \<Rightarrow> nat \<Rightarrow> nat \<Rightarrow> nat \<Rightarrow> mem" where
  "memcpy m dst src n = memmove m dst src n"

primrec strncmp :: "mem \<Rightarrow> nat \<Rightarrow> nat \<Rightarrow> nat \<Rightarrow> int" where
  "strncmp m p q 0 = 0"
| "strncmp m p q (Suc n) =
     (if m p \<noteq> 0 \<and> m p = m q then strncmp m (p + 1) (q + 1) n else uint (m p) - uint (m q))"

primrec strncpy_pad :: "mem \<Rightarrow> nat \<Rightarrow> nat \<Rightarrow> mem" where
  "strncpy_pad m s 0 = m"
| "strncpy_pad m s (Suc n) = strncpy_pad (m(s := 0)) (s + 1) n"

primrec strncpy_copy :: "mem \<Rightarrow> nat \<Rightarrow> nat \<Rightarrow> nat \<Rightarrow> mem" where
  "strncpy_copy m s t 0 = m"
| "strncpy_copy m s t (Suc n) =
     (let m' = m(s := m t)
      in if m' s \<noteq> 0 then strncpy_copy m' (s + 1) (t + 1) n else strncpy_pad m' (s + 1) n)"

definition strncpy :: "mem \<Rightarrow> nat \<Rightarrow> nat \<Rightarrow> int \<Rightarrow> mem" where
  "strncpy m s t n = strncpy_copy m s t (nat n)"

primrec safestrcpy_loop :: "mem \<Rightarrow> nat \<Rightarrow> nat \<Rightarrow> nat \<Rightarrow> mem" where
  "safestrcpy_loop m s t 0 = m(s := 0)"
| "safestrcpy_loop m s t (Suc n) =
     (let m' = m(s := m t)
      in if m' s \<noteq> 0 then safestrcpy_loop m' (s + 1) (t + 1) n else m'(s + 1 := 0))"

definition safestrcpy :: "mem \<Rightarrow> nat \<Rightarrow> nat \<Rightarrow> int \<Rightarrow> mem" where
  "safestrcpy m s t n = (if n \<le> 0 then m else safestrcpy_loop m s t (nat (n - 1)))"

partial_function (option) find_nul :: "mem \<Rightarrow> nat \<Rightarrow> nat option" where
  "find_nul m p = (if m p \<noteq> 0 then find_nul m (p + 1) else Some p)"

partial_function (option) strcat_copy :: "mem \<Rightarrow> nat \<Rightarrow> nat \<Rightarrow> mem option" where
  "strcat_copy m os s2 =
     (if m s2 \<noteq> 0 then strcat_copy (m(os := m s2)) (os + 1) (s2 + 1) else Some (m(os := 0)))"

definition strcat :: "mem \<Rightarrow> nat \<Rightarrow> nat \<Rightarrow> mem option" where
  "strcat m s1 s2 = Option.bind (find_nul m s1) (\<lambda>os. strcat_copy m os s2)"

partial_function (option) strlen_loop :: "mem \<Rightarrow> nat \<Rightarrow> nat \<Rightarrow> nat option" where
  "strlen_loop m s n = (if m (s + n) \<noteq> 0 then strlen_loop m s (n + 1) else Some n)"

definition strlen :: "mem \<Rightarrow> nat \<Rightarrow> nat option" where
  "strlen m s = strlen_loop m s 0"

definition digits :: "byte list" where
  "digits = map (\<lambda>c. of_char c) ''0123456789abcdef''"

text \<open>
  The digit loop of \<^verbatim>\<open>itoa\<close>: \<open>i\<close> is the next free slot of the 16-byte buffer. A write past the
  buffer, a digit outside the digit table (base above 16 or a negative number) and a zero base are
  undefined in C. C division truncates, which is \<open>div\<close> on the non-negative numbers that remain.
\<close>

function itoa_digits :: "int \<Rightarrow> int \<Rightarrow> nat \<Rightarrow> byte list \<Rightarrow> fault + byte list" where
  "itoa_digits xx base i buf =
     (if i \<ge> 16 then Inl (Undefined ''itoa buf'')
      else if base = 0 then Inl (Undefined ''itoa base'')
      else if xx < 0 \<or> base < 0 \<or> xx mod base \<ge> 16 then Inl (Undefined ''itoa digits'')
      else let buf' = buf @ [digits ! nat (xx mod base)]
           in if xx div base \<noteq> 0 then itoa_digits (xx div base) base (i + 1) buf' else Inr buf')"
  by pat_completeness auto
termination
  by (relation "measure (\<lambda>(xx, base, i, buf). 16 - i)") auto

definition itoa :: "mem \<Rightarrow> int \<Rightarrow> int \<Rightarrow> nat \<Rightarrow> fault + mem option" where
  "itoa m xx base result =
     bindE (itoa_digits xx base 0 []) (\<lambda>buf.
       Inr (case find_nul m result of
              None \<Rightarrow> None
            | Some r \<Rightarrow> Some ((store_bytes m r (rev buf))(r + length buf := 0))))"

text \<open>A NUL-terminated string: \<open>xs\<close> are its bytes before the NUL.\<close>

definition cstr :: "mem \<Rightarrow> nat \<Rightarrow> byte list \<Rightarrow> bool" where
  "cstr m p xs \<longleftrightarrow> load_bytes m p (length xs) = xs \<and> 0 \<notin> set xs \<and> m (p + length xs) = 0"

section \<open>Memory routines\<close>

lemma memset_apply:
  "memset m dst c n x = (if dst \<le> x \<and> x < dst + n then word_of_int c else m x)"
  by (induction n) (auto simp: memset_def)

lemma memset_eq_store: "memset m dst c n = store_bytes m dst (replicate n (word_of_int c))"
  by (rule ext) (auto simp: memset_apply store_bytes_def)

lemma load_memset [simp]: "load_bytes (memset m a c n) a n = replicate n (word_of_int c)"
  by (simp add: memset_eq_store)

lemma memcmp_zero_iff: "memcmp m a b n = 0 \<longleftrightarrow> load_bytes m a n = load_bytes m b n"
proof (induction n arbitrary: a b)
  case 0
  then show ?case by (simp add: load_bytes_def)
next
  case (Suc n)
  then show ?case by (simp add: load_bytes_Suc word_uint_eq_iff)
qed

lemma copy_forward_apply:
  assumes "\<not> (s < d \<and> d < s + n)"
  shows "copy_forward m d s n x = (if d \<le> x \<and> x < d + n then m (s + (x - d)) else m x)"
  using assms
proof (induction n arbitrary: m d s)
  case 0
  then show ?case by auto
next
  case (Suc n)
  then have "\<not> (s + 1 < d + 1 \<and> d + 1 < s + 1 + n)" by linarith
  then have "copy_forward (m(d := m s)) (d + 1) (s + 1) n x =
      (if d + 1 \<le> x \<and> x < d + 1 + n then (m(d := m s)) (s + 1 + (x - (d + 1)))
       else (m(d := m s)) x)"
    by (rule Suc.IH)
  moreover have "s + 1 + (x - (d + 1)) = s + (x - d)" if "d + 1 \<le> x"
    using that by linarith
  ultimately show ?case using Suc.prems
    by (auto split: if_splits)
qed

lemma copy_backward_apply:
  assumes "s \<le> d" "n \<le> s"
  shows "copy_backward m d s n x = (if d \<le> x + n \<and> x < d then m (s + x - d) else m x)"
  using assms
proof (induction n arbitrary: m d s)
  case 0
  then show ?case by auto
next
  case (Suc n)
  then have "s - 1 \<le> d - 1" "n \<le> s - 1" by auto
  then have "copy_backward (m(d - 1 := m (s - 1))) (d - 1) (s - 1) n x =
      (if d - 1 \<le> x + n \<and> x < d - 1 then (m(d - 1 := m (s - 1))) (s - 1 + x - (d - 1))
       else (m(d - 1 := m (s - 1))) x)"
    by (rule Suc.IH)
  moreover from Suc.prems have "s - 1 + x - (d - 1) = s + x - d" by linarith
  ultimately show ?case using Suc.prems
    by (auto split: if_splits)
qed

lemma memmove_eq_store: "memmove m dst src n = store_bytes m dst (load_bytes m src n)"
proof (rule ext)
  fix x
  show "memmove m dst src n x = store_bytes m dst (load_bytes m src n) x"
  proof (cases "src < dst \<and> dst < src + n")
    case True
    then have "memmove m dst src n x = copy_backward m (dst + n) (src + n) n x"
      by (simp add: memmove_def)
    also have "\<dots> = (if dst + n \<le> x + n \<and> x < dst + n then m (src + n + x - (dst + n)) else m x)"
      using True by (intro copy_backward_apply) auto
    finally show ?thesis by (auto simp: store_bytes_def)
  next
    case False
    then have "memmove m dst src n x = copy_forward m dst src n x"
      by (auto simp: memmove_def)
    also have "\<dots> = (if dst \<le> x \<and> x < dst + n then m (src + (x - dst)) else m x)"
      using False by (rule copy_forward_apply)
    finally show ?thesis by (auto simp: store_bytes_def)
  qed
qed

section \<open>String routines\<close>

lemma cstr_Nil [simp]: "cstr m p [] \<longleftrightarrow> m p = 0"
  by (simp add: cstr_def load_bytes_def)

lemma cstr_Cons: "cstr m p (x # xs) \<longleftrightarrow> m p = x \<and> x \<noteq> 0 \<and> cstr m (p + 1) xs"
  by (auto simp: cstr_def load_bytes_Suc)

lemma cstr_cong:
  "(\<And>i. i \<le> length xs \<Longrightarrow> m (p + i) = m' (p + i)) \<Longrightarrow> cstr m p xs = cstr m' p xs"
  by (simp add: cstr_def cong: load_bytes_cong)

lemma cstr_upd_outside:
  "a < p \<or> p + length xs < a \<Longrightarrow> cstr (m(a := v)) p xs = cstr m p xs"
  by (rule cstr_cong) auto

lemma strncmp_zero_iff:
  assumes "cstr m p xs" "cstr m q ys"
  shows "strncmp m p q n = 0 \<longleftrightarrow> take n xs = take n ys"
  using assms
proof (induction n arbitrary: p q xs ys)
  case 0
  then show ?case by simp
next
  case (Suc n)
  then show ?case
    by (cases xs; cases ys) (auto simp: cstr_Cons word_uint_eq_iff)
qed

lemma strncpy_pad_eq_store: "strncpy_pad m s n = store_bytes m s (replicate n 0)"
  by (induction n arbitrary: m s) (simp_all add: store_bytes_Cons)

lemma strncpy_copy_eq_store:
  assumes "cstr m t xs" "t + length xs < s \<or> s + n \<le> t"
  shows "strncpy_copy m s t n = store_bytes m s (take n xs @ replicate (n - length xs) 0)"
  using assms
proof (induction n arbitrary: m s t xs)
  case 0
  then show ?case by simp
next
  case (Suc n)
  show ?case
  proof (cases xs)
    case Nil
    with Suc.prems show ?thesis
      by (simp add: Let_def strncpy_pad_eq_store store_bytes_Cons)
  next
    case (Cons y ys)
    with Suc.prems have y: "m t = y" "y \<noteq> 0" and ys: "cstr m (t + 1) ys"
      by (auto simp: cstr_Cons)
    with Suc.prems Cons have "cstr (m(s := y)) (t + 1) ys"
      by (subst cstr_upd_outside) auto
    then have "strncpy_copy (m(s := y)) (s + 1) (t + 1) n =
        store_bytes (m(s := y)) (s + 1) (take n ys @ replicate (n - length ys) 0)"
      by (rule Suc.IH) (use Suc.prems Cons in auto)
    with y Cons show ?thesis
      by (simp add: Let_def store_bytes_Cons)
  qed
qed

lemma safestrcpy_loop_outside:
  "x < s \<or> s + n < x \<Longrightarrow> safestrcpy_loop m s t n x = m x"
  by (induction n arbitrary: m s t) (auto simp: Let_def)

lemma safestrcpy_loop_nul: "\<exists>k\<le>n. safestrcpy_loop m s t n (s + k) = 0"
proof (induction n arbitrary: m s t)
  case 0
  then show ?case by simp
next
  case (Suc n)
  show ?case
  proof (cases "m t = 0")
    case True
    then show ?thesis by (auto simp: Let_def intro: exI [of _ 0])
  next
    case False
    from Suc [of "m(s := m t)" "s + 1" "t + 1"] obtain k
      where "k \<le> n" "safestrcpy_loop (m(s := m t)) (s + 1) (t + 1) n (s + 1 + k) = 0" by blast
    with False show ?thesis by (auto simp: Let_def intro!: exI [of _ "Suc k"])
  qed
qed

lemma safestrcpy_loop_copies:
  assumes "cstr m t xs" "t + length xs < s \<or> s + n < t"
  shows "cstr (safestrcpy_loop m s t n) s (take n xs)"
  using assms
proof (induction n arbitrary: m s t xs)
  case 0
  then show ?case by simp
next
  case (Suc n)
  show ?case
  proof (cases xs)
    case Nil
    with Suc.prems show ?thesis by (simp add: Let_def)
  next
    case (Cons y ys)
    with Suc.prems have y: "m t = y" "y \<noteq> 0" and ys: "cstr m (t + 1) ys"
      by (auto simp: cstr_Cons)
    with Suc.prems Cons have "cstr (m(s := y)) (t + 1) ys"
      by (subst cstr_upd_outside) auto
    then have "cstr (safestrcpy_loop (m(s := y)) (s + 1) (t + 1) n) (s + 1) (take n ys)"
      by (rule Suc.IH) (use Suc.prems Cons in auto)
    with y Cons show ?thesis
      by (simp add: Let_def cstr_Cons safestrcpy_loop_outside)
  qed
qed

lemma find_nul_cstr: "cstr m p xs \<Longrightarrow> find_nul m p = Some (p + length xs)"
  by (induction xs arbitrary: p) (simp_all add: cstr_Cons find_nul.simps)

lemma strlen_loop_cstr: "cstr m (s + n) xs \<Longrightarrow> strlen_loop m s n = Some (n + length xs)"
proof (induction xs arbitrary: n)
  case Nil
  then show ?case by (simp add: strlen_loop.simps)
next
  case (Cons x xs)
  then show ?case by (subst strlen_loop.simps) (simp add: cstr_Cons)
qed

lemma strcat_copy_eq_store:
  assumes "cstr m t ys" "t + length ys < s \<or> s + length ys < t"
  shows "strcat_copy m s t = Some (store_bytes m s (ys @ [0]))"
  using assms
proof (induction ys arbitrary: m s t)
  case Nil
  then show ?case by (subst strcat_copy.simps) (simp add: store_bytes_Cons)
next
  case (Cons y ys)
  then have y: "m t = y" "y \<noteq> 0" and c: "cstr (m(s := y)) (t + 1) ys"
    by (auto simp: cstr_Cons cstr_upd_outside)
  from c have "strcat_copy (m(s := y)) (s + 1) (t + 1) =
      Some (store_bytes (m(s := y)) (s + 1) (ys @ [0]))"
    by (rule Cons.IH) (use Cons.prems in auto)
  with y show ?case
    by (subst strcat_copy.simps) (simp add: store_bytes_Cons)
qed

lemma cstr_appendI:
  assumes "load_bytes m p (length xs) = xs" "0 \<notin> set xs" "cstr m (p + length xs) ys"
  shows "cstr m p (xs @ ys)"
  using assms by (simp add: cstr_def load_bytes_append add.assoc)

lemma cstr_store_bytes: "0 \<notin> set ys \<Longrightarrow> cstr (store_bytes m s (ys @ [0])) s ys"
  by (induction ys arbitrary: m s) (simp_all add: cstr_Cons store_bytes_Cons store_bytes_outside)

lemma strcat_appends:
  assumes xs: "cstr m s1 xs" and ys: "cstr m s2 ys"
    and apart: "s2 + length ys < s1 + length xs \<or> s1 + length xs + length ys < s2"
  shows "\<exists>m'. strcat m s1 s2 = Some m' \<and> cstr m' s1 (xs @ ys)"
proof -
  let ?m = "store_bytes m (s1 + length xs) (ys @ [0])"
  have "strcat m s1 s2 = Some ?m"
    using assms by (simp add: strcat_def find_nul_cstr strcat_copy_eq_store)
  moreover have "load_bytes ?m s1 (length xs) = xs"
    using xs by (simp add: load_store_disjoint cstr_def)
  with xs ys have "cstr ?m s1 (xs @ ys)"
    by (intro cstr_appendI cstr_store_bytes) (auto simp: cstr_def)
  ultimately show ?thesis by blast
qed

section \<open>Numerals\<close>

text \<open>The digits of a number, least significant first, and their value: the reference for \<open>itoa\<close>.\<close>

fun base_digits :: "nat \<Rightarrow> nat \<Rightarrow> nat list" where
  "base_digits b v = (if b \<le> 1 \<or> v < b then [v] else (v mod b) # base_digits b (v div b))"

declare base_digits.simps [simp del]

definition base_value :: "nat \<Rightarrow> nat list \<Rightarrow> nat" where
  "base_value b ds = foldr (\<lambda>d acc. d + b * acc) ds 0"

lemma base_value_digits: "base_value b (base_digits b v) = v"
proof (induction b v rule: base_digits.induct)
  case (1 b v)
  then show ?case
    by (cases "b \<le> 1 \<or> v < b") (auto simp: base_digits.simps [of b v] base_value_def)
qed

lemma base_digits_less: "1 < b \<Longrightarrow> d \<in> set (base_digits b v) \<Longrightarrow> d < b"
proof (induction b v rule: base_digits.induct)
  case (1 b v)
  then show ?case
    by (cases "v < b") (auto simp: base_digits.simps [of b v])
qed

lemma length_base_digits: "1 < b \<Longrightarrow> v < b ^ Suc k \<Longrightarrow> length (base_digits b v) \<le> Suc k"
proof (induction b v arbitrary: k rule: base_digits.induct)
  case (1 b v)
  show ?case
  proof (cases "v < b")
    case True
    then show ?thesis by (simp add: base_digits.simps [of b v])
  next
    case False
    with "1.prems" obtain k' where k: "k = Suc k'" by (cases k) auto
    with "1.prems" have "v div b < b ^ Suc k'"
      by (simp add: less_mult_imp_div_less mult.commute)
    with "1.IH" "1.prems" False have "length (base_digits b (v div b)) \<le> Suc k'" by simp
    with False "1.prems" k show ?thesis by (simp add: base_digits.simps [of b v])
  qed
qed

lemma itoa_digits_eq:
  assumes "1 < b" "b \<le> 16" "i + length (base_digits b v) \<le> 16"
  shows "itoa_digits (int v) (int b) i buf = Inr (buf @ map ((!) digits) (base_digits b v))"
  using assms
proof (induction b v arbitrary: i buf rule: base_digits.induct)
  case (1 b v)
  have lt: "v mod b < b" using "1.prems" by simp
  then have bound: "int v mod int b < 16"
    using "1.prems"(2) by (simp flip: zmod_int)
  have i: "i < 16"
    using "1.prems"(3) by (simp add: base_digits.simps [of b v] split: if_splits)
  have nth: "nat (int v mod int b) = v mod b" by (simp add: nat_mod_distrib)
  show ?case
  proof (cases "v < b")
    case True
    with "1.prems" bound i nth show ?thesis
      by (subst itoa_digits.simps) (simp add: base_digits.simps [of b v] Let_def)
  next
    case False
    then have "itoa_digits (int (v div b)) (int b) (i + 1) (buf @ [digits ! (v mod b)]) =
        Inr ((buf @ [digits ! (v mod b)]) @ map ((!) digits) (base_digits b (v div b)))"
      using "1.prems" by (intro "1.IH") (simp_all add: base_digits.simps [of b v])
    moreover have "int v div int b \<noteq> 0"
      using False "1.prems" by (simp flip: zdiv_int add: div_eq_0_iff)
    ultimately show ?thesis using False "1.prems" bound i nth
      by (subst itoa_digits.simps) (simp add: base_digits.simps [of b v] Let_def zdiv_int)
  qed
qed

end
