(* ===== verification/Riscv.thy ===== *)
theory Riscv
  imports Kernel_Prelude
begin

text \<open>
  The paging macros of \<^verbatim>\<open>kernel/riscv.h\<close> and the address map of \<^verbatim>\<open>kernel/memlayout.h\<close>, on 64-bit
  words as the C macros compute them. The lemmas give each macro its arithmetic meaning and show
  that a page-table entry holds its physical address and its flags without mixing them up.
  What the build decides is a field of \<open>machine\<close>: the linker symbols \<^verbatim>\<open>end\<close> (\<open>kend\<close>), \<^verbatim>\<open>etext\<close> and
  \<^verbatim>\<open>trampoline\<close>, and the macros the Makefile passes: \<open>MEM\<close> and \<open>DSK_SIZE\<close> in megabytes and the number
  \<open>DISKS\<close> of RAID disks.
\<close>

definition PGSIZE :: nat where "PGSIZE = 4096"

definition PGSHIFT :: nat where "PGSHIFT = 12"

definition PGROUNDUP :: "u64 \<Rightarrow> u64" where
  "PGROUNDUP sz = (sz + word_of_nat PGSIZE - 1) AND NOT (word_of_nat PGSIZE - 1)"

definition PGROUNDDOWN :: "u64 \<Rightarrow> u64" where
  "PGROUNDDOWN a = a AND NOT (word_of_nat PGSIZE - 1)"

definition PTE_V :: u64 where "PTE_V = push_bit 0 1"
definition PTE_R :: u64 where "PTE_R = push_bit 1 1"
definition PTE_W :: u64 where "PTE_W = push_bit 2 1"
definition PTE_X :: u64 where "PTE_X = push_bit 3 1"
definition PTE_U :: u64 where "PTE_U = push_bit 4 1"

definition PA2PTE :: "u64 \<Rightarrow> u64" where
  "PA2PTE pa = push_bit 10 (drop_bit 12 pa)"

definition PTE2PA :: "u64 \<Rightarrow> u64" where
  "PTE2PA pte = push_bit 12 (drop_bit 10 pte)"

definition PTE_FLAGS :: "u64 \<Rightarrow> u64" where
  "PTE_FLAGS pte = pte AND 0x3FF"

definition PXSHIFT :: "nat \<Rightarrow> nat" where
  "PXSHIFT level = PGSHIFT + 9 * level"

definition PX :: "nat \<Rightarrow> u64 \<Rightarrow> u64" where
  "PX level va = drop_bit (PXSHIFT level) va AND 0x1FF"

definition MAXVA :: u64 where
  "MAXVA = push_bit (9 + 9 + 9 + 12 - 1) 1"

record machine =
  kend :: nat
  etext :: nat
  trampoline :: nat
  MEM :: nat
  DISKS :: nat
  DSK_SIZE :: nat

definition UART0 :: u64 where "UART0 = 0x10000000"

definition VIRTIO0 :: u64 where "VIRTIO0 = 0x10001000"

definition VIRTIO_OFFSET :: u64 where "VIRTIO_OFFSET = 0x1000"

definition VIRTIOX :: "nat \<Rightarrow> u64" where
  "VIRTIOX x = VIRTIO0 + word_of_nat x * VIRTIO_OFFSET"

definition PLIC :: u64 where "PLIC = 0x0c000000"

definition KERNBASE :: nat where "KERNBASE = 0x80000000"

definition PHYSTOP :: "machine \<Rightarrow> nat" where
  "PHYSTOP c = KERNBASE + MEM c * 1024 * 1024"

definition TRAMPOLINE :: u64 where
  "TRAMPOLINE = MAXVA - word_of_nat PGSIZE"

definition TRAPFRAME :: u64 where
  "TRAPFRAME = TRAMPOLINE - word_of_nat PGSIZE"

definition KSTACK :: "nat \<Rightarrow> u64" where
  "KSTACK p = TRAMPOLINE - (word_of_nat p + 1) * 2 * word_of_nat PGSIZE"

section \<open>Rounding\<close>

lemma and_not_mask_eq: "(w :: 'a::len word) AND NOT (mask n) = push_bit n (drop_bit n w)"
  by (rule bit_word_eqI) (auto simp: bit_simps)

lemma unat_push_drop: "unat (push_bit n (drop_bit n (w :: 'a::len word))) = unat w div 2 ^ n * 2 ^ n"
proof -
  have "unat w div 2 ^ n * 2 ^ n \<le> unat w" by simp
  also have "\<dots> < 2 ^ LENGTH('a)" by (rule unat_bound)
  finally have "take_bit LENGTH('a) (push_bit n (drop_bit n (unat w))) = unat w div 2 ^ n * 2 ^ n"
    by (simp add: push_bit_eq_mult drop_bit_eq_div take_bit_eq_mod)
  then show ?thesis
    by (simp only: unsigned_push_bit_eq unat_drop_bit_eq)
qed

lemma page_mask: "(word_of_nat PGSIZE - 1 :: u64) = mask 12"
  by (simp add: PGSIZE_def mask_eq_exp_minus_1)

lemma unat_PGROUNDDOWN: "unat (PGROUNDDOWN a) = unat a div PGSIZE * PGSIZE"
  unfolding PGROUNDDOWN_def page_mask and_not_mask_eq unat_push_drop by (simp add: PGSIZE_def)

lemma unat_PGROUNDUP:
  assumes "unat sz + PGSIZE - 1 < 2 ^ 64"
  shows "unat (PGROUNDUP sz) = (unat sz + PGSIZE - 1) div PGSIZE * PGSIZE"
proof -
  have "unat (sz + word_of_nat PGSIZE - 1) = unat sz + PGSIZE - 1"
  proof -
    have "sz + word_of_nat PGSIZE - 1 = word_of_nat (unat sz + PGSIZE - 1)"
      by (simp add: PGSIZE_def of_nat_diff)
    then show ?thesis
      using assms by (simp add: unat_of_nat take_bit_eq_mod)
  qed
  then show ?thesis
    unfolding PGROUNDUP_def page_mask and_not_mask_eq unat_push_drop by (simp add: PGSIZE_def)
qed

lemma PGROUNDUP_bounds:
  assumes "unat sz + PGSIZE - 1 < 2 ^ 64"
  shows "unat sz \<le> unat (PGROUNDUP sz)" "unat (PGROUNDUP sz) < unat sz + PGSIZE"
    "unat (PGROUNDUP sz) mod PGSIZE = 0"
proof -
  have "x \<le> (x + 4095) div 4096 * 4096" "(x + 4095) div 4096 * 4096 < x + 4096" for x :: nat
    using div_mult_mod_eq [of "x + 4095" 4096] mod_less_divisor [of 4096 "x + 4095"] by linarith+
  then show "unat sz \<le> unat (PGROUNDUP sz)" "unat (PGROUNDUP sz) < unat sz + PGSIZE"
    "unat (PGROUNDUP sz) mod PGSIZE = 0"
    unfolding unat_PGROUNDUP [OF assms] by (simp_all add: PGSIZE_def)
qed

section \<open>Page-table entries\<close>

lemma small_word_bits:
  assumes "unat (w :: 'a::len word) < 2 ^ k" "k \<le> n"
  shows "\<not> bit w n"
proof -
  have "take_bit k (unat w) = unat w" using assms(1) by (rule take_bit_nat_eq_self)
  then have "\<not> bit (unat w) n" using assms(2) by (metis bit_take_bit_iff not_less)
  then show ?thesis by (simp add: bit_unsigned_iff)
qed

lemma PTE_FLAGS_PA2PTE:
  assumes "unat fl < 1024"
  shows "PTE_FLAGS (PA2PTE pa OR fl) = fl"
proof -
  have flags: "PTE_FLAGS x = take_bit 10 x" for x
    by (simp add: PTE_FLAGS_def take_bit_eq_mask mask_eq_exp_minus_1)
  have "\<not> bit fl n" if "10 \<le> n" for n
    using assms that by (intro small_word_bits [of fl 10]) simp_all
  then show ?thesis
    unfolding flags PA2PTE_def
    by (intro bit_word_eqI) (auto simp: bit_simps not_less)
qed

lemma PTE_AND_flag:
  assumes "unat f < 1024"
  shows "(PA2PTE pa OR fl) AND f = fl AND f"
proof (rule bit_word_eqI)
  fix n assume "n < LENGTH(64)"
  have "10 \<le> n \<Longrightarrow> \<not> bit f n"
    using assms by (intro small_word_bits [of f 10]) simp_all
  then show "bit ((PA2PTE pa OR fl) AND f) n = bit (fl AND f) n"
    by (cases "10 \<le> n") (auto simp: PA2PTE_def bit_simps)
qed

lemma PTE2PA_PA2PTE:
  assumes "unat fl < 1024" "unat pa mod PGSIZE = 0" "unat pa < 2 ^ 56"
  shows "PTE2PA (PA2PTE pa OR fl) = pa"
proof -
  have fl: "\<not> bit fl n" if "10 \<le> n" for n
    using assms(1) that by (intro small_word_bits [of fl 10]) simp_all
  have hi: "\<not> bit pa n" if "56 \<le> n" for n
    using assms(3) that by (rule small_word_bits)
  have "push_bit 12 (drop_bit 12 pa) = pa"
    using assms(2) by (simp add: word_unat_eq_iff unat_push_drop PGSIZE_def mod_0_imp_dvd)
  then have lo: "\<not> bit pa n" if "n < 12" for n
    using that by (metis bit_push_bit_iff not_le)
  show ?thesis
    unfolding PTE2PA_def PA2PTE_def
  proof (rule bit_word_eqI)
    fix n assume "n < LENGTH(64)"
    then show "bit (push_bit 12 (drop_bit 10 (push_bit 10 (drop_bit 12 pa) OR fl))) n = bit pa n"
      using fl [of "n - 2"] hi [of n] lo [of n]
      by (cases "12 \<le> n") (auto simp: bit_simps)
  qed
qed

lemma unat_PX: "unat (PX level va) = unat va div 2 ^ PXSHIFT level mod 512"
proof -
  have "(0x1FF :: u64) = mask 9" by (simp add: mask_eq_exp_minus_1)
  then have "PX level va = take_bit 9 (drop_bit (PXSHIFT level) va)"
    by (simp add: PX_def take_bit_eq_mask)
  then show ?thesis
    by (simp only: unsigned_take_bit_eq unat_drop_bit_eq) (simp add: take_bit_eq_mod drop_bit_eq_div)
qed

lemma PX_less: "unat (PX level va) < 512"
  by (simp add: unat_PX)

lemma unat_MAXVA: "unat MAXVA = 2 ^ 38"
  by (simp add: MAXVA_def)

text \<open>Below \<open>MAXVA\<close> the three indices determine the page of a virtual address.\<close>

lemma PX_determine_page:
  assumes "unat va < 2 ^ 38" "unat vb < 2 ^ 38"
    and "PX 2 va = PX 2 vb" "PX 1 va = PX 1 vb" "PX 0 va = PX 0 vb"
  shows "unat va div PGSIZE = unat vb div PGSIZE"
proof -
  have shift: "PXSHIFT 2 = 30" "PXSHIFT 1 = 21" "PXSHIFT 0 = 12"
    by (simp_all add: PXSHIFT_def PGSHIFT_def)
  have split: "x div 4096 = x div 2 ^ 30 mod 512 * 262144 + x div 2 ^ 21 mod 512 * 512 + x div 2 ^ 12 mod 512"
    if "x < 2 ^ 38" for x :: nat
  proof -
    define y where "y = x div 4096"
    define z where "z = y div 512"
    have z: "x div 2 ^ 21 = z" and w: "x div 2 ^ 30 = z div 512" and y: "x div 2 ^ 12 = y"
      by (simp_all add: y_def z_def flip: div_mult2_eq)
    have "x div 2 ^ 30 < 512" using that by (simp add: less_mult_imp_div_less)
    then have "z div 512 mod 512 = z div 512" unfolding w by simp
    moreover have "y = z * 512 + y mod 512" "z = z div 512 * 512 + z mod 512"
      by (simp_all add: z_def)
    ultimately have "y = z div 512 mod 512 * 262144 + z mod 512 * 512 + y mod 512" by linarith
    then show ?thesis unfolding z w y by (simp add: y_def)
  qed
  have "unat va div 2 ^ 30 mod 512 = unat vb div 2 ^ 30 mod 512"
    "unat va div 2 ^ 21 mod 512 = unat vb div 2 ^ 21 mod 512"
    "unat va div 2 ^ 12 mod 512 = unat vb div 2 ^ 12 mod 512"
    using assms(3-5) unat_PX [of 2] unat_PX [of 1] unat_PX [of 0] unfolding shift by metis+
  then show ?thesis
    unfolding PGSIZE_def split [OF assms(1)] split [OF assms(2)] by (simp only:)
qed

end
