(* ===== verification/Kalloc.thy ===== *)
theory Kalloc
  imports Riscv Cstring
begin

text \<open>
  The physical page allocator of \<^verbatim>\<open>kernel/kalloc.c\<close>. As in the code the free list is threaded
  through the free pages themselves: the first eight bytes of a free page hold the address of the
  next one, and \<open>freelist\<close> is the head pointer (0 is the null pointer). \<open>freechain\<close> relates the
  pointers in memory to the HOL list of free pages, and \<open>kalloc_inv\<close> is the invariant of the
  allocator. The critical sections under \<open>kmem.lock\<close> are atomic steps of the model.
  The locale \<open>page_pool\<close> is the contract the rest of the kernel relies on; its client lemma says
  that no page is ever handed out twice, and it is interpreted on \<open>kalloc\<close> and \<open>kfree\<close>.
\<close>

record kmem =
  freelist :: nat
  ram :: mem

definition kfree :: "machine \<Rightarrow> nat \<Rightarrow> kmem \<Rightarrow> fault + kmem" where
  "kfree c pa s =
     (if pa mod PGSIZE \<noteq> 0 \<or> pa < kend c \<or> pa \<ge> PHYSTOP c then Inl (Panic ''kfree'')
      else let m = memset (ram s) pa 1 PGSIZE;
               m = store64 m pa (word_of_nat (freelist s))
           in Inr (s\<lparr>ram := m, freelist := pa\<rparr>))"

definition kalloc :: "kmem \<Rightarrow> nat \<times> kmem" where
  "kalloc s =
     (let r = freelist s;
          s = (if r \<noteq> 0 then s\<lparr>freelist := unat (load64 (ram s) r)\<rparr> else s);
          s = (if r \<noteq> 0 then s\<lparr>ram := memset (ram s) r 5 PGSIZE\<rparr> else s)
      in (r, s))"

function freerange_loop :: "machine \<Rightarrow> nat \<Rightarrow> nat \<Rightarrow> kmem \<Rightarrow> fault + kmem" where
  "freerange_loop c p pa_end s =
     (if p + PGSIZE \<le> pa_end
      then bindE (kfree c p s) (\<lambda>s. freerange_loop c (p + PGSIZE) pa_end s)
      else Inr s)"
  by pat_completeness auto
termination
  by (relation "measure (\<lambda>(c, p, pa_end, s). pa_end - p)") (auto simp: PGSIZE_def)

declare freerange_loop.simps [simp del]

definition freerange :: "machine \<Rightarrow> nat \<Rightarrow> nat \<Rightarrow> kmem \<Rightarrow> fault + kmem" where
  "freerange c pa_start pa_end s =
     freerange_loop c (unat (PGROUNDUP (word_of_nat pa_start))) pa_end s"

definition kinit :: "machine \<Rightarrow> kmem \<Rightarrow> fault + kmem" where
  "kinit c s = freerange c (kend c) (PHYSTOP c) s"

section \<open>The invariant\<close>

primrec freechain :: "mem \<Rightarrow> nat \<Rightarrow> nat list \<Rightarrow> bool" where
  "freechain m p [] \<longleftrightarrow> p = 0"
| "freechain m p (a # as) \<longleftrightarrow> p = a \<and> a \<noteq> 0 \<and> freechain m (unat (load64 m a)) as"

definition page_ok :: "machine \<Rightarrow> nat \<Rightarrow> bool" where
  "page_ok c a \<longleftrightarrow> a mod PGSIZE = 0 \<and> kend c \<le> a \<and> a < PHYSTOP c"

definition machine_ok :: "machine \<Rightarrow> bool" where
  "machine_ok c \<longleftrightarrow> KERNBASE \<le> kend c \<and> PHYSTOP c \<le> 2 ^ 56 \<and> kend c \<le> PHYSTOP c"

definition kalloc_inv :: "machine \<Rightarrow> kmem \<Rightarrow> nat list \<Rightarrow> bool" where
  "kalloc_inv c s as \<longleftrightarrow>
     freechain (ram s) (freelist s) as \<and> distinct as \<and> (\<forall>a\<in>set as. page_ok c a)"

definition in_page :: "nat \<Rightarrow> nat \<Rightarrow> bool" where
  "in_page a x \<longleftrightarrow> a \<le> x \<and> x < a + PGSIZE"

lemma pages_disjoint:
  assumes "page_ok c a" "page_ok c b" "a \<noteq> b"
  shows "a + PGSIZE \<le> b \<or> b + PGSIZE \<le> a"
proof -
  from assms obtain i j where "a = i * PGSIZE" "b = j * PGSIZE" "i \<noteq> j"
    by (auto simp: page_ok_def mod_0_imp_dvd dvd_def mult.commute)
  then show ?thesis
    by (metis Suc_leI add.commute mult_Suc mult_le_mono1 nat_neq_iff)
qed

lemma page_word:
  assumes "machine_ok c" "page_ok c a"
  shows "unat (word_of_nat a :: u64) = a" "a \<noteq> 0"
proof -
  from assms have "a < 2 ^ 56" and "0 < a" by (auto simp: page_ok_def machine_ok_def KERNBASE_def)
  then show "unat (word_of_nat a :: u64) = a" "a \<noteq> 0"
    by (simp_all add: unat_of_nat take_bit_eq_mod)
qed

lemma freechain_head: "freechain m p as \<Longrightarrow> as = [] \<longleftrightarrow> p = 0"
  by (cases as) auto

text \<open>A free list only depends on the first eight bytes of its pages.\<close>

lemma freechain_cong:
  "(\<And>a. a \<in> set as \<Longrightarrow> load64 m a = load64 m' a) \<Longrightarrow> freechain m p as = freechain m' p as"
  by (induction as arbitrary: p) auto

lemma load64_memset_other:
  "a + 8 \<le> pa \<or> pa + PGSIZE \<le> a \<Longrightarrow> load64 (memset m pa v PGSIZE) a = load64 m a"
  by (simp add: memset_eq_store load64_store_bytes_disjoint)

lemma load64_kfree_other:
  assumes "page_ok c a" "page_ok c pa" "a \<noteq> pa"
  shows "load64 (store64 (memset m pa v PGSIZE) pa w) a = load64 m a"
proof -
  have apart: "a + PGSIZE \<le> pa \<or> pa + PGSIZE \<le> a" using assms by (rule pages_disjoint)
  then have "load64 (store64 (memset m pa v PGSIZE) pa w) a = load64 (memset m pa v PGSIZE) a"
    by (intro load64_store64_disjoint) (auto simp: PGSIZE_def)
  also have "\<dots> = load64 m a"
    using apart by (intro load64_memset_other) (auto simp: PGSIZE_def)
  finally show ?thesis .
qed

lemma kalloc_inv_other_ram:
  assumes "kalloc_inv c k as" "page_ok c a" "a \<notin> set as" "\<And>x. \<not> in_page a x \<Longrightarrow> m x = ram k x"
  shows "kalloc_inv c (k\<lparr>ram := m\<rparr>) as"
proof -
  have "load64 m b = load64 (ram k) b" if "b \<in> set as" for b
  proof -
    from that assms have "b + PGSIZE \<le> a \<or> a + PGSIZE \<le> b"
      by (intro pages_disjoint) (auto simp: kalloc_inv_def)
    then have "load_bytes m b 8 = load_bytes (ram k) b 8"
      by (intro load_bytes_cong assms(4)) (auto simp: in_page_def PGSIZE_def)
    then show ?thesis by (simp add: load64_def)
  qed
  then have "freechain m (freelist k) as = freechain (ram k) (freelist k) as"
    by (rule freechain_cong)
  with assms(1) show ?thesis by (simp add: kalloc_inv_def)
qed

section \<open>The operations\<close>

lemma kfree_outside:
  assumes "kfree c pa s = Inr s'" "\<not> in_page pa x"
  shows "ram s' x = ram s x"
  using assms
  by (auto simp: kfree_def Let_def store64_def store_bytes_def memset_apply in_page_def PGSIZE_def
      split: if_splits)

lemma kalloc_outside:
  assumes "kalloc s = (a, s')" "\<not> in_page a x"
  shows "ram s' x = ram s x"
  using assms by (auto simp: kalloc_def Let_def memset_apply in_page_def split: if_splits)

lemma kfree_panics: "kfree c pa s = Inl (Panic ''kfree'') \<longleftrightarrow> \<not> page_ok c pa"
  by (auto simp: kfree_def page_ok_def Let_def)

lemma kfree_pushes:
  assumes m: "machine_ok c" and inv: "kalloc_inv c s as" and pa: "page_ok c pa" "pa \<notin> set as"
  shows "\<exists>s'. kfree c pa s = Inr s' \<and> kalloc_inv c s' (pa # as)"
proof -
  let ?m = "store64 (memset (ram s) pa 1 PGSIZE) pa (word_of_nat (freelist s))"
  let ?s = "s\<lparr>ram := ?m, freelist := pa\<rparr>"
  have "kfree c pa s = Inr ?s"
    using pa by (auto simp: kfree_def page_ok_def Let_def)
  moreover have "freechain (ram s) (freelist s) as" using inv by (simp add: kalloc_inv_def)
  then have "freechain ?m (freelist s) as"
    using inv pa
    by (subst freechain_cong [where m' = "ram s"]) (auto simp: kalloc_inv_def intro!: load64_kfree_other)
  moreover have "unat (word_of_nat (freelist s) :: u64) = freelist s"
  proof (cases as)
    case Nil
    with inv show ?thesis by (simp add: kalloc_inv_def)
  next
    case (Cons a bs)
    with inv m show ?thesis by (auto simp: kalloc_inv_def intro: page_word)
  qed
  ultimately show ?thesis
    using inv pa m page_word(2) [OF m pa(1)] by (auto simp: kalloc_inv_def)
qed

lemma kalloc_pops:
  assumes m: "machine_ok c" and inv: "kalloc_inv c s (a # as)"
  shows "\<exists>s'. kalloc s = (a, s') \<and> kalloc_inv c s' as \<and> load_bytes (ram s') a PGSIZE = replicate PGSIZE 5"
proof -
  let ?m = "memset (ram s) a 5 PGSIZE"
  let ?s = "s\<lparr>freelist := unat (load64 (ram s) a), ram := ?m\<rparr>"
  from inv have a: "freelist s = a" "a \<noteq> 0" "freechain (ram s) (unat (load64 (ram s) a)) as"
    and ok: "page_ok c a" "a \<notin> set as" "distinct as" "\<forall>b\<in>set as. page_ok c b"
    by (auto simp: kalloc_inv_def)
  have "load64 ?m b = load64 (ram s) b" if "b \<in> set as" for b
  proof -
    from that ok have "b + PGSIZE \<le> a \<or> a + PGSIZE \<le> b" by (intro pages_disjoint) auto
    then show ?thesis by (intro load64_memset_other) (auto simp: PGSIZE_def)
  qed
  with a(3) have "freechain ?m (unat (load64 (ram s) a)) as"
    by (subst freechain_cong [where m' = "ram s"]) auto
  with a ok show ?thesis
    by (auto simp: kalloc_def Let_def kalloc_inv_def)
qed

lemma kalloc_exhausted: "kalloc_inv c s [] \<Longrightarrow> kalloc s = (0, s)"
  by (simp add: kalloc_inv_def kalloc_def)

lemma freerange_loop_pages:
  assumes m: "machine_ok c" and inv: "kalloc_inv c s as" and p: "p = lo * PGSIZE" "kend c \<le> p"
    and hi: "pa_end \<le> PHYSTOP c" and fresh: "\<forall>a\<in>set as. a < p"
  shows "\<exists>s'. freerange_loop c p pa_end s = Inr s' \<and>
    kalloc_inv c s' (rev (map (\<lambda>i. i * PGSIZE) [lo..<pa_end div PGSIZE]) @ as)"
  using inv p fresh
proof (induction "pa_end - p" arbitrary: p lo s as rule: less_induct)
  case less
  have pos: "0 < PGSIZE" by (simp add: PGSIZE_def)
  show ?case
  proof (cases "p + PGSIZE \<le> pa_end")
    case True
    with hi less.prems pos have ok: "page_ok c p" by (simp add: page_ok_def)
    moreover have "p \<notin> set as" using less.prems(4) by auto
    ultimately obtain t where t: "kfree c p s = Inr t" "kalloc_inv c t (p # as)"
      using kfree_pushes [OF m less.prems(1)] by blast
    have "\<exists>s'. freerange_loop c (p + PGSIZE) pa_end t = Inr s' \<and>
        kalloc_inv c s' (rev (map (\<lambda>i. i * PGSIZE) [Suc lo..<pa_end div PGSIZE]) @ p # as)"
      using True pos t(2) less.prems by (intro less.hyps) auto
    moreover have "Suc lo * PGSIZE \<le> pa_end" using True less.prems(2) by simp
    then have "Suc lo \<le> pa_end div PGSIZE" using pos by (simp add: less_eq_div_iff_mult_less_eq)
    then have "[lo..<pa_end div PGSIZE] = lo # [Suc lo..<pa_end div PGSIZE]"
      by (simp add: upt_conv_Cons)
    ultimately show ?thesis
      using True t less.prems(2) by (subst freerange_loop.simps) simp
  next
    case False
    then have "pa_end div PGSIZE \<le> lo"
      using less.prems(2) pos by (simp add: not_le div_less_iff_less_mult flip: less_Suc_eq_le)
    with False less.prems show ?thesis by (subst freerange_loop.simps) simp
  qed
qed

text \<open>A page taken, overwritten in any way and given back leaves the free list as it was.\<close>

lemma temporary_page:
  assumes m: "machine_ok c" and inv: "kalloc_inv c k (a # as)" and k1: "kalloc k = (a, k1)"
    and out: "\<And>x. \<not> in_page a x \<Longrightarrow> m x = ram k1 x"
  shows "\<exists>k2. kfree c a (k1\<lparr>ram := m\<rparr>) = Inr k2 \<and> kalloc_inv c k2 (a # as) \<and>
    (\<forall>x. \<not> in_page a x \<longrightarrow> ram k2 x = ram k x)"
proof -
  have a: "page_ok c a" "a \<notin> set as" using inv by (auto simp: kalloc_inv_def)
  from kalloc_pops [OF m inv] k1 have "kalloc_inv c k1 as" by auto
  then have "kalloc_inv c (k1\<lparr>ram := m\<rparr>) as" using a out by (rule kalloc_inv_other_ram)
  then obtain k2 where k2: "kfree c a (k1\<lparr>ram := m\<rparr>) = Inr k2" "kalloc_inv c k2 (a # as)"
    using kfree_pushes [OF m _ a] by blast
  moreover have "ram k2 x = ram k x" if "\<not> in_page a x" for x
    using kfree_outside [OF k2(1) that] kalloc_outside [OF k1 that] out [OF that] by simp
  ultimately show ?thesis by blast
qed

section \<open>The contract of the allocator\<close>

text \<open>
  A client run: \<open>Alloc\<close> asks for a page and keeps it, \<open>Free p\<close> gives back a page the client owns
  (requests to free other addresses are skipped, they are outside the contract).
\<close>

datatype pool_op = Alloc | Free nat

fun pool_run :: "('s \<Rightarrow> nat \<times> 's) \<Rightarrow> (nat \<Rightarrow> 's \<Rightarrow> fault + 's) \<Rightarrow> pool_op list \<Rightarrow> nat list \<Rightarrow> 's
    \<Rightarrow> fault + nat list \<times> 's" where
  "pool_run alloc free [] owned s = Inr (owned, s)"
| "pool_run alloc free (Alloc # ops) owned s =
     (case alloc s of (a, s') \<Rightarrow> pool_run alloc free ops (if a = 0 then owned else a # owned) s')"
| "pool_run alloc free (Free p # ops) owned s =
     (if p \<in> set owned
      then bindE (free p s) (pool_run alloc free ops (remove1 p owned))
      else pool_run alloc free ops owned s)"

locale page_pool =
  fixes alloc :: "'s \<Rightarrow> nat \<times> 's"
    and free :: "nat \<Rightarrow> 's \<Rightarrow> fault + 's"
    and pool :: "'s \<Rightarrow> nat list \<Rightarrow> bool"
    and valid :: "nat \<Rightarrow> bool"
  assumes pool_distinct: "pool s as \<Longrightarrow> distinct as"
    and pool_valid: "pool s as \<Longrightarrow> a \<in> set as \<Longrightarrow> valid a"
    and not_valid_null: "\<not> valid 0"
    and alloc_none: "pool s [] \<Longrightarrow> alloc s = (0, s)"
    and alloc_some: "pool s (a # as) \<Longrightarrow> \<exists>s'. alloc s = (a, s') \<and> pool s' as"
    and free_ok: "pool s as \<Longrightarrow> valid p \<Longrightarrow> p \<notin> set as \<Longrightarrow> \<exists>s'. free p s = Inr s' \<and> pool s' (p # as)"
begin

lemma run_keeps_pages:
  assumes "pool s as" "distinct (owned @ as)" "\<forall>p\<in>set owned. valid p"
  shows "\<exists>owned' s' as'. pool_run alloc free ops owned s = Inr (owned', s') \<and> pool s' as' \<and>
    distinct (owned' @ as') \<and> set owned' \<union> set as' = set owned \<union> set as"
  using assms
proof (induction ops arbitrary: owned s as)
  case Nil
  then show ?case by auto
next
  case (Cons op ops)
  show ?case
  proof (cases op)
    case Alloc
    show ?thesis
    proof (cases as)
      case Nil
      with Cons.prems have "alloc s = (0, s)" by (simp add: alloc_none)
      with Cons.IH [of s as owned] Cons.prems Alloc show ?thesis by simp
    next
      case (Cons a bs)
      with Cons.prems obtain t where t: "alloc s = (a, t)" "pool t bs" using alloc_some by blast
      have "valid a"
        using Cons Cons.prems(1) pool_valid by force
      then have a: "valid a" "a \<noteq> 0"
        using not_valid_null by (auto intro: ccontr)
      have "\<exists>owned' s' as'. pool_run alloc free ops (a # owned) t = Inr (owned', s') \<and> pool s' as' \<and>
          distinct (owned' @ as') \<and> set owned' \<union> set as' = set (a # owned) \<union> set bs"
        using t a Cons Cons.prems by (intro Cons.IH) auto
      with t a Cons Alloc show ?thesis by auto
    qed
  next
    case (Free p)
    show ?thesis
    proof (cases "p \<in> set owned")
      case True
      with Cons.prems have "p \<notin> set as" "valid p" by auto
      with Cons.prems obtain t where t: "free p s = Inr t" "pool t (p # as)" using free_ok by blast
      have "\<exists>owned' s' as'. pool_run alloc free ops (remove1 p owned) t = Inr (owned', s') \<and> pool s' as' \<and>
          distinct (owned' @ as') \<and> set owned' \<union> set as' = set (remove1 p owned) \<union> set (p # as)"
        using t Cons.prems \<open>p \<notin> set as\<close> by (intro Cons.IH) auto
      moreover have "set (remove1 p owned) \<union> set (p # as) = set owned \<union> set as"
        using True Cons.prems(2) by (auto simp: set_remove1_eq)
      ultimately show ?thesis using t(1) True Free by simp
    next
      case False
      with Cons.IH [of s as owned] Cons.prems Free show ?thesis by simp
    qed
  qed
qed

end

interpretation kpages: page_pool kalloc "kfree c" "\<lambda>s as. machine_ok c \<and> kalloc_inv c s as"
  "\<lambda>a. machine_ok c \<and> page_ok c a" for c
proof unfold_locales
  fix s as
  assume "machine_ok c \<and> kalloc_inv c s as"
  then show "distinct as" by (simp add: kalloc_inv_def)
next
  fix s as a
  assume "machine_ok c \<and> kalloc_inv c s as" "a \<in> set as"
  then show "machine_ok c \<and> page_ok c a" by (simp add: kalloc_inv_def)
next
  show "\<not> (machine_ok c \<and> page_ok c 0)" using page_word(2) [of c 0] by auto
next
  fix s
  assume "machine_ok c \<and> kalloc_inv c s []"
  then show "kalloc s = (0, s)" by (auto intro: kalloc_exhausted)
next
  fix s a as
  assume "machine_ok c \<and> kalloc_inv c s (a # as)"
  then show "\<exists>s'. kalloc s = (a, s') \<and> machine_ok c \<and> kalloc_inv c s' as"
    using kalloc_pops by blast
next
  fix s as p
  assume "machine_ok c \<and> kalloc_inv c s as" "machine_ok c \<and> page_ok c p" "p \<notin> set as"
  then show "\<exists>s'. kfree c p s = Inr s' \<and> machine_ok c \<and> kalloc_inv c s' (p # as)"
    using kfree_pushes by blast
qed

section \<open>Properties\<close>

text \<open>C31: after \<open>kinit\<close> on an empty allocator, the free list holds exactly the whole pages between
  the end of the kernel image (rounded up to a page) and \<open>PHYSTOP\<close>, each of them once.\<close>

theorem kinit_frees_all_pages:
  assumes "machine_ok c" and "freelist s = 0" and "PHYSTOP c + PGSIZE \<le> 2 ^ 56"
  shows "\<exists>s'. kinit c s = Inr s' \<and>
    kalloc_inv c s' (rev (map (\<lambda>i. i * PGSIZE) [(kend c + PGSIZE - 1) div PGSIZE..<PHYSTOP c div PGSIZE]))"
proof -
  let ?lo = "(kend c + PGSIZE - 1) div PGSIZE"
  have pos: "0 < PGSIZE" by (simp add: PGSIZE_def)
  have small: "kend c < 2 ^ 56" using assms by (simp add: machine_ok_def PGSIZE_def)
  then have k: "unat (word_of_nat (kend c) :: u64) = kend c"
    by (simp add: unat_of_nat take_bit_eq_mod)
  with small have fits: "unat (word_of_nat (kend c) :: u64) + PGSIZE - 1 < 2 ^ 64"
    by (simp add: PGSIZE_def)
  have up: "unat (PGROUNDUP (word_of_nat (kend c))) = ?lo * PGSIZE"
    using unat_PGROUNDUP [OF fits] k by simp
  moreover have "kend c \<le> ?lo * PGSIZE"
    using PGROUNDUP_bounds(1) [OF fits] up k by simp
  ultimately show ?thesis
    using freerange_loop_pages [of c s "[]" "?lo * PGSIZE" ?lo "PHYSTOP c"] assms
    by (simp add: kinit_def freerange_def kalloc_inv_def)
qed

definition small_machine :: machine where
  "small_machine = \<lparr>kend = KERNBASE + 2 * PGSIZE + 100, etext = KERNBASE + PGSIZE,
     trampoline = KERNBASE, MEM = 1, DISKS = 4, DSK_SIZE = 128\<rparr>"

definition boot_kmem :: kmem where
  "boot_kmem = \<lparr>freelist = 0, ram = (\<lambda>_. 0)\<rparr>"

lemma small_machine_ok: "machine_ok small_machine" "PHYSTOP small_machine + PGSIZE \<le> 2 ^ 56"
  by (simp_all add: small_machine_def machine_ok_def PHYSTOP_def KERNBASE_def PGSIZE_def)

theorem kinit_frees_all_pages_witness:
  "machine_ok small_machine \<and> freelist boot_kmem = 0 \<and> PHYSTOP small_machine + PGSIZE \<le> 2 ^ 56 \<and>
   (\<exists>s'. kinit small_machine boot_kmem = Inr s' \<and> kalloc_inv small_machine s'
      (rev (map (\<lambda>i. i * PGSIZE)
        [(kend small_machine + PGSIZE - 1) div PGSIZE..<PHYSTOP small_machine div PGSIZE])))"
proof -
  have empty: "freelist boot_kmem = 0" by (simp add: boot_kmem_def)
  show ?thesis
    using small_machine_ok empty kinit_frees_all_pages [OF small_machine_ok(1) empty small_machine_ok(2)]
    by blast
qed

text \<open>C32: pages are handed out and taken back without loss or duplication: a client that starts
  with no pages and makes any sequence of \<open>kalloc\<close> calls and of \<open>kfree\<close> calls on pages it owns
  never makes the kernel panic, never owns a page twice, never owns a page that is still free, and
  owned and free pages together are always the pages of the initial free list.\<close>

theorem kalloc_kfree_conserve_pages:
  assumes "machine_ok c" and "kalloc_inv c s as"
  shows "\<exists>owned s' as'. pool_run kalloc (kfree c) ops [] s = Inr (owned, s') \<and>
    kalloc_inv c s' as' \<and> distinct (owned @ as') \<and> set owned \<union> set as' = set as"
  using kpages.run_keeps_pages [of c s as "[]" ops] assms by (auto simp: kalloc_inv_def)

definition two_page_kmem :: kmem where
  "two_page_kmem = \<lparr>freelist = KERNBASE + 8 * PGSIZE,
     ram = store64 (store64 (\<lambda>_. 0) (KERNBASE + 8 * PGSIZE) (word_of_nat (KERNBASE + 4 * PGSIZE)))
       (KERNBASE + 4 * PGSIZE) 0\<rparr>"

lemma two_page_kmem_inv:
  "kalloc_inv small_machine two_page_kmem [KERNBASE + 8 * PGSIZE, KERNBASE + 4 * PGSIZE]"
  by (simp add: kalloc_inv_def two_page_kmem_def load64_store64_disjoint small_machine_def
      page_ok_def PHYSTOP_def KERNBASE_def PGSIZE_def)

theorem kalloc_kfree_conserve_pages_witness:
  "machine_ok small_machine \<and>
   kalloc_inv small_machine two_page_kmem [KERNBASE + 8 * PGSIZE, KERNBASE + 4 * PGSIZE] \<and>
   (\<exists>owned s' as'. pool_run kalloc (kfree small_machine) [Alloc, Alloc, Free (KERNBASE + 8 * PGSIZE), Alloc, Alloc]
        [] two_page_kmem = Inr (owned, s') \<and>
     kalloc_inv small_machine s' as' \<and> distinct (owned @ as') \<and>
     set owned \<union> set as' = set [KERNBASE + 8 * PGSIZE, KERNBASE + 4 * PGSIZE])"
  using small_machine_ok(1) two_page_kmem_inv
    kalloc_kfree_conserve_pages [OF small_machine_ok(1) two_page_kmem_inv] by blast

end
