(* ===== verification/Vm.thy ===== *)
theory Vm
  imports Kalloc
begin

text \<open>
  Page tables and address spaces, \<^verbatim>\<open>kernel/vm.c\<close>. A page table is the physical address of its
  root page; page-table entries are read and written in the same memory \<open>ram\<close> that the page
  allocator manages, so that \<open>walk\<close> allocates page-table pages with \<open>kalloc\<close>. Functions that
  can panic return \<open>fault + \<dots>\<close>; a returned pointer 0 is the null pointer of the C code.
\<close>

primrec walk_from :: "nat \<Rightarrow> nat \<Rightarrow> u64 \<Rightarrow> bool \<Rightarrow> kmem \<Rightarrow> nat \<times> kmem" where
  "walk_from 0 pagetable va alloc s = (pagetable + 8 * unat (PX 0 va), s)"
| "walk_from (Suc l) pagetable va alloc s =
     (let pte = pagetable + 8 * unat (PX (Suc l) va);
          v = load64 (ram s) pte
      in if v AND PTE_V \<noteq> 0 then walk_from l (unat (PTE2PA v)) va alloc s
         else if \<not> alloc then (0, s)
         else case kalloc s of (p, s) \<Rightarrow>
           if p = 0 then (0, s)
           else let m = memset (ram s) p 0 PGSIZE;
                    m = store64 m pte (PA2PTE (word_of_nat p) OR PTE_V)
                in walk_from l p va alloc (s\<lparr>ram := m\<rparr>))"

definition walk :: "nat \<Rightarrow> u64 \<Rightarrow> bool \<Rightarrow> kmem \<Rightarrow> nat \<times> kmem" where
  "walk pagetable va alloc s =
     (if va \<ge> MAXVA then (0, s) else walk_from 2 pagetable va alloc s)"

definition walkaddr :: "nat \<Rightarrow> u64 \<Rightarrow> kmem \<Rightarrow> u64" where
  "walkaddr pagetable va s =
     (if va \<ge> MAXVA then 0
      else let pte = fst (walk pagetable va False s)
           in if pte = 0 then 0
              else if load64 (ram s) pte AND PTE_V = 0 then 0
              else if load64 (ram s) pte AND PTE_U = 0 then 0
              else PTE2PA (load64 (ram s) pte))"

text \<open>
  The loop of \<^verbatim>\<open>mappages\<close> runs until \<open>a == last\<close>; both are page aligned, so \<open>n\<close>, the number of pages
  from \<open>a\<close> to \<open>last\<close>, is what remains of it.
\<close>

primrec mappages_loop :: "nat \<Rightarrow> nat \<Rightarrow> u64 \<Rightarrow> u64 \<Rightarrow> u64 \<Rightarrow> kmem \<Rightarrow> fault + int \<times> kmem" where
  "mappages_loop 0 pagetable a pa perm s =
     (case walk pagetable a True s of (pte, s) \<Rightarrow>
        if pte = 0 then Inr (-1, s)
        else if load64 (ram s) pte AND PTE_V \<noteq> 0 then Inl (Panic ''mappages: remap'')
        else Inr (0, s\<lparr>ram := store64 (ram s) pte (PA2PTE pa OR perm OR PTE_V)\<rparr>))"
| "mappages_loop (Suc n) pagetable a pa perm s =
     (case walk pagetable a True s of (pte, s) \<Rightarrow>
        if pte = 0 then Inr (-1, s)
        else if load64 (ram s) pte AND PTE_V \<noteq> 0 then Inl (Panic ''mappages: remap'')
        else mappages_loop n pagetable (a + word_of_nat PGSIZE) (pa + word_of_nat PGSIZE) perm
               (s\<lparr>ram := store64 (ram s) pte (PA2PTE pa OR perm OR PTE_V)\<rparr>))"

definition mappages :: "nat \<Rightarrow> u64 \<Rightarrow> u64 \<Rightarrow> u64 \<Rightarrow> u64 \<Rightarrow> kmem \<Rightarrow> fault + int \<times> kmem" where
  "mappages pagetable va sz pa perm s =
     (if sz = 0 then Inl (Panic ''mappages: size'')
      else let a = PGROUNDDOWN va; last = PGROUNDDOWN (va + sz - 1)
           in mappages_loop (unat (last - a) div PGSIZE) pagetable a pa perm s)"

definition kvmmap :: "nat \<Rightarrow> u64 \<Rightarrow> u64 \<Rightarrow> u64 \<Rightarrow> u64 \<Rightarrow> kmem \<Rightarrow> fault + kmem" where
  "kvmmap kpgtbl va pa sz perm s =
     bindE (mappages kpgtbl va sz pa perm s) (\<lambda>(r, s).
       if r \<noteq> 0 then Inl (Panic ''kvmmap'') else Inr s)"

lemma walk_nonnull: "fst (walk pagetable va alloc s) \<noteq> 0 \<Longrightarrow> va < MAXVA"
  by (auto simp: walk_def split: if_splits)

lemma step_up_measure:
  assumes "a < MAXVA" "a < (e :: u64)"
  shows "unat e - unat (a + word_of_nat PGSIZE) < unat e - unat a"
proof -
  have "unat a < 2 ^ 38" using assms(1) by (simp add: word_less_nat_alt unat_MAXVA)
  then have "unat (a + word_of_nat PGSIZE) = unat a + PGSIZE"
    by (simp add: PGSIZE_def unat_word_ariths)
  with assms(2) show ?thesis by (simp add: word_less_nat_alt PGSIZE_def)
qed

function uvmunmap_loop :: "machine \<Rightarrow> nat \<Rightarrow> u64 \<Rightarrow> u64 \<Rightarrow> bool \<Rightarrow> kmem \<Rightarrow> fault + kmem" where
  "uvmunmap_loop c pagetable a stop do_free s =
     (if a < stop then
        let pte = fst (walk pagetable a False s); v = load64 (ram s) pte
        in if pte = 0 then Inl (Panic ''uvmunmap: walk'')
           else if v AND PTE_V = 0 then Inl (Panic ''uvmunmap: not mapped'')
           else if PTE_FLAGS v = PTE_V then Inl (Panic ''uvmunmap: not a leaf'')
           else bindE (if do_free then kfree c (unat (PTE2PA v)) s else Inr s) (\<lambda>s.
                  uvmunmap_loop c pagetable (a + word_of_nat PGSIZE) stop do_free
                    (s\<lparr>ram := store64 (ram s) pte 0\<rparr>))
      else Inr s)"
  by pat_completeness auto
termination
  by (relation "measure (\<lambda>(c, pagetable, a, stop, do_free, s). unat stop - unat a)")
    (auto intro: step_up_measure walk_nonnull)

declare uvmunmap_loop.simps [simp del]

definition uvmunmap :: "machine \<Rightarrow> nat \<Rightarrow> u64 \<Rightarrow> u64 \<Rightarrow> bool \<Rightarrow> kmem \<Rightarrow> fault + kmem" where
  "uvmunmap c pagetable va npages do_free s =
     (if unat va mod PGSIZE \<noteq> 0 then Inl (Panic ''uvmunmap: not aligned'')
      else uvmunmap_loop c pagetable va (va + npages * word_of_nat PGSIZE) do_free s)"

definition uvmcreate :: "kmem \<Rightarrow> nat \<times> kmem" where
  "uvmcreate s =
     (case kalloc s of (p, s) \<Rightarrow>
        if p = 0 then (0, s) else (p, s\<lparr>ram := memset (ram s) p 0 PGSIZE\<rparr>))"

text \<open>
  \<^verbatim>\<open>uvmfirst\<close> ignores the result of \<^verbatim>\<open>mappages\<close> and does not check that \<^verbatim>\<open>kalloc\<close> succeeded; a null
  page is a write through a null pointer.
\<close>

definition uvmfirst :: "nat \<Rightarrow> byte list \<Rightarrow> kmem \<Rightarrow> fault + kmem" where
  "uvmfirst pagetable src s =
     (if length src \<ge> PGSIZE then Inl (Panic ''uvmfirst: more than a page'')
      else case kalloc s of (p, s) \<Rightarrow>
        if p = 0 then Inl (Undefined ''uvmfirst: null page'')
        else bindE (mappages pagetable 0 (word_of_nat PGSIZE) (word_of_nat p) (PTE_W OR PTE_R OR PTE_X OR PTE_U)
                     (s\<lparr>ram := memset (ram s) p 0 PGSIZE\<rparr>)) (\<lambda>(r, s).
               Inr (s\<lparr>ram := store_bytes (ram s) p src\<rparr>)))"

definition uvmdealloc :: "machine \<Rightarrow> nat \<Rightarrow> u64 \<Rightarrow> u64 \<Rightarrow> kmem \<Rightarrow> fault + u64 \<times> kmem" where
  "uvmdealloc c pagetable oldsz newsz s =
     (if newsz \<ge> oldsz then Inr (oldsz, s)
      else if PGROUNDUP newsz < PGROUNDUP oldsz
      then let npages = (PGROUNDUP oldsz - PGROUNDUP newsz) div word_of_nat PGSIZE
           in bindE (uvmunmap c pagetable (PGROUNDUP newsz) npages True s) (\<lambda>s. Inr (newsz, s))
      else Inr (newsz, s))"

lemma mappages_ok_below:
  "mappages pagetable a (word_of_nat PGSIZE) pa perm s = Inr (0, t) \<Longrightarrow> PGROUNDDOWN a < MAXVA"
  by (cases "unat (PGROUNDDOWN (a + word_of_nat PGSIZE - 1) - PGROUNDDOWN a) div PGSIZE")
    (auto simp: mappages_def Let_def split: if_splits prod.splits intro: walk_nonnull
      [of pagetable "PGROUNDDOWN a" True s])


function uvmalloc_loop :: "machine \<Rightarrow> nat \<Rightarrow> u64 \<Rightarrow> u64 \<Rightarrow> u64 \<Rightarrow> u64 \<Rightarrow> kmem \<Rightarrow> fault + u64 \<times> kmem" where
  "uvmalloc_loop c pagetable a oldsz newsz xperm s =
     (if a < newsz then
        case kalloc s of (mem, s) \<Rightarrow>
          if mem = 0 then bindE (uvmdealloc c pagetable a oldsz s) (\<lambda>(_, s). Inr (0, s))
          else bindE (mappages pagetable a (word_of_nat PGSIZE) (word_of_nat mem) (PTE_R OR PTE_U OR xperm)
                       (s\<lparr>ram := memset (ram s) mem 0 PGSIZE\<rparr>)) (\<lambda>(r, s).
                 if r \<noteq> 0
                 then bindE (kfree c mem s) (\<lambda>s.
                        bindE (uvmdealloc c pagetable a oldsz s) (\<lambda>(_, s). Inr (0, s)))
                 else uvmalloc_loop c pagetable (a + word_of_nat PGSIZE) oldsz newsz xperm s)
      else Inr (newsz, s))"
  by pat_completeness auto
termination
proof (relation "measure (\<lambda>(c, pagetable, a, oldsz, newsz, xperm, s). unat newsz - unat a)", goal_cases)
  case 1
  then show ?case by simp
next
  case prems: (2 c pagetable a)
  then have "PGROUNDDOWN a < MAXVA" by (auto dest: mappages_ok_below)
  then have "unat a < 2 ^ 38 + PGSIZE"
    using div_mult_mod_eq [of "unat a" PGSIZE] mod_less_divisor [of PGSIZE "unat a"]
    by (simp add: word_less_nat_alt unat_MAXVA unat_PGROUNDDOWN PGSIZE_def)
  then have "unat (a + word_of_nat PGSIZE) = unat a + PGSIZE"
    by (simp add: PGSIZE_def unat_word_ariths)
  with prems show ?case by (simp add: word_less_nat_alt PGSIZE_def)
qed

declare uvmalloc_loop.simps [simp del]

definition uvmalloc :: "machine \<Rightarrow> nat \<Rightarrow> u64 \<Rightarrow> u64 \<Rightarrow> u64 \<Rightarrow> kmem \<Rightarrow> fault + u64 \<times> kmem" where
  "uvmalloc c pagetable oldsz newsz xperm s =
     (if newsz < oldsz then Inr (oldsz, s)
      else let oldsz = PGROUNDUP oldsz in uvmalloc_loop c pagetable oldsz oldsz newsz xperm s)"

text \<open>
  \<^verbatim>\<open>freewalk\<close> recurses through the page-table tree; \<open>depth\<close> bounds the nesting of the calls (a
  three-level tree needs 3), and a deeper tree is a kernel-stack overflow.
\<close>

primrec freewalk :: "nat \<Rightarrow> machine \<Rightarrow> nat \<Rightarrow> kmem \<Rightarrow> fault + kmem" where
  "freewalk 0 c pagetable s = Inl (Undefined ''freewalk: depth'')"
| "freewalk (Suc depth) c pagetable s =
     bindE (forE [0..<512] (\<lambda>i s.
        let pte = load64 (ram s) (pagetable + 8 * i)
        in if pte AND PTE_V \<noteq> 0 \<and> pte AND (PTE_R OR PTE_W OR PTE_X) = 0
           then bindE (freewalk depth c (unat (PTE2PA pte)) s) (\<lambda>s.
                  Inr (s\<lparr>ram := store64 (ram s) (pagetable + 8 * i) 0\<rparr>))
           else if pte AND PTE_V \<noteq> 0 then Inl (Panic ''freewalk: leaf'')
           else Inr s) s) (\<lambda>s.
     kfree c pagetable s)"

definition uvmfree :: "machine \<Rightarrow> nat \<Rightarrow> u64 \<Rightarrow> kmem \<Rightarrow> fault + kmem" where
  "uvmfree c pagetable sz s =
     bindE (if sz > 0 then uvmunmap c pagetable 0 (PGROUNDUP sz div word_of_nat PGSIZE) True s else Inr s)
       (\<lambda>s. freewalk 3 c pagetable s)"

definition uvmcopy_err :: "machine \<Rightarrow> nat \<Rightarrow> u64 \<Rightarrow> kmem \<Rightarrow> fault + int \<times> kmem" where
  "uvmcopy_err c new i s =
     bindE (uvmunmap c new 0 (i div word_of_nat PGSIZE) True s) (\<lambda>s. Inr (-1, s))"

function uvmcopy_loop :: "machine \<Rightarrow> nat \<Rightarrow> nat \<Rightarrow> u64 \<Rightarrow> u64 \<Rightarrow> kmem \<Rightarrow> fault + int \<times> kmem" where
  "uvmcopy_loop c old new i sz s =
     (if i < sz then
        let pte = fst (walk old i False s); v = load64 (ram s) pte
        in if pte = 0 then Inl (Panic ''uvmcopy: pte should exist'')
           else if v AND PTE_V = 0 then Inl (Panic ''uvmcopy: page not present'')
           else case kalloc s of (mem, s) \<Rightarrow>
             if mem = 0 then uvmcopy_err c new i s
             else bindE (mappages new i (word_of_nat PGSIZE) (word_of_nat mem) (PTE_FLAGS v)
                          (s\<lparr>ram := memmove (ram s) mem (unat (PTE2PA v)) PGSIZE\<rparr>)) (\<lambda>(r, s).
                    if r \<noteq> 0 then bindE (kfree c mem s) (\<lambda>s. uvmcopy_err c new i s)
                    else uvmcopy_loop c old new (i + word_of_nat PGSIZE) sz s)
      else Inr (0, s))"
  by pat_completeness auto
termination
  by (relation "measure (\<lambda>(c, old, new, i, sz, s). unat sz - unat i)")
    (auto intro: step_up_measure walk_nonnull)

declare uvmcopy_loop.simps [simp del]

definition uvmcopy :: "machine \<Rightarrow> nat \<Rightarrow> nat \<Rightarrow> u64 \<Rightarrow> kmem \<Rightarrow> fault + int \<times> kmem" where
  "uvmcopy c old new sz s = uvmcopy_loop c old new 0 sz s"

definition uvmclear :: "nat \<Rightarrow> u64 \<Rightarrow> kmem \<Rightarrow> fault + kmem" where
  "uvmclear pagetable va s =
     (let pte = fst (walk pagetable va False s)
      in if pte = 0 then Inl (Panic ''uvmclear'')
         else Inr (s\<lparr>ram := store64 (ram s) pte (load64 (ram s) pte AND NOT PTE_U)\<rparr>))"

lemma page_offset_less: "unat (va - PGROUNDDOWN va) < PGSIZE"
  "unat (va - PGROUNDDOWN va) = unat va mod PGSIZE"
proof -
  have "PGROUNDDOWN va \<le> va"
    by (simp add: word_le_nat_alt unat_PGROUNDDOWN)
  then have "unat (va - PGROUNDDOWN va) = unat va - unat va div PGSIZE * PGSIZE"
    by (simp add: unat_sub unat_PGROUNDDOWN)
  then show "unat (va - PGROUNDDOWN va) = unat va mod PGSIZE"
    by (simp add: minus_div_mult_eq_mod)
  then show "unat (va - PGROUNDDOWN va) < PGSIZE"
    by (simp add: PGSIZE_def)
qed

text \<open>
  Kernel buffers are byte lists: \<open>src\<close> of \<^verbatim>\<open>copyout\<close> is the list still to be copied, \<^verbatim>\<open>copyin\<close> and
  \<^verbatim>\<open>copyinstr\<close> return the bytes they wrote to \<open>dst\<close>, also when they fail half way.
\<close>

function copyout :: "nat \<Rightarrow> u64 \<Rightarrow> byte list \<Rightarrow> kmem \<Rightarrow> int \<times> kmem" where
  "copyout pagetable dstva src s =
     (if length src > 0 then
        let va0 = PGROUNDDOWN dstva; pa0 = walkaddr pagetable va0 s
        in if pa0 = 0 then (-1, s)
           else let n = PGSIZE - unat (dstva - va0);
                    n = (if n > length src then length src else n)
                in copyout pagetable (va0 + word_of_nat PGSIZE) (drop n src)
                     (s\<lparr>ram := store_bytes (ram s) (unat (pa0 + (dstva - va0))) (take n src)\<rparr>)
      else (0, s))"
  by pat_completeness auto
termination
  by (relation "measure (\<lambda>(pagetable, dstva, src, s). length src)")
    (auto simp: page_offset_less(1))

declare copyout.simps [simp del]

function copyin :: "nat \<Rightarrow> u64 \<Rightarrow> nat \<Rightarrow> kmem \<Rightarrow> int \<times> byte list" where
  "copyin pagetable srcva len s =
     (if len > 0 then
        let va0 = PGROUNDDOWN srcva; pa0 = walkaddr pagetable va0 s
        in if pa0 = 0 then (-1, [])
           else let n = PGSIZE - unat (srcva - va0);
                    n = (if n > len then len else n);
                    (r, bs) = copyin pagetable (va0 + word_of_nat PGSIZE) (len - n) s
                in (r, load_bytes (ram s) (unat (pa0 + (srcva - va0))) n @ bs)
      else (0, []))"
  by pat_completeness auto
termination
  by (relation "measure (\<lambda>(pagetable, srcva, len, s). len)")
    (auto simp: page_offset_less(1))

declare copyin.simps [simp del]

primrec copystr_page :: "mem \<Rightarrow> nat \<Rightarrow> nat \<Rightarrow> byte list \<times> bool" where
  "copystr_page m p 0 = ([], False)"
| "copystr_page m p (Suc n) =
     (if m p = 0 then ([0], True)
      else case copystr_page m (p + 1) n of (bs, got_null) \<Rightarrow> (m p # bs, got_null))"

function copyinstr :: "nat \<Rightarrow> u64 \<Rightarrow> nat \<Rightarrow> kmem \<Rightarrow> int \<times> byte list" where
  "copyinstr pagetable srcva maxn s =
     (if maxn > 0 then
        let va0 = PGROUNDDOWN srcva; pa0 = walkaddr pagetable va0 s
        in if pa0 = 0 then (-1, [])
           else let n = PGSIZE - unat (srcva - va0);
                    n = (if n > maxn then maxn else n);
                    (bs, got_null) = copystr_page (ram s) (unat (pa0 + (srcva - va0))) n
                in if got_null then (0, bs)
                   else let (r, bs') = copyinstr pagetable (va0 + word_of_nat PGSIZE) (maxn - n) s
                        in (r, bs @ bs')
      else (-1, []))"
  by pat_completeness auto
termination
  by (relation "measure (\<lambda>(pagetable, srcva, maxn, s). maxn)")
    (auto simp: page_offset_less(1))

declare copyinstr.simps [simp del]

end
