(* ===== verification/Blockdev.thy ===== *)
theory Blockdev
  imports Riscv
begin

text \<open>
  What \<^verbatim>\<open>read_block\<close> and \<^verbatim>\<open>write_block\<close> of \<^verbatim>\<open>kernel/virtio_disk.c\<close> promise to the RAID layer: the disks
  are arrays of blocks of \<open>BSIZE\<close> bytes, a write replaces one block and a read returns the last
  block written. The calls fail where the driver does: disk numbers above \<open>DISKS\<close> are outside the
  array \<^verbatim>\<open>transfer_buffer\<close>, disk 0 (the file-system disk) has no transfer buffer, and a block number
  beyond the end of the disk makes the device report an error, on which \<^verbatim>\<open>virtio_disk_intr\<close> panics.
  The disk images have the size \<^verbatim>\<open>DISK_SIZE\<close> the kernel is compiled with.
  The theory \<^verbatim>\<open>Virtio_Disk\<close> models the driver itself and shows that it keeps this contract.
\<close>

type_synonym disks = "nat \<Rightarrow> nat \<Rightarrow> block"

definition BSIZE :: nat where "BSIZE = 1024"

definition VIRTIO_RAID_DISK_START :: nat where "VIRTIO_RAID_DISK_START = 1"

definition VIRTIO_RAID_DISK_END :: "machine \<Rightarrow> nat" where
  "VIRTIO_RAID_DISK_END c = DISKS c"

definition DISK_SIZE :: "machine \<Rightarrow> nat" where
  "DISK_SIZE c = DSK_SIZE c"

definition blockPerDisk :: "machine \<Rightarrow> nat" where
  "blockPerDisk c = (DISK_SIZE c * 1024 * 1024) div BSIZE"

definition disk_access :: "machine \<Rightarrow> nat \<Rightarrow> nat \<Rightarrow> fault + unit" where
  "disk_access c diskn blockno =
     (if diskn > VIRTIO_RAID_DISK_END c then Inl (Undefined ''transfer_buffer index'')
      else if diskn < VIRTIO_RAID_DISK_START then Inl (Undefined ''null transfer_buffer'')
      else if blockno \<ge> blockPerDisk c then Inl (Panic '': virtio_disk_intr status'')
      else Inr ())"

definition read_block :: "machine \<Rightarrow> nat \<Rightarrow> nat \<Rightarrow> disks \<Rightarrow> fault + block" where
  "read_block c diskn blockno ds = bindE (disk_access c diskn blockno) (\<lambda>_. Inr (ds diskn blockno))"

definition write_block :: "machine \<Rightarrow> nat \<Rightarrow> nat \<Rightarrow> block \<Rightarrow> disks \<Rightarrow> fault + disks" where
  "write_block c diskn blockno data ds =
     bindE (disk_access c diskn blockno) (\<lambda>_. Inr (ds(diskn := (ds diskn)(blockno := data))))"

definition wf_disks :: "disks \<Rightarrow> bool" where
  "wf_disks ds \<longleftrightarrow> (\<forall>d b. length (ds d b) = BSIZE)"

definition disk_ok :: "machine \<Rightarrow> nat \<Rightarrow> bool" where
  "disk_ok c d \<longleftrightarrow> VIRTIO_RAID_DISK_START \<le> d \<and> d \<le> VIRTIO_RAID_DISK_END c"

lemma disk_access_ok [simp]:
  "disk_ok c d \<Longrightarrow> b < blockPerDisk c \<Longrightarrow> disk_access c d b = Inr ()"
  by (simp add: disk_access_def disk_ok_def)

lemma read_block_ok [simp]:
  "disk_ok c d \<Longrightarrow> b < blockPerDisk c \<Longrightarrow> read_block c d b ds = Inr (ds d b)"
  by (simp add: read_block_def)

lemma write_block_ok [simp]:
  "disk_ok c d \<Longrightarrow> b < blockPerDisk c \<Longrightarrow>
    write_block c d b data ds = Inr (ds(d := (ds d)(b := data)))"
  by (simp add: write_block_def)

lemma write_block_Inr:
  "write_block c d b data ds = Inr ds' \<Longrightarrow> disk_ok c d \<and> b < blockPerDisk c \<and> ds' = ds(d := (ds d)(b := data))"
  by (auto simp: write_block_def disk_access_def disk_ok_def bindE_Inr_iff split: if_splits)

lemma wf_disks_upd [simp]:
  "wf_disks ds \<Longrightarrow> length data = BSIZE \<Longrightarrow> wf_disks (ds(d := (ds d)(b := data)))"
  by (simp add: wf_disks_def)

lemma wf_disksD [simp]: "wf_disks ds \<Longrightarrow> length (ds d b) = BSIZE"
  by (simp add: wf_disks_def)

lemma blockPerDisk_eq: "blockPerDisk c = DSK_SIZE c * 1024"
  by (simp add: blockPerDisk_def DISK_SIZE_def BSIZE_def)

end
