(* ===== verification/Raid.thy ===== *)
theory Raid
  imports Vm Blockdev
begin

text \<open>
  The software RAID of \<^verbatim>\<open>kernel/raid.c\<close> and its system calls of \<^verbatim>\<open>kernel/sysraid.c\<close>: definitions only,
  one per C function and in the order of the file.

  \<open>raid_state\<close> is what the functions read and write: the fields of the global \<^verbatim>\<open>raid_device\<close>
  (\<open>superblock\<close> is the pointer to the cached superblock page, 0 for null), the disks behind
  \<^verbatim>\<open>read_block\<close>/\<^verbatim>\<open>write_block\<close>, and the physical memory with its page allocator. Arrays on the kernel
  stack are byte lists; pages from \<^verbatim>\<open>kalloc\<close> and user buffers are addresses in that memory. The code
  never checks the result of \<^verbatim>\<open>kalloc\<close>, so running out of pages is a null-pointer access
  (\<open>Undefined\<close>), as is a buffer outside the RAM that the kernel page table maps. A sleep lock that is
  already held makes the caller sleep. The short sections under \<^verbatim>\<open>metadata_lock\<close> are atomic, and the
  progress messages printed on the console are left out.
\<close>

section \<open>Data\<close>

datatype RAID_TYPE = RAID0 | RAID1 | RAID0_1 | RAID4 | RAID5

definition raid_type_of :: "u32 \<Rightarrow> RAID_TYPE option" where
  "raid_type_of w =
     (if w = 0 then Some RAID0 else if w = 1 then Some RAID1 else if w = 2 then Some RAID0_1
      else if w = 3 then Some RAID4 else if w = 4 then Some RAID5 else None)"

definition HEALTHY :: u32 where "HEALTHY = 1"
definition UNHEALTY :: u32 where "UNHEALTY = 2"
definition RECOVERY :: u32 where "RECOVERY = 3"
definition UNITIALIZED :: u32 where "UNITIALIZED = 4"

record RAIDSuperblock =
  raid_level :: u32
  sb_disk_status :: u32
  parrity_disk :: u32
  swap_disk :: u32
  max_blknum :: u32
  blk_size :: u32
  num_of_disks :: u32

definition SB_SIZE :: nat where "SB_SIZE = 28"

definition bytes_of_sb :: "RAIDSuperblock \<Rightarrow> byte list" where
  "bytes_of_sb sb = concat (map (\<lambda>w. bytes_le 4 (unat w))
     [raid_level sb, sb_disk_status sb, parrity_disk sb, swap_disk sb, max_blknum sb, blk_size sb, num_of_disks sb])"

definition word_at :: "byte list \<Rightarrow> nat \<Rightarrow> u32" where
  "word_at bs off = word_of_nat (le_nat (take 4 (drop off bs)))"

definition sb_of_bytes :: "byte list \<Rightarrow> RAIDSuperblock" where
  "sb_of_bytes bs = \<lparr>raid_level = word_at bs 0, sb_disk_status = word_at bs 4, parrity_disk = word_at bs 8,
     swap_disk = word_at bs 12, max_blknum = word_at bs 16, blk_size = word_at bs 20, num_of_disks = word_at bs 24\<rparr>"

record raid_state =
  is_init :: int
  disk_status :: "nat \<Rightarrow> u32"
  superblock :: nat
  disk_locks :: "nat \<Rightarrow> bool"
  platters :: disks
  km :: kmem

abbreviation pram :: "raid_state \<Rightarrow> mem" where
  "pram st \<equiv> ram (km st)"

definition sb_at :: "raid_state \<Rightarrow> nat \<Rightarrow> RAIDSuperblock" where
  "sb_at st p = sb_of_bytes (load_bytes (pram st) p SB_SIZE)"

section \<open>Pages, buffers, blocks and locks\<close>

definition raid_kalloc :: "raid_state \<Rightarrow> fault + nat \<times> raid_state" where
  "raid_kalloc st =
     (case kalloc (km st) of (p, k) \<Rightarrow>
        if p = 0 then Inl (Undefined ''null page'') else Inr (p, st\<lparr>km := k\<rparr>))"

definition raid_kfree :: "machine \<Rightarrow> nat \<Rightarrow> raid_state \<Rightarrow> fault + raid_state" where
  "raid_kfree c p st = bindE (kfree c p (km st)) (\<lambda>k. Inr (st\<lparr>km := k\<rparr>))"

definition mapped :: "machine \<Rightarrow> nat \<Rightarrow> nat \<Rightarrow> bool" where
  "mapped c p n \<longleftrightarrow> KERNBASE \<le> p \<and> p + n \<le> PHYSTOP c"

definition put_mem :: "machine \<Rightarrow> nat \<Rightarrow> byte list \<Rightarrow> raid_state \<Rightarrow> fault + raid_state" where
  "put_mem c p bs st =
     (if mapped c p (length bs) then Inr (st\<lparr>km := (km st)\<lparr>ram := store_bytes (pram st) p bs\<rparr>\<rparr>)
      else Inl (Undefined ''store''))"

definition get_mem :: "machine \<Rightarrow> nat \<Rightarrow> nat \<Rightarrow> raid_state \<Rightarrow> fault + byte list" where
  "get_mem c p n st = (if mapped c p n then Inr (load_bytes (pram st) p n) else Inl (Undefined ''load''))"

definition raid_read :: "machine \<Rightarrow> nat \<Rightarrow> nat \<Rightarrow> raid_state \<Rightarrow> fault + block" where
  "raid_read c d b st = read_block c d b (platters st)"

definition raid_write :: "machine \<Rightarrow> nat \<Rightarrow> nat \<Rightarrow> block \<Rightarrow> raid_state \<Rightarrow> fault + raid_state" where
  "raid_write c d b data st = bindE (write_block c d b data (platters st)) (\<lambda>ds. Inr (st\<lparr>platters := ds\<rparr>))"

definition acquire_disk :: "machine \<Rightarrow> nat \<Rightarrow> raid_state \<Rightarrow> fault + raid_state" where
  "acquire_disk c i st =
     (if i > VIRTIO_RAID_DISK_END c then Inl (Undefined ''raid_device.disks index'')
      else if disk_locks st i then Inl (Sleeps ''raid_disk'')
      else Inr (st\<lparr>disk_locks := (disk_locks st)(i := True)\<rparr>))"

definition release_disk :: "machine \<Rightarrow> nat \<Rightarrow> raid_state \<Rightarrow> fault + raid_state" where
  "release_disk c i st =
     (if i > VIRTIO_RAID_DISK_END c then Inl (Undefined ''raid_device.disks index'')
      else Inr (st\<lparr>disk_locks := (disk_locks st)(i := False)\<rparr>))"

section \<open>Metadata\<close>

definition is_raid_uninitialized :: "raid_state \<Rightarrow> nat \<Rightarrow> bool" where
  "is_raid_uninitialized st p \<longleftrightarrow> load_bytes (pram st) p SB_SIZE = replicate SB_SIZE 0"

definition get_disk_health :: "machine \<Rightarrow> nat \<Rightarrow> raid_state \<Rightarrow> fault + u32 \<times> raid_state" where
  "get_disk_health c disk_num st =
     (if disk_num < VIRTIO_RAID_DISK_START \<or> disk_num > VIRTIO_RAID_DISK_END c then Inr (-1, st)
      else if disk_status st disk_num = UNITIALIZED then
        bindE (raid_kalloc st) (\<lambda>(data, st).
        bindE (raid_read c disk_num 0 st) (\<lambda>blk.
        bindE (put_mem c data blk st) (\<lambda>st.
        let st = st\<lparr>disk_status := (disk_status st)(disk_num := sb_disk_status (sb_at st data))\<rparr> in
        bindE (raid_kfree c data st) (\<lambda>st.
        Inr (disk_status st disk_num, st)))))
      else Inr (disk_status st disk_num, st))"

definition load_metadata :: "machine \<Rightarrow> raid_state \<Rightarrow> fault + nat option \<times> raid_state" where
  "load_metadata c st =
     (if is_init st = 1 \<and> superblock st \<noteq> 0 \<and> \<not> is_raid_uninitialized st (superblock st)
      then Inr (Some (superblock st), st)
      else
        let need_load = (is_init st = -1 \<or> superblock st = 0);
            finish = (\<lambda>st. if superblock st = 0 \<or> is_raid_uninitialized st (superblock st)
                           then Inr (None, st) else Inr (Some (superblock st), st))
        in if need_load then
             bindE (raid_kalloc st) (\<lambda>(data, st).
             bindE (raid_read c 1 0 st) (\<lambda>blk.
             bindE (put_mem c data blk st) (\<lambda>st.
             if is_raid_uninitialized st data
             then bindE (raid_kfree c data st) (\<lambda>st. Inr (None, st))
             else if superblock st = 0 \<or> is_init st = -1
             then let st = st\<lparr>superblock := data, is_init := 1\<rparr>;
                      st = st\<lparr>disk_status := (disk_status st)(0 := sb_disk_status (sb_at st (superblock st)))\<rparr>
                  in finish st
             else bindE (raid_kfree c data st) finish)))
           else finish st)"

definition init_raid_device :: "machine \<Rightarrow> raid_state \<Rightarrow> raid_state" where
  "init_raid_device c st =
     (let st = st\<lparr>disk_locks := (\<lambda>i. if VIRTIO_RAID_DISK_START \<le> i \<and> i < VIRTIO_RAID_DISK_END c
                                    then False else disk_locks st i)\<rparr>
      in if VIRTIO_RAID_DISK_END c < 2 then st
         else st\<lparr>is_init := -1, superblock := 0,
                 disk_status := (\<lambda>i. if i \<le> VIRTIO_RAID_DISK_END c then UNITIALIZED else disk_status st i)\<rparr>)"

definition formatOneDisk :: "machine \<Rightarrow> nat \<Rightarrow> block \<Rightarrow> raid_state \<Rightarrow> fault + int \<times> raid_state" where
  "formatOneDisk c disk_num nullData st =
     (if disk_num < VIRTIO_RAID_DISK_START \<or> disk_num > VIRTIO_RAID_DISK_END c then Inr (-1, st)
      else bindE (forE [0..<blockPerDisk c] (\<lambda>j. raid_write c disk_num j nullData) st) (\<lambda>st. Inr (0, st)))"

primrec formatDisks_loop :: "machine \<Rightarrow> nat list \<Rightarrow> block \<Rightarrow> raid_state \<Rightarrow> fault + int \<times> raid_state" where
  "formatDisks_loop c [] data st = Inr (0, st)"
| "formatDisks_loop c (i # is) data st =
     bindE (formatOneDisk c i data st) (\<lambda>(r, st).
       if r = -1 then Inr (-1, st) else formatDisks_loop c is data st)"

definition formatDisks :: "machine \<Rightarrow> raid_state \<Rightarrow> fault + int \<times> raid_state" where
  "formatDisks c st =
     formatDisks_loop c [VIRTIO_RAID_DISK_START..<VIRTIO_RAID_DISK_END c + 1] (replicate BSIZE 0) st"

section \<open>Reading and writing blocks\<close>

definition nd :: "raid_state \<Rightarrow> nat \<Rightarrow> nat" where
  "nd st md = unat (num_of_disks (sb_at st md))"

definition read_into :: "machine \<Rightarrow> nat \<Rightarrow> nat \<Rightarrow> nat \<Rightarrow> raid_state \<Rightarrow> fault + raid_state" where
  "read_into c d b p_buff st = bindE (raid_read c d b st) (\<lambda>blk. put_mem c p_buff blk st)"

definition write_from :: "machine \<Rightarrow> nat \<Rightarrow> nat \<Rightarrow> nat \<Rightarrow> raid_state \<Rightarrow> fault + raid_state" where
  "write_from c d b p_buff st = bindE (get_mem c p_buff BSIZE st) (\<lambda>blk. raid_write c d b blk st)"

definition handle_rw_raid01 ::
    "machine \<Rightarrow> nat \<Rightarrow> nat \<Rightarrow> nat \<Rightarrow> nat \<Rightarrow> bool \<Rightarrow> raid_state \<Rightarrow> fault + int \<times> raid_state" where
  "handle_rw_raid01 c md disk_num blkc_num p_buff isRead st =
     (if isRead then
        bindE (get_disk_health c disk_num st) (\<lambda>(disk_health, st).
        if disk_health = HEALTHY then
          bindE (read_into c disk_num blkc_num p_buff st) (\<lambda>st. Inr (0, st))
        else
          bindE (get_disk_health c (disk_num + nd st md) st) (\<lambda>(disk_health, st).
          if disk_health \<noteq> HEALTHY then Inr (-1, st)
          else bindE (read_into c (disk_num + nd st md) blkc_num p_buff st) (\<lambda>st. Inr (0, st))))
      else
        let mirror = disk_num + nd st md;
            first = (if disk_num < mirror then disk_num else mirror);
            second = (if disk_num < mirror then mirror else disk_num)
        in
        bindE (acquire_disk c first st) (\<lambda>st.
        bindE (acquire_disk c second st) (\<lambda>st.
        bindE (get_disk_health c disk_num st) (\<lambda>(disk_health, st).
        bindE (if disk_health = HEALTHY
               then bindE (write_from c disk_num blkc_num p_buff st) (\<lambda>st. Inr (True, st))
               else bindE (get_disk_health c mirror st) (\<lambda>(disk_health, st). Inr (disk_health = HEALTHY, st)))
          (\<lambda>(ok, st).
        if \<not> ok then
          bindE (release_disk c second st) (\<lambda>st.
          bindE (release_disk c first st) (\<lambda>st. Inr (-1, st)))
        else
          bindE (write_from c mirror blkc_num p_buff st) (\<lambda>st.
          bindE (release_disk c second st) (\<lambda>st.
          bindE (release_disk c first st) (\<lambda>st. Inr (0, st)))))))))"

text \<open>
  The new parity is computed byte by byte into a page from \<^verbatim>\<open>kalloc\<close>; \<open>newData\<close> is an address.
\<close>

definition write_parrity_block ::
    "machine \<Rightarrow> nat \<Rightarrow> nat \<Rightarrow> byte list \<Rightarrow> nat \<Rightarrow> raid_state \<Rightarrow> fault + raid_state" where
  "write_parrity_block c parity_disk parity_block oldData newData st =
     bindE (raid_read c parity_disk parity_block st) (\<lambda>parityData.
     bindE (raid_kalloc st) (\<lambda>(newParrityData, st).
     let m = fold (\<lambda>i m. m(newParrityData + i := (m (newData + i) XOR oldData ! i) XOR parityData ! i))
               [0..<BSIZE] (pram st);
         st = st\<lparr>km := (km st)\<lparr>ram := m\<rparr>\<rparr>
     in
     bindE (write_from c parity_disk parity_block newParrityData st) (\<lambda>st.
     raid_kfree c newParrityData st)))"

text \<open>
  The cases \<open>RAID4\<close> and \<open>RAID5\<close> of \<^verbatim>\<open>rw_block\<close> differ only in where a block and its parity live; after that
  they run the same statements, which are \<open>rw_parity\<close>. The parity disk is read from the metadata (or
  from the local variable) after the health check, as in the code.
\<close>

definition rw_parity ::
    "machine \<Rightarrow> nat \<Rightarrow> (raid_state \<Rightarrow> nat) \<Rightarrow> nat \<Rightarrow> nat \<Rightarrow> bool \<Rightarrow> raid_state \<Rightarrow> fault + int \<times> raid_state" where
  "rw_parity c disk_num parity blkc_num p_buff isRead st =
     bindE (get_disk_health c disk_num st) (\<lambda>(disk_health, st).
     if disk_health \<noteq> HEALTHY then Inr (-1, st)
     else if isRead then bindE (read_into c disk_num blkc_num p_buff st) (\<lambda>st. Inr (0, st))
     else
       let parity_disk = parity st;
           first = (if parity_disk < disk_num then parity_disk else disk_num);
           second = (if parity_disk < disk_num then disk_num else parity_disk)
       in
       bindE (acquire_disk c first st) (\<lambda>st.
       bindE (acquire_disk c second st) (\<lambda>st.
       bindE (raid_read c disk_num blkc_num st) (\<lambda>oldData.
       bindE (get_mem c p_buff BSIZE st) (\<lambda>newData.
       if oldData = newData then
         bindE (release_disk c second st) (\<lambda>st.
         bindE (release_disk c first st) (\<lambda>st. Inr (0, st)))
       else
         bindE (write_parrity_block c parity_disk blkc_num oldData p_buff st) (\<lambda>st.
         bindE (write_from c disk_num blkc_num p_buff st) (\<lambda>st.
         bindE (release_disk c second st) (\<lambda>st.
         bindE (release_disk c first st) (\<lambda>st. Inr (0, st))))))))))"

definition raid5_place :: "nat \<Rightarrow> nat \<Rightarrow> nat \<times> nat \<times> nat" where
  "raid5_place n block_num =
     (let stripe_index = block_num div n + 1;
          stripe_offset = block_num mod n + 1;
          parrity_index = (n + 1) - ((stripe_index - 1) mod (n + 1));
          disk_num = parrity_index + stripe_offset;
          disk_num = (if disk_num > n + 1 then disk_num mod (n + 1) else disk_num)
      in (disk_num, stripe_index, parrity_index))"

definition rw_block ::
    "machine \<Rightarrow> nat \<Rightarrow> nat \<Rightarrow> nat \<Rightarrow> bool \<Rightarrow> raid_state \<Rightarrow> fault + int \<times> raid_state" where
  "rw_block c md block_num p_buff isRead st =
     (let n = nd st md in
      case raid_type_of (raid_level (sb_at st md)) of
        None \<Rightarrow> Inr (0, st)
      | Some RAID0 \<Rightarrow>
          if n = 0 then Inl (Undefined ''division by zero'')
          else let disk_num = block_num mod n + 1; blkc_num = block_num div n + 1 in
            bindE (get_disk_health c disk_num st) (\<lambda>(disk_health, st).
            if disk_health \<noteq> HEALTHY then Inr (-1, st)
            else if isRead then bindE (read_into c disk_num blkc_num p_buff st) (\<lambda>st. Inr (0, st))
            else bindE (write_from c disk_num blkc_num p_buff st) (\<lambda>st. Inr (0, st)))
      | Some RAID1 \<Rightarrow>
          if blockPerDisk c - 1 = 0 then Inl (Undefined ''division by zero'')
          else let disk_num = block_num div (blockPerDisk c - 1) + 1;
                   blkc_num = block_num mod (blockPerDisk c - 1) + 1 in
            bindE (handle_rw_raid01 c md disk_num blkc_num p_buff isRead st) (\<lambda>(r, st).
            if r = -1 then Inr (-1, st) else Inr (0, st))
      | Some RAID0_1 \<Rightarrow>
          if n = 0 then Inl (Undefined ''division by zero'')
          else let disk_num = block_num mod n + 1; blkc_num = (block_num + n) div n in
            bindE (handle_rw_raid01 c md disk_num blkc_num p_buff isRead st) (\<lambda>(r, st).
            if r = -1 then Inr (-1, st) else Inr (0, st))
      | Some RAID4 \<Rightarrow>
          if n = 0 then Inl (Undefined ''division by zero'')
          else rw_parity c (block_num mod n + 1) (\<lambda>st. unat (scast (parrity_disk (sb_at st md)) :: u64))
                 (block_num div n + 1) p_buff isRead st
      | Some RAID5 \<Rightarrow>
          if n = 0 then Inl (Undefined ''division by zero'')
          else case raid5_place n block_num of (disk_num, blkc_num, parrity_index) \<Rightarrow>
            rw_parity c disk_num (\<lambda>_. parrity_index) blkc_num p_buff isRead st)"

section \<open>Recovery\<close>

definition mirrorRecovery :: "machine \<Rightarrow> nat \<Rightarrow> nat \<Rightarrow> raid_state \<Rightarrow> fault + raid_state" where
  "mirrorRecovery c disk1 disk2 st =
     forE [0..<blockPerDisk c] (\<lambda>i st.
       bindE (raid_read c disk1 i st) (\<lambda>data. raid_write c disk2 i data st)) st"

definition recovery_xor :: "machine \<Rightarrow> nat \<Rightarrow> nat \<Rightarrow> byte list \<times> raid_state \<Rightarrow> fault + byte list \<times> raid_state" where
  "recovery_xor c currDisk i rs =
     (case rs of (recoveryBlock, st) \<Rightarrow>
        bindE (raid_kalloc st) (\<lambda>(nextBlock, st).
        bindE (read_into c currDisk i nextBlock st) (\<lambda>st.
        bindE (get_mem c nextBlock BSIZE st) (\<lambda>next.
        bindE (raid_kfree c nextBlock st) (\<lambda>st.
        Inr (xorb recoveryBlock next, st))))))"

definition raid4_and_5_recovery :: "machine \<Rightarrow> nat \<Rightarrow> raid_state \<Rightarrow> fault + raid_state" where
  "raid4_and_5_recovery c recoverDisk st =
     forE [1..<blockPerDisk c] (\<lambda>i st.
       let dataDisk = (recoverDisk + 1) mod (VIRTIO_RAID_DISK_END c + 1) in
       bindE (raid_read c dataDisk i st) (\<lambda>recoveryBlock.
       bindE (forE [1..<VIRTIO_RAID_DISK_END c - 1]
                (\<lambda>j. recovery_xor c ((dataDisk + j) mod (VIRTIO_RAID_DISK_END c + 1)) i)
                (recoveryBlock, st)) (\<lambda>(recoveryBlock, st).
       raid_write c recoverDisk i recoveryBlock st))) st"

definition handle_recovery ::
    "machine \<Rightarrow> RAIDSuperblock \<Rightarrow> nat \<Rightarrow> nat \<Rightarrow> raid_state \<Rightarrow> fault + int \<times> raid_state" where
  "handle_recovery c sb failed_count disk_num st =
     (let mirrored =
        (let n = unat (num_of_disks sb);
             recoverDisk = (if disk_num \<ge> n then disk_num - n else disk_num + n)
         in bindE (get_disk_health c recoverDisk st) (\<lambda>(h, st).
            if h \<noteq> HEALTHY then Inr (-1, st)
            else bindE (mirrorRecovery c recoverDisk disk_num st) (\<lambda>st. Inr (0, st))))
      in case raid_type_of (raid_level sb) of
        None \<Rightarrow> Inr (0, st)
      | Some RAID0 \<Rightarrow> Inr (-1, st)
      | Some RAID1 \<Rightarrow> mirrored
      | Some RAID0_1 \<Rightarrow> mirrored
      | Some RAID4 \<Rightarrow>
          if failed_count > 1 \<or> unat (scast (parrity_disk sb) :: u64) = disk_num then Inr (-1, st)
          else bindE (raid4_and_5_recovery c disk_num st) (\<lambda>st. Inr (0, st))
      | Some RAID5 \<Rightarrow>
          if failed_count > 1 then Inr (-1, st)
          else bindE (raid4_and_5_recovery c disk_num st) (\<lambda>st. Inr (0, st)))"

section \<open>Entry points\<close>

definition raid_init_superblock :: "machine \<Rightarrow> u32 \<Rightarrow> int + RAIDSuperblock" where
  "raid_init_superblock c raid_type =
     (let D = VIRTIO_RAID_DISK_END c; bpd = blockPerDisk c;
          metadata = \<lparr>raid_level = raid_type, sb_disk_status = HEALTHY, parrity_disk = -1, swap_disk = -1,
            max_blknum = 0, blk_size = word_of_nat BSIZE, num_of_disks = word_of_nat D\<rparr>;
          mirrored =
            (if D = 1 then Inl (-2)
             else let metadata = metadata\<lparr>num_of_disks := word_of_nat (D div 2),
                        max_blknum := word_of_nat (bpd * (D div 2)) - word_of_nat (D div 2)\<rparr>
                  in Inr (if D mod 2 = 1 then metadata\<lparr>swap_disk := word_of_nat D\<rparr> else metadata));
          parity = (\<lambda>metadata. let metadata = metadata\<lparr>num_of_disks := word_of_nat (D - 1)\<rparr>
            in if D = 2 then Inl (-2)
               else Inr (metadata\<lparr>max_blknum := word_of_nat (bpd * (D - 1)) - word_of_nat D\<rparr>))
      in case raid_type_of raid_type of
           None \<Rightarrow> Inl (-1)
         | Some RAID0 \<Rightarrow> Inr (metadata\<lparr>max_blknum := word_of_nat (bpd * D) - word_of_nat D\<rparr>)
         | Some RAID1 \<Rightarrow> mirrored
         | Some RAID0_1 \<Rightarrow> mirrored
         | Some RAID4 \<Rightarrow> parity (metadata\<lparr>parrity_disk := word_of_nat D\<rparr>)
         | Some RAID5 \<Rightarrow> parity metadata)"

definition raid_system_init :: "machine \<Rightarrow> u32 \<Rightarrow> raid_state \<Rightarrow> fault + int \<times> raid_state" where
  "raid_system_init c raid_type st =
     bindE (raid_kalloc st) (\<lambda>(metadata, st).
     case raid_init_superblock c raid_type of
       Inl err \<Rightarrow> bindE (raid_kfree c metadata st) (\<lambda>st. Inr (err, st))
     | Inr sb \<Rightarrow>
         bindE (put_mem c metadata (bytes_of_sb sb) st) (\<lambda>st.
         bindE (forE [VIRTIO_RAID_DISK_START..<VIRTIO_RAID_DISK_END c + 1]
                  (\<lambda>i. write_from c i 0 metadata) st) (\<lambda>st.
         Inr (0, st\<lparr>superblock := metadata, is_init := 1\<rparr>))))"

definition OFFSET_MASK :: u64 where "OFFSET_MASK = 0x0000000000000FFF"

definition user_addr :: "nat \<Rightarrow> u64 \<Rightarrow> raid_state \<Rightarrow> nat" where
  "user_addr pagetable va st = unat (walkaddr pagetable va (km st) OR (va AND OFFSET_MASK))"

definition raid_rw :: "machine \<Rightarrow> nat \<Rightarrow> bool \<Rightarrow> u64 \<Rightarrow> u64 \<Rightarrow> raid_state \<Rightarrow> fault + int \<times> raid_state" where
  "raid_rw c pagetable isRead block_num buffAddr st =
     bindE (load_metadata c st) (\<lambda>(md, st).
     case md of
       None \<Rightarrow> Inr (-2, st)
     | Some currMetadata \<Rightarrow>
         if block_num > ucast (max_blknum (sb_at st currMetadata)) then Inr (-1, st)
         else rw_block c currMetadata (unat block_num) (user_addr pagetable buffAddr st) isRead st)"

definition raid_read_block :: "machine \<Rightarrow> nat \<Rightarrow> u64 \<Rightarrow> u64 \<Rightarrow> raid_state \<Rightarrow> fault + int \<times> raid_state" where
  "raid_read_block c pagetable block_num buffAddr st = raid_rw c pagetable True block_num buffAddr st"

definition raid_write_block :: "machine \<Rightarrow> nat \<Rightarrow> u64 \<Rightarrow> u64 \<Rightarrow> raid_state \<Rightarrow> fault + int \<times> raid_state" where
  "raid_write_block c pagetable block_num buffAddr st = raid_rw c pagetable False block_num buffAddr st"

definition raid_fail_disk :: "machine \<Rightarrow> u64 \<Rightarrow> raid_state \<Rightarrow> fault + int \<times> raid_state" where
  "raid_fail_disk c disk_num st =
     (let d = unat disk_num in
      if d < VIRTIO_RAID_DISK_START \<or> d > VIRTIO_RAID_DISK_END c then Inr (-1, st)
      else bindE (raid_read c d 0 st) (\<lambda>data.
           let currMetadata = (sb_of_bytes data)\<lparr>sb_disk_status := UNHEALTY\<rparr>
           in Inr (0, st\<lparr>disk_status := (disk_status st)(d := sb_disk_status currMetadata)\<rparr>)))"

primrec count_failed :: "machine \<Rightarrow> nat list \<Rightarrow> nat \<Rightarrow> raid_state \<Rightarrow> fault + nat \<times> raid_state" where
  "count_failed c [] fail_count st = Inr (fail_count, st)"
| "count_failed c (i # is) fail_count st =
     bindE (get_disk_health c i st) (\<lambda>(h, st).
       count_failed c is (if h = UNHEALTY then fail_count + 1 else fail_count) st)"

definition raid_repair_disk :: "machine \<Rightarrow> u64 \<Rightarrow> raid_state \<Rightarrow> fault + int \<times> raid_state" where
  "raid_repair_disk c disk_num st =
     (let d = unat disk_num in
      if d < VIRTIO_RAID_DISK_START \<or> d > VIRTIO_RAID_DISK_END c then Inr (-2, st)
      else bindE (get_disk_health c d st) (\<lambda>(h, st).
        if h = HEALTHY then Inr (0, st)
        else
          bindE (count_failed c [1..<VIRTIO_RAID_DISK_END c + 1] 0 st) (\<lambda>(fail_count, st).
          bindE (raid_read c d 0 st) (\<lambda>data.
          let currMetadata = (sb_of_bytes data)\<lparr>sb_disk_status := RECOVERY\<rparr>;
              st = st\<lparr>disk_status := (disk_status st)(d := sb_disk_status currMetadata)\<rparr>
          in bindE (handle_recovery c currMetadata fail_count d st) (\<lambda>(err, st).
             if err = -1 then Inr (-1, st)
             else let currMetadata = currMetadata\<lparr>sb_disk_status := HEALTHY\<rparr>
                  in Inr (0, st\<lparr>disk_status := (disk_status st)(d := sb_disk_status currMetadata)\<rparr>))))))"

primrec raid_system_info_loop ::
    "machine \<Rightarrow> nat \<Rightarrow> u64 \<Rightarrow> u64 \<Rightarrow> u64 \<Rightarrow> nat list \<Rightarrow> raid_state \<Rightarrow> fault + int \<times> raid_state" where
  "raid_system_info_loop c pagetable blkn blks diskn [] st = Inr (-1, st)"
| "raid_system_info_loop c pagetable blkn blks diskn (i # is) st =
     bindE (load_metadata c st) (\<lambda>(md, st).
     case md of
       None \<Rightarrow> Inr (-1, st)
     | Some currMetadata \<Rightarrow>
         bindE (get_disk_health c i st) (\<lambda>(disk_status, st).
         if disk_status \<noteq> HEALTHY then raid_system_info_loop c pagetable blkn blks diskn is st
         else
           let p_blkn = user_addr pagetable blkn st;
               p_blksz = user_addr pagetable blks st;
               p_diskn = user_addr pagetable diskn st in
           bindE (put_mem c p_blkn (bytes_le 4 (unat (max_blknum (sb_at st currMetadata)))) st) (\<lambda>st.
           bindE (put_mem c p_blksz (bytes_le 4 (unat (blk_size (sb_at st currMetadata)))) st) (\<lambda>st.
           bindE (put_mem c p_diskn (bytes_le 4 (unat (num_of_disks (sb_at st currMetadata)))) st) (\<lambda>st.
           Inr (0, st))))))"

definition raid_system_info :: "machine \<Rightarrow> nat \<Rightarrow> u64 \<Rightarrow> u64 \<Rightarrow> u64 \<Rightarrow> raid_state \<Rightarrow> fault + int \<times> raid_state" where
  "raid_system_info c pagetable blkn blks diskn st =
     raid_system_info_loop c pagetable blkn blks diskn
       [VIRTIO_RAID_DISK_START..<VIRTIO_RAID_DISK_END c + 1] st"

definition raid_system_destroy :: "machine \<Rightarrow> raid_state \<Rightarrow> fault + int \<times> raid_state" where
  "raid_system_destroy c st =
     bindE (forE [VIRTIO_RAID_DISK_START..<VIRTIO_RAID_DISK_END c + 1]
              (\<lambda>i. raid_write c i 0 (replicate BSIZE 0)) st) (\<lambda>st.
     bindE (if is_init st \<noteq> -1 then raid_kfree c (superblock st) st else Inr st) (\<lambda>st.
     Inr (0, st\<lparr>is_init := -1, superblock := 0\<rparr>)))"

section \<open>System calls\<close>

text \<open>
  The arguments are the saved registers \<^verbatim>\<open>a0\<close> to \<^verbatim>\<open>a2\<close> of the caller. \<open>argint\<close> keeps the low 32 bits as a
  signed \<^verbatim>\<open>int\<close>; passing it to a \<^verbatim>\<open>uint64\<close> parameter sign-extends it.
\<close>

definition argint :: "u64 \<Rightarrow> u32" where
  "argint a = ucast a"

definition sys_result :: "fault + int \<times> raid_state \<Rightarrow> fault + u64 \<times> raid_state" where
  "sys_result r = bindE r (\<lambda>(v, st). Inr (word_of_int v, st))"

definition sys_init_raid :: "machine \<Rightarrow> u64 \<Rightarrow> raid_state \<Rightarrow> fault + u64 \<times> raid_state" where
  "sys_init_raid c a0 st = sys_result (raid_system_init c (argint a0) st)"

definition sys_read_raid :: "machine \<Rightarrow> nat \<Rightarrow> u64 \<Rightarrow> u64 \<Rightarrow> raid_state \<Rightarrow> fault + u64 \<times> raid_state" where
  "sys_read_raid c pagetable a0 a1 st = sys_result (raid_read_block c pagetable (scast (argint a0)) a1 st)"

definition sys_write_raid :: "machine \<Rightarrow> nat \<Rightarrow> u64 \<Rightarrow> u64 \<Rightarrow> raid_state \<Rightarrow> fault + u64 \<times> raid_state" where
  "sys_write_raid c pagetable a0 a1 st = sys_result (raid_write_block c pagetable (scast (argint a0)) a1 st)"

definition sys_disk_fail_raid :: "machine \<Rightarrow> u64 \<Rightarrow> raid_state \<Rightarrow> fault + u64 \<times> raid_state" where
  "sys_disk_fail_raid c a0 st = sys_result (raid_fail_disk c (scast (argint a0)) st)"

definition sys_disk_repaired_raid :: "machine \<Rightarrow> u64 \<Rightarrow> raid_state \<Rightarrow> fault + u64 \<times> raid_state" where
  "sys_disk_repaired_raid c a0 st = sys_result (raid_repair_disk c (scast (argint a0)) st)"

definition sys_info_raid :: "machine \<Rightarrow> nat \<Rightarrow> u64 \<Rightarrow> u64 \<Rightarrow> u64 \<Rightarrow> raid_state \<Rightarrow> fault + u64 \<times> raid_state" where
  "sys_info_raid c pagetable a0 a1 a2 st = sys_result (raid_system_info c pagetable a0 a1 a2 st)"

definition sys_destroy_raid :: "machine \<Rightarrow> raid_state \<Rightarrow> fault + u64 \<times> raid_state" where
  "sys_destroy_raid c st = sys_result (raid_system_destroy c st)"

end
