(* ===== verification/Raid_Layout.thy ===== *)
theory Raid_Layout
  imports Raid
begin

text \<open>
  Where the RAID levels put the blocks of the logical array. \<open>raid_place\<close> collects the address
  computations of the cases of \<^verbatim>\<open>rw_block\<close>, \<open>raid_capacity\<close> is the number of logical blocks that fit when
  block 0 of every disk is kept for the superblock, and the lemmas show that below that capacity
  the placement stays inside the disks, never puts two logical blocks in one place, and for RAID 4
  and 5 never puts a block on the parity disk of its stripe.
\<close>

definition data_disks :: "machine \<Rightarrow> RAID_TYPE \<Rightarrow> nat" where
  "data_disks c ty =
     (case ty of RAID0 \<Rightarrow> VIRTIO_RAID_DISK_END c
      | RAID1 \<Rightarrow> VIRTIO_RAID_DISK_END c div 2
      | RAID0_1 \<Rightarrow> VIRTIO_RAID_DISK_END c div 2
      | RAID4 \<Rightarrow> VIRTIO_RAID_DISK_END c - 1
      | RAID5 \<Rightarrow> VIRTIO_RAID_DISK_END c - 1)"

definition raid_capacity :: "machine \<Rightarrow> RAID_TYPE \<Rightarrow> nat" where
  "raid_capacity c ty = (blockPerDisk c - 1) * data_disks c ty"

definition raid_place :: "machine \<Rightarrow> RAID_TYPE \<Rightarrow> nat \<Rightarrow> nat \<times> nat" where
  "raid_place c ty b =
     (let n = data_disks c ty in
      case ty of
        RAID0 \<Rightarrow> (b mod n + 1, b div n + 1)
      | RAID1 \<Rightarrow> (b div (blockPerDisk c - 1) + 1, b mod (blockPerDisk c - 1) + 1)
      | RAID0_1 \<Rightarrow> (b mod n + 1, (b + n) div n)
      | RAID4 \<Rightarrow> (b mod n + 1, b div n + 1)
      | RAID5 \<Rightarrow> (fst (raid5_place n b), fst (snd (raid5_place n b))))"

definition raid_parity_disk :: "machine \<Rightarrow> RAID_TYPE \<Rightarrow> nat \<Rightarrow> nat" where
  "raid_parity_disk c ty b =
     (case ty of RAID4 \<Rightarrow> VIRTIO_RAID_DISK_END c
      | RAID5 \<Rightarrow> snd (snd (raid5_place (data_disks c RAID5) b))
      | _ \<Rightarrow> 0)"

section \<open>The rotating layout of RAID 5\<close>

lemma raid5_place_cases:
  assumes "0 < n"
  obtains p where "p = n + 1 - b div n mod (n + 1)" "1 \<le> p" "p \<le> n + 1"
    "raid5_place n b =
      (if p + (b mod n + 1) > n + 1 then p + (b mod n + 1) - (n + 1) else p + (b mod n + 1), b div n + 1, p)"
proof -
  define p where "p = n + 1 - b div n mod (n + 1)"
  have "b div n mod (n + 1) < n + 1" by (rule mod_less_divisor) simp
  then have p: "1 \<le> p" "p \<le> n + 1" unfolding p_def by linarith+
  have off: "b mod n < n" using assms by simp
  have wrap: "(p + (b mod n + 1)) mod (n + 1) = p + (b mod n + 1) - (n + 1)"
    if "p + (b mod n + 1) > n + 1"
  proof -
    have "(p + (b mod n + 1)) mod (n + 1) = (p + (b mod n + 1) - (n + 1)) mod (n + 1)"
      using that by (intro le_mod_geq) simp
    also have "\<dots> = p + (b mod n + 1) - (n + 1)"
      using p off by (intro mod_less) simp
    finally show ?thesis .
  qed
  have "raid5_place n b =
      (if p + (b mod n + 1) > n + 1 then p + (b mod n + 1) - (n + 1) else p + (b mod n + 1), b div n + 1, p)"
    unfolding raid5_place_def Let_def add_diff_cancel_right' p_def [symmetric] using wrap by simp
  with p that show thesis by (simp add: p_def)
qed

lemma raid5_place_range:
  assumes "0 < n" "raid5_place n b = (d, r, p)"
  shows "1 \<le> d" "d \<le> n + 1" "1 \<le> p" "p \<le> n + 1" "d \<noteq> p" "r = b div n + 1"
proof -
  obtain q where q: "1 \<le> q" "q \<le> n + 1" "raid5_place n b =
      (if q + (b mod n + 1) > n + 1 then q + (b mod n + 1) - (n + 1) else q + (b mod n + 1), b div n + 1, q)"
    using assms(1) by (rule raid5_place_cases)
  have off: "b mod n < n" using assms(1) by simp
  from q assms(2) off show "1 \<le> d" "d \<le> n + 1" "1 \<le> p" "p \<le> n + 1" "d \<noteq> p" "r = b div n + 1"
    by (auto split: if_splits)
qed

lemma raid5_place_inj:
  assumes "0 < n" "fst (raid5_place n a) = fst (raid5_place n b)"
    "fst (snd (raid5_place n a)) = fst (snd (raid5_place n b))"
  shows "a = b"
proof -
  obtain p where p: "p = n + 1 - a div n mod (n + 1)" "1 \<le> p" "p \<le> n + 1" "raid5_place n a =
      (if p + (a mod n + 1) > n + 1 then p + (a mod n + 1) - (n + 1) else p + (a mod n + 1), a div n + 1, p)"
    using assms(1) by (rule raid5_place_cases)
  obtain q where q: "q = n + 1 - b div n mod (n + 1)" "1 \<le> q" "q \<le> n + 1" "raid5_place n b =
      (if q + (b mod n + 1) > n + 1 then q + (b mod n + 1) - (n + 1) else q + (b mod n + 1), b div n + 1, q)"
    using assms(1) by (rule raid5_place_cases)
  from assms(3) p(4) q(4) have row: "a div n = b div n" by simp
  with p(1) q(1) have "p = q" by simp
  have off: "x = y" if "x < n" "y < n"
      "(if q + (x + 1) > n + 1 then q + (x + 1) - (n + 1) else q + (x + 1)) =
       (if q + (y + 1) > n + 1 then q + (y + 1) - (n + 1) else q + (y + 1))" for x y
    using that q(2,3) by (auto split: if_splits)
  have "a mod n = b mod n"
  proof (rule off)
    show "a mod n < n" "b mod n < n" using assms(1) by simp_all
  qed (use assms(2) in \<open>unfold p(4) q(4) \<open>p = q\<close> fst_conv\<close>)
  with row show ?thesis by (metis div_mult_mod_eq)
qed

text \<open>In every stripe, every disk but the parity disk holds a data block.\<close>

lemma raid5_place_covers:
  assumes "0 < n" "1 \<le> d" "d \<le> n + 1" "d \<noteq> n + 1 - s mod (n + 1)"
  shows "\<exists>b. b div n = s \<and> fst (raid5_place n b) = d"
proof -
  define p where "p = n + 1 - s mod (n + 1)"
  have "s mod (n + 1) < n + 1" by (rule mod_less_divisor) simp
  then have p: "1 \<le> p" "p \<le> n + 1" unfolding p_def by linarith+
  define k where "k = (if p < d then d - p - 1 else d + n - p)"
  have "d \<noteq> p" using assms(4) by (simp add: p_def)
  then have k: "k < n" using assms(1-3) p by (auto simp: k_def)
  define b where "b = s * n + k"
  have b: "b div n = s" "b mod n = k" using k assms(1) by (simp_all add: b_def)
  obtain q where q: "q = n + 1 - b div n mod (n + 1)" "raid5_place n b =
      (if q + (b mod n + 1) > n + 1 then q + (b mod n + 1) - (n + 1) else q + (b mod n + 1), b div n + 1, q)"
    using assms(1) by (rule raid5_place_cases)
  have "q = p" using q(1) b by (simp add: p_def)
  then have "fst (raid5_place n b) = d"
    using q(2) b assms(1-3) p \<open>d \<noteq> p\<close> by (auto simp: k_def)
  with b show ?thesis by blast
qed

section \<open>All levels\<close>

lemma row_bound:
  fixes b :: nat
  assumes "0 < n" "b < m * n"
  shows "b div n < m" "b mod n < n"
  using assms by (simp_all add: less_mult_imp_div_less)

lemma shifted_row: "0 < n \<Longrightarrow> (b + n) div n = b div n + (1 :: nat)"
  by (simp add: div_add_self2)

lemma raid_place_range:
  assumes "b < raid_capacity c ty"
  shows "1 \<le> fst (raid_place c ty b)"
    and "fst (raid_place c ty b) \<le> (if ty = RAID5 then data_disks c ty + 1 else data_disks c ty)"
    and "1 \<le> snd (raid_place c ty b)" and "snd (raid_place c ty b) < blockPerDisk c"
proof -
  define n where "n = data_disks c ty"
  define m where "m = blockPerDisk c - 1"
  have b: "b < m * n" using assms by (simp add: raid_capacity_def n_def m_def)
  then have n: "0 < n" and m: "0 < m" by (auto intro: ccontr)
  have row: "b div n < m" "b mod n < n" using row_bound [OF n b] by auto
  have col: "b div m < n" "b mod m < m" using row_bound [OF m, of b n] b by (simp_all add: mult.commute)
  have m': "x < m \<Longrightarrow> x + 1 < blockPerDisk c" for x by (simp add: m_def)
  obtain d r p where place: "raid5_place n b = (d, r, p)" by (cases "raid5_place n b")
  note r5 = raid5_place_range [OF n place]
  have eq: "raid_place c ty b =
      (case ty of RAID0 \<Rightarrow> (b mod n + 1, b div n + 1) | RAID1 \<Rightarrow> (b div m + 1, b mod m + 1)
       | RAID0_1 \<Rightarrow> (b mod n + 1, b div n + 1) | RAID4 \<Rightarrow> (b mod n + 1, b div n + 1)
       | RAID5 \<Rightarrow> (d, r))"
    unfolding raid_place_def n_def [symmetric] m_def [symmetric] Let_def
    using place n by (simp add: shifted_row split: RAID_TYPE.splits)
  have "1 \<le> fst (raid_place c ty b) \<and>
      fst (raid_place c ty b) \<le> (if ty = RAID5 then n + 1 else n) \<and>
      1 \<le> snd (raid_place c ty b) \<and> snd (raid_place c ty b) < blockPerDisk c"
    unfolding eq using n m row col m' r5 by (simp add: Suc_le_eq split: RAID_TYPE.splits)
  then show "1 \<le> fst (raid_place c ty b)"
    and "fst (raid_place c ty b) \<le> (if ty = RAID5 then data_disks c ty + 1 else data_disks c ty)"
    and "1 \<le> snd (raid_place c ty b)" and "snd (raid_place c ty b) < blockPerDisk c"
    unfolding n_def by blast+
qed

lemma raid_place_inj:
  assumes "a < raid_capacity c ty" "raid_place c ty a = raid_place c ty b"
  shows "a = b"
proof -
  define n where "n = data_disks c ty"
  have n: "0 < n"
    using assms(1) by (auto simp: raid_capacity_def n_def intro: ccontr)
  have *: "x = y" if "x div k = y div k" "x mod k = y mod k" for x y k :: nat
    using that by (metis div_mult_mod_eq)
  show ?thesis
  proof (cases "ty = RAID5")
    case True
    then have "fst (raid5_place n a) = fst (raid5_place n b)"
      "fst (snd (raid5_place n a)) = fst (snd (raid5_place n b))"
      using assms(2) unfolding raid_place_def n_def [symmetric] Let_def by simp_all
    then show ?thesis by (rule raid5_place_inj [OF n])
  next
    case False
    then have "\<exists>k. a div k = b div k \<and> a mod k = b mod k"
      using assms(2) n unfolding raid_place_def n_def [symmetric] Let_def
      by (cases ty) (auto simp: shifted_row)
    then show ?thesis using * by blast
  qed
qed

lemma raid_place_disk_ok:
  assumes "b < raid_capacity c ty"
  shows "disk_ok c (fst (raid_place c ty b))"
proof -
  have "0 < data_disks c ty"
    using assms by (auto simp: raid_capacity_def intro: ccontr)
  then have "(if ty = RAID5 then data_disks c ty + 1 else data_disks c ty) \<le> VIRTIO_RAID_DISK_END c"
    by (cases ty) (auto simp: data_disks_def)
  with raid_place_range(1,2) [OF assms] show ?thesis
    by (simp add: disk_ok_def VIRTIO_RAID_DISK_START_def)
qed

end
