(* ===== verification/Raid_State.thy ===== *)
theory Raid_State
  imports Raid_Layout
begin

text \<open>
  Invariants of the RAID state and the behaviour of its helpers. \<open>quiet\<close> relates two states between
  which nothing observable happened: only free pages and cached health values may differ. \<open>raid_inv\<close>
  is the state in which the array is in service with a given level. Every helper of \<^verbatim>\<open>raid.c\<close>
  returns without a fault in such a state and changes only what it should.
\<close>

section \<open>Superblocks on disk and in memory\<close>

lemma length_bytes_of_sb [simp]: "length (bytes_of_sb sb) = SB_SIZE"
  by (simp add: bytes_of_sb_def SB_SIZE_def)

lemma word_at_append: "off + 4 \<le> length xs \<Longrightarrow> word_at (xs @ ys) off = word_at xs off"
  by (simp add: word_at_def)

lemma word_at_take: "off + 4 \<le> n \<Longrightarrow> n \<le> length bs \<Longrightarrow> word_at (take n bs) off = word_at bs off"
  by (metis append_take_drop_id length_take min.absorb2 word_at_append)

lemma sb_of_bytes_take: "SB_SIZE \<le> length bs \<Longrightarrow> sb_of_bytes (take SB_SIZE bs) = sb_of_bytes bs"
  by (simp add: sb_of_bytes_def word_at_take SB_SIZE_def)

lemma sb_of_bytes_bytes_of_sb: "sb_of_bytes (bytes_of_sb sb @ rest) = sb"
  by (simp add: sb_of_bytes_def bytes_of_sb_def word_at_def)

section \<open>Quiet steps\<close>

definition health :: "raid_state \<Rightarrow> nat \<Rightarrow> u32" where
  "health st d =
     (if disk_status st d = UNITIALIZED then sb_disk_status (sb_of_bytes (platters st d 0)) else disk_status st d)"

definition outside_pages :: "nat list \<Rightarrow> mem \<Rightarrow> mem \<Rightarrow> bool" where
  "outside_pages as m m' \<longleftrightarrow> (\<forall>x. (\<forall>a\<in>set as. \<not> in_page a x) \<longrightarrow> m' x = m x)"

definition quiet :: "machine \<Rightarrow> nat list \<Rightarrow> raid_state \<Rightarrow> raid_state \<Rightarrow> bool" where
  "quiet c as st st' \<longleftrightarrow>
     is_init st' = is_init st \<and> superblock st' = superblock st \<and> disk_locks st' = disk_locks st \<and>
     platters st' = platters st \<and> (\<forall>d. health st' d = health st d) \<and>
     kalloc_inv c (km st') as \<and> outside_pages as (pram st) (pram st')"

lemma outside_pages_refl [simp]: "outside_pages as m m"
  by (simp add: outside_pages_def)

lemma outside_pages_trans: "outside_pages as m1 m2 \<Longrightarrow> outside_pages as m2 m3 \<Longrightarrow> outside_pages as m1 m3"
  by (simp add: outside_pages_def)

lemma quiet_refl: "kalloc_inv c (km st) as \<Longrightarrow> quiet c as st st"
  by (simp add: quiet_def)

lemma quiet_trans: "quiet c as s t \<Longrightarrow> quiet c as t u \<Longrightarrow> quiet c as s u"
  by (auto simp: quiet_def intro: outside_pages_trans)

lemma quietD:
  assumes "quiet c as st st'"
  shows "is_init st' = is_init st" "superblock st' = superblock st" "disk_locks st' = disk_locks st"
    "platters st' = platters st" "health st' d = health st d" "kalloc_inv c (km st') as"
  using assms by (auto simp: quiet_def)

lemma load_bytes_outside:
  assumes "outside_pages as m m'" "\<And>i. i < n \<Longrightarrow> \<forall>a\<in>set as. \<not> in_page a (p + i)"
  shows "load_bytes m' p n = load_bytes m p n"
  using assms by (intro load_bytes_cong) (auto simp: outside_pages_def)

lemma page_mapped:
  assumes "machine_ok c" "page_ok c a" "n \<le> PGSIZE"
  shows "mapped c a n"
proof -
  obtain k where k: "a = 4096 * k" using assms(2) by (auto simp: page_ok_def PGSIZE_def)
  moreover have "PHYSTOP c = 4096 * (524288 + MEM c * 256)" by (simp add: PHYSTOP_def KERNBASE_def)
  ultimately have "4096 * k < 4096 * (524288 + MEM c * 256)" using assms(2) by (simp add: page_ok_def)
  then have "k < 524288 + MEM c * 256" by (simp only: mult_less_cancel1)
  then have "k + 1 \<le> 524288 + MEM c * 256" by simp
  then have "4096 * (k + 1) \<le> 4096 * (524288 + MEM c * 256)" by (rule mult_le_mono2)
  then have "a + 4096 \<le> PHYSTOP c" using k by (simp add: PHYSTOP_def KERNBASE_def)
  with assms show ?thesis by (simp add: mapped_def page_ok_def machine_ok_def PGSIZE_def)
qed

lemma other_page_outside:
  assumes "kalloc_inv c k as" "page_ok c p" "p \<notin> set as" "in_page p x"
  shows "\<forall>a\<in>set as. \<not> in_page a x"
proof
  fix a assume a: "a \<in> set as"
  with assms have "a + PGSIZE \<le> p \<or> p + PGSIZE \<le> a"
    by (intro pages_disjoint) (auto simp: kalloc_inv_def)
  with assms(4) show "\<not> in_page a x" by (auto simp: in_page_def)
qed

section \<open>Health\<close>

lemma get_disk_health_bad: "\<not> disk_ok c d \<Longrightarrow> get_disk_health c d st = Inr (-1, st)"
  by (auto simp: get_disk_health_def disk_ok_def)

lemma get_disk_health_ok:
  assumes m: "machine_ok c" and inv: "kalloc_inv c (km st) as" and pages: "as \<noteq> []"
    and wf: "wf_disks (platters st)" and d: "disk_ok c d" and b: "0 < blockPerDisk c"
  shows "\<exists>st'. get_disk_health c d st = Inr (health st d, st') \<and> quiet c as st st'"
proof (cases "disk_status st d = UNITIALIZED")
  case False
  with d inv show ?thesis
    by (auto simp: get_disk_health_def disk_ok_def health_def intro: quiet_refl)
next
  case True
  from pages obtain a bs where as: "as = a # bs" by (cases as) auto
  with kalloc_pops [OF m] inv obtain k1 where k1: "kalloc (km st) = (a, k1)" by blast
  have a: "page_ok c a" "a \<noteq> 0" using inv as page_word(2) [OF m] by (auto simp: kalloc_inv_def)
  let ?blk = "platters st d 0"
  let ?m = "store_bytes (ram k1) a ?blk"
  have len: "length ?blk = BSIZE" using wf by simp
  have "\<not> in_page a x \<Longrightarrow> ?m x = ram k1 x" for x
    using len by (intro store_bytes_outside) (auto simp: in_page_def BSIZE_def PGSIZE_def)
  then obtain k2 where k2: "kfree c a (k1\<lparr>ram := ?m\<rparr>) = Inr k2" "kalloc_inv c k2 as"
      "\<forall>x. \<not> in_page a x \<longrightarrow> ram k2 x = ram (km st) x"
    using temporary_page [OF m _ k1, of bs ?m] inv as by auto
  let ?st = "st\<lparr>km := k2, disk_status := (disk_status st)(d := health st d)\<rparr>"
  have sb: "sb_of_bytes (load_bytes ?m a SB_SIZE) = sb_of_bytes ?blk"
  proof -
    have "load_bytes ?m a SB_SIZE = take SB_SIZE (load_bytes ?m a BSIZE)"
      by (rule nth_equalityI) (simp_all add: SB_SIZE_def BSIZE_def)
    moreover have "SB_SIZE \<le> length ?blk" using len by (simp add: SB_SIZE_def BSIZE_def)
    ultimately show ?thesis using len by (simp add: sb_of_bytes_take)
  qed
  have "get_disk_health c d st = Inr (health st d, ?st)"
    using True d b a k1 k2(1) sb page_mapped [OF m a(1), of BSIZE] len
    by (simp add: get_disk_health_def disk_ok_def raid_kalloc_def raid_read_def put_mem_def sb_at_def
        raid_kfree_def health_def Let_def BSIZE_def PGSIZE_def del: fun_upd_apply) simp
  moreover have "health ?st e = health st e" for e
    using True by (simp add: health_def)
  then have "quiet c as st ?st"
    using k2 as by (auto simp: quiet_def outside_pages_def)
  ultimately show ?thesis by blast
qed

section \<open>The array in service\<close>

definition mirrored :: "RAID_TYPE \<Rightarrow> bool" where
  "mirrored ty \<longleftrightarrow> ty = RAID1 \<or> ty = RAID0_1"

definition parity_level :: "RAID_TYPE \<Rightarrow> bool" where
  "parity_level ty \<longleftrightarrow> ty = RAID4 \<or> ty = RAID5"

definition config_ok :: "machine \<Rightarrow> RAID_TYPE \<Rightarrow> bool" where
  "config_ok c ty \<longleftrightarrow> machine_ok c \<and> 1 < blockPerDisk c \<and> blockPerDisk c * DISKS c < 2 ^ 31 \<and>
     (if parity_level ty then 3 else if mirrored ty then 2 else 1) \<le> DISKS c"

definition raid_inv :: "machine \<Rightarrow> RAID_TYPE \<Rightarrow> nat list \<Rightarrow> raid_state \<Rightarrow> bool" where
  "raid_inv c ty as st \<longleftrightarrow>
     config_ok c ty \<and> kalloc_inv c (km st) as \<and> as \<noteq> [] \<and> wf_disks (platters st) \<and>
     (\<forall>i. \<not> disk_locks st i) \<and> is_init st = 1 \<and>
     page_ok c (superblock st) \<and> superblock st \<notin> set as \<and>
     (\<exists>lvl. raid_type_of lvl = Some ty \<and> raid_init_superblock c lvl = Inr (sb_at st (superblock st)))"

text \<open>A block-sized buffer in RAM that overlaps no free page.\<close>

definition buf_ok :: "machine \<Rightarrow> nat list \<Rightarrow> nat \<Rightarrow> bool" where
  "buf_ok c as p \<longleftrightarrow> mapped c p BSIZE \<and> (\<forall>i<BSIZE. \<forall>a\<in>set as. \<not> in_page a (p + i))"

lemma raid_invD:
  assumes "raid_inv c ty as st"
  shows "config_ok c ty" "machine_ok c" "1 < blockPerDisk c" "kalloc_inv c (km st) as" "as \<noteq> []"
    "wf_disks (platters st)" "\<not> disk_locks st i" "is_init st = 1" "page_ok c (superblock st)"
    "superblock st \<notin> set as" "superblock st \<noteq> 0"
  using assms page_word(2) by (auto simp: raid_inv_def config_ok_def)

lemma unat_word32 [simp]: "n < 2 ^ 32 \<Longrightarrow> unat (word_of_nat n :: u32) = n"
  by (simp add: unat_of_nat take_bit_eq_mod)

lemma config_bounds:
  assumes "config_ok c ty"
  shows "DISKS c < 2 ^ 31" "0 < data_disks c ty" "data_disks c ty \<le> DISKS c"
    "blockPerDisk c * data_disks c ty < 2 ^ 31" "data_disks c ty < 2 ^ 31"
    "mirrored ty \<Longrightarrow> 2 * data_disks c ty \<le> DISKS c"
    "parity_level ty \<Longrightarrow> data_disks c ty + 1 = DISKS c"
proof -
  from assms have "1 * DISKS c \<le> blockPerDisk c * DISKS c"
    by (intro mult_le_mono1) (simp add: config_ok_def)
  moreover from assms have "blockPerDisk c * DISKS c < 2 ^ 31" by (simp add: config_ok_def)
  ultimately show D: "DISKS c < 2 ^ 31" by linarith
  show "0 < data_disks c ty" and le: "data_disks c ty \<le> DISKS c"
    using assms
    by (cases ty; simp add: config_ok_def data_disks_def mirrored_def parity_level_def VIRTIO_RAID_DISK_END_def)+
  then have "blockPerDisk c * data_disks c ty \<le> blockPerDisk c * DISKS c" by (intro mult_le_mono2)
  moreover from assms have "blockPerDisk c * DISKS c < 2 ^ 31" by (simp add: config_ok_def)
  ultimately show "blockPerDisk c * data_disks c ty < 2 ^ 31" by linarith
  from D le show "data_disks c ty < 2 ^ 31" by simp
  show "2 * data_disks c ty \<le> DISKS c" if "mirrored ty"
    using that by (auto simp: mirrored_def data_disks_def VIRTIO_RAID_DISK_END_def)
  show "data_disks c ty + 1 = DISKS c" if "parity_level ty"
    using that assms by (auto simp: parity_level_def config_ok_def data_disks_def VIRTIO_RAID_DISK_END_def)
qed

lemma init_superblock_fields:
  assumes "config_ok c ty" "raid_type_of lvl = Some ty" "raid_init_superblock c lvl = Inr sb"
  shows "raid_level sb = lvl" "unat (num_of_disks sb) = data_disks c ty"
    "unat (max_blknum sb) = (if parity_level ty then raid_capacity c ty - 1 else raid_capacity c ty)"
    "ty = RAID4 \<Longrightarrow> unat (scast (parrity_disk sb) :: u64) = DISKS c"
    "sb_disk_status sb = HEALTHY"
proof -
  show lvl: "raid_level sb = lvl" and nd: "unat (num_of_disks sb) = data_disks c ty"
    and "sb_disk_status sb = HEALTHY"
    using assms config_bounds(1) [OF assms(1)]
    by (cases ty; auto simp: raid_init_superblock_def Let_def data_disks_def VIRTIO_RAID_DISK_END_def
        split: if_splits)+
  let ?n = "data_disks c ty"
  have n: "blockPerDisk c * ?n < 2 ^ 31" "?n < 2 ^ 31" "0 < ?n" "DISKS c < 2 ^ 31"
    using config_bounds [OF assms(1)] by auto
  have cap: "raid_capacity c ty = blockPerDisk c * ?n - ?n"
    by (simp add: raid_capacity_def diff_mult_distrib)
  have le: "?n \<le> blockPerDisk c * ?n"
    using assms(1) by (simp add: config_ok_def)
  have sub: "unat (word_of_nat x - word_of_nat y :: u32) = x - y" if "y \<le> x" "x < 2 ^ 31" for x y
    using that by (simp flip: of_nat_diff)
  show "unat (max_blknum sb) = (if parity_level ty then raid_capacity c ty - 1 else raid_capacity c ty)"
  proof (cases "parity_level ty")
    case False
    then have "max_blknum sb = word_of_nat (blockPerDisk c * ?n) - word_of_nat ?n"
      using assms
      by (cases ty; auto simp: raid_init_superblock_def Let_def data_disks_def VIRTIO_RAID_DISK_END_def
          parity_level_def split: if_splits)
    then show ?thesis using False sub [OF le n(1)] cap by simp
  next
    case True
    then have D: "DISKS c = ?n + 1" using config_bounds(7) [OF assms(1)] by simp
    have "max_blknum sb = word_of_nat (blockPerDisk c * ?n) - word_of_nat (DISKS c)"
      using assms True
      by (cases ty; auto simp: raid_init_superblock_def Let_def data_disks_def VIRTIO_RAID_DISK_END_def
          parity_level_def split: if_splits)
    moreover have le': "DISKS c \<le> blockPerDisk c * ?n"
    proof -
      have "2 * ?n \<le> blockPerDisk c * ?n"
        using assms(1) by (intro mult_le_mono1) (simp add: config_ok_def)
      with n(3) D show ?thesis by linarith
    qed
    ultimately have "unat (max_blknum sb) = blockPerDisk c * ?n - DISKS c"
      using sub [OF le' n(1)] by metis
    then show ?thesis using True cap D by simp
  qed
  show "unat (scast (parrity_disk sb) :: u64) = DISKS c" if "ty = RAID4"
  proof -
    have "parrity_disk sb = word_of_nat (DISKS c)"
      using assms that
      by (auto simp: raid_init_superblock_def Let_def VIRTIO_RAID_DISK_END_def split: if_splits)
    moreover have "unat (scast (word_of_nat (DISKS c) :: u32) :: u64) = DISKS c"
    proof -
      have "scast (word_of_nat (DISKS c) :: u32) = (word_of_nat (DISKS c) :: u64)"
        using n(4) by (simp add: signed_of_nat signed_take_bit_int_eq_self)
      then show ?thesis using n(4) by (simp add: unat_of_nat take_bit_nat_eq_self)
    qed
    ultimately show ?thesis by simp
  qed
qed

end
