(* ===== verification/Raid_Correct.thy ===== *)
theory Raid_Correct
  imports Raid_State
begin

text \<open>
  The RAID array as an array of blocks. \<open>raid_available\<close> says which logical blocks can be served,
  \<open>raid_contents\<close> what they hold, and \<open>raid_store\<close> what a write leaves on the disks. The lemmas on
  \<open>rw_block\<close> give the outcome of every call on every branch in these terms; \<open>effect\<close> states what a
  call may change besides the disks.
\<close>

section \<open>The abstract array\<close>

definition upd :: "disks \<Rightarrow> nat \<Rightarrow> nat \<Rightarrow> block \<Rightarrow> disks" where
  "upd ds d r data = ds(d := (ds d)(r := data))"

definition raid_available :: "machine \<Rightarrow> RAID_TYPE \<Rightarrow> raid_state \<Rightarrow> nat \<Rightarrow> bool" where
  "raid_available c ty st b \<longleftrightarrow>
     (let d = fst (raid_place c ty b) in
      health st d = HEALTHY \<or> mirrored ty \<and> health st (d + data_disks c ty) = HEALTHY)"

definition raid_contents :: "machine \<Rightarrow> RAID_TYPE \<Rightarrow> raid_state \<Rightarrow> nat \<Rightarrow> block" where
  "raid_contents c ty st b =
     (case raid_place c ty b of (d, r) \<Rightarrow>
        if mirrored ty \<and> health st d \<noteq> HEALTHY then platters st (d + data_disks c ty) r else platters st d r)"

definition raid_store :: "machine \<Rightarrow> RAID_TYPE \<Rightarrow> raid_state \<Rightarrow> nat \<Rightarrow> block \<Rightarrow> disks" where
  "raid_store c ty st b data =
     (case raid_place c ty b of (d, r) \<Rightarrow>
        let ds = platters st; p = raid_parity_disk c ty b in
        if parity_level ty then upd (upd ds p r (xorb (xorb data (ds d r)) (ds p r))) d r data
        else if mirrored ty
        then upd (if health st d = HEALTHY then upd ds d r data else ds) (d + data_disks c ty) r data
        else upd ds d r data)"

definition effect :: "machine \<Rightarrow> nat list \<Rightarrow> raid_state \<Rightarrow> disks \<Rightarrow> mem \<Rightarrow> raid_state \<Rightarrow> bool" where
  "effect c as st ds m st' \<longleftrightarrow>
     is_init st' = is_init st \<and> superblock st' = superblock st \<and> disk_locks st' = disk_locks st \<and>
     platters st' = ds \<and> (\<forall>d. health st' d = health st d) \<and>
     kalloc_inv c (km st') as \<and> outside_pages as m (pram st')"

definition same_row0 :: "disks \<Rightarrow> disks \<Rightarrow> bool" where
  "same_row0 ds ds' \<longleftrightarrow> (\<forall>d. ds' d 0 = ds d 0)"

lemma quiet_effect: "quiet c as st st' \<longleftrightarrow> effect c as st (platters st) (pram st) st'"
  by (auto simp: quiet_def effect_def)

lemma same_row0_upd [simp]: "0 < r \<Longrightarrow> same_row0 ds ds' \<Longrightarrow> same_row0 ds (upd ds' d r data)"
  by (simp add: same_row0_def upd_def)

lemma same_row0_refl [simp]: "same_row0 ds ds"
  by (simp add: same_row0_def)

lemma wf_upd [simp]: "wf_disks ds \<Longrightarrow> length data = BSIZE \<Longrightarrow> wf_disks (upd ds d r data)"
  by (simp add: upd_def)

lemma upd_apply: "upd ds d r data e s = (if e = d \<and> s = r then data else ds e s)"
  by (simp add: upd_def)

lemma health_cong:
  "disk_status st' d = disk_status st d \<Longrightarrow> platters st' d 0 = platters st d 0 \<Longrightarrow> health st' d = health st d"
  by (simp add: health_def)

lemma health_frame [simp]:
  "health (st\<lparr>disk_locks := L\<rparr>) d = health st d" "health (st\<lparr>km := k\<rparr>) d = health st d"
  "0 < r \<Longrightarrow> health (st\<lparr>platters := upd (platters st) e r data\<rparr>) d = health st d"
  by (simp_all add: health_def upd_def)

lemma quiet_then_effect:
  "quiet c as st st1 \<Longrightarrow> effect c as st1 ds m st2 \<Longrightarrow> outside_pages as m' m \<Longrightarrow> effect c as st ds m' st2"
  by (auto simp: quiet_def effect_def intro: outside_pages_trans)

lemma quiet_load_bytes:
  "quiet c as st st1 \<Longrightarrow> (\<And>i. i < n \<Longrightarrow> \<forall>a\<in>set as. \<not> in_page a (p + i)) \<Longrightarrow>
    load_bytes (pram st1) p n = load_bytes (pram st) p n"
  by (rule load_bytes_outside) (auto simp: quiet_def)

lemma sb_at_outside:
  assumes "kalloc_inv c k as" "page_ok c p" "p \<notin> set as" "outside_pages as (pram st) (pram st')"
  shows "sb_at st' p = sb_at st p"
proof -
  have "\<forall>a\<in>set as. \<not> in_page a (p + i)" if "i < SB_SIZE" for i
    using that assms(1-3) by (intro other_page_outside [of c k as p]) (auto simp: in_page_def SB_SIZE_def PGSIZE_def)
  then show ?thesis unfolding sb_at_def using load_bytes_outside [OF assms(4)] by metis
qed

lemma kalloc_inv_outside:
  assumes "kalloc_inv c k as" "\<And>a x. a \<in> set as \<Longrightarrow> in_page a x \<Longrightarrow> m x = ram k x"
  shows "kalloc_inv c (k\<lparr>ram := m\<rparr>) as"
proof -
  have "load64 m a = load64 (ram k) a" if "a \<in> set as" for a
  proof -
    have "load_bytes m a 8 = load_bytes (ram k) a 8"
      using that by (intro load_bytes_cong assms(2)) (auto simp: in_page_def PGSIZE_def)
    then show ?thesis by (simp add: load64_def)
  qed
  then have "freechain m p as = freechain (ram k) p as" for p by (rule freechain_cong)
  with assms(1) show ?thesis by (simp add: kalloc_inv_def)
qed

lemma buf_store_keeps_pages:
  assumes "kalloc_inv c (km st) as" "buf_ok c as p" "length bs = BSIZE"
  shows "kalloc_inv c ((km st)\<lparr>ram := store_bytes (pram st) p bs\<rparr>) as"
proof (rule kalloc_inv_outside [OF assms(1)])
  fix a x assume "a \<in> set as" "in_page a x"
  then have "\<not> (p \<le> x \<and> x < p + BSIZE)"
    using assms(2) by (auto simp: buf_ok_def dest!: spec [of _ "x - p"])
  then show "store_bytes (pram st) p bs x = pram st x"
    using assms(3) by (intro store_bytes_outside) auto
qed

section \<open>Single transfers\<close>

lemma read_into_ok:
  assumes "kalloc_inv c (km st) as" "wf_disks (platters st)" "disk_ok c d" "r < blockPerDisk c" "buf_ok c as p"
  shows "\<exists>st'. read_into c d r p st = Inr st' \<and>
    effect c as st (platters st) (store_bytes (pram st) p (platters st d r)) st'"
proof -
  let ?st = "st\<lparr>km := (km st)\<lparr>ram := store_bytes (pram st) p (platters st d r)\<rparr>\<rparr>"
  have "read_into c d r p st = Inr ?st"
    using assms by (simp add: read_into_def raid_read_def put_mem_def buf_ok_def)
  moreover have "effect c as st (platters st) (store_bytes (pram st) p (platters st d r)) ?st"
    using buf_store_keeps_pages [OF assms(1,5)] assms(2) by (simp add: effect_def health_def)
  ultimately show ?thesis by blast
qed

lemma write_from_eq:
  assumes "disk_ok c d" "r < blockPerDisk c" "mapped c p BSIZE"
  shows "write_from c d r p st = Inr (st\<lparr>platters := upd (platters st) d r (load_bytes (pram st) p BSIZE)\<rparr>)"
  using assms by (simp add: write_from_def get_mem_def raid_write_def upd_def)

lemma raid_contents_quiet:
  assumes "quiet c as st st'"
  shows "raid_contents c ty st' b = raid_contents c ty st b"
    "raid_available c ty st' b = raid_available c ty st b"
  using quietD [OF assms] by (auto simp: raid_contents_def raid_available_def split: prod.split)

lemma BSIZE_le_PGSIZE: "BSIZE \<le> PGSIZE"
  by (simp add: BSIZE_def PGSIZE_def)

lemma fold_upd_range:
  assumes "\<And>i j. i < n \<Longrightarrow> j < n \<Longrightarrow> q + i \<noteq> p + j"
  shows "fold (\<lambda>i m. m(q + i := f (m (p + i)) i)) [0..<n] m x =
    (if q \<le> x \<and> x < q + n then f (m (p + (x - q))) (x - q) else m x)"
  using assms
proof (induction n arbitrary: x)
  case (Suc n)
  define F where "F = fold (\<lambda>i m. m(q + i := f (m (p + i)) i)) [0..<n] m"
  have F: "F x = (if q \<le> x \<and> x < q + n then f (m (p + (x - q))) (x - q) else m x)" for x
    unfolding F_def by (rule Suc.IH) (use Suc.prems in auto)
  have "\<not> (q \<le> p + n \<and> p + n < q + n)"
  proof
    assume h: "q \<le> p + n \<and> p + n < q + n"
    then have "q + (p + n - q) = p + n" "p + n - q < Suc n" by auto
    with Suc.prems show False by blast
  qed
  then have Fn: "F (p + n) = m (p + n)" by (simp only: F if_False)
  have G: "fold (\<lambda>i m. m(q + i := f (m (p + i)) i)) [0..<Suc n] m = F(q + n := f (F (p + n)) n)"
    by (simp add: F_def)
  show ?case unfolding G Fn using F [of x] by auto
qed auto

lemma write_parrity_block_ok:
  assumes m: "machine_ok c" and inv: "kalloc_inv c (km st) as" and pages: "as \<noteq> []"
    and wf: "wf_disks (platters st)" and pd: "disk_ok c pd" and r: "r < blockPerDisk c" "0 < r"
    and buf: "buf_ok c as p" and old: "length old = BSIZE"
    and par: "par = xorb (xorb (load_bytes (pram st) p BSIZE) old) (platters st pd r)"
  shows "\<exists>st'. write_parrity_block c pd r old p st = Inr st' \<and>
    effect c as st (upd (platters st) pd r par) (pram st) st'"
proof -
  from pages obtain a bs where as: "as = a # bs" by (cases as) auto
  with kalloc_pops [OF m] inv obtain k1 where k1: "kalloc (km st) = (a, k1)" by blast
  have a: "page_ok c a" "a \<noteq> 0" using inv as page_word(2) [OF m] by (auto simp: kalloc_inv_def)
  define q where "q = platters st pd r"
  define m1 where "m1 = fold (\<lambda>i m. m(a + i := (m (p + i) XOR old ! i) XOR q ! i)) [0..<BSIZE] (ram k1)"
  have apart: "a + i \<noteq> p + j" if "i < BSIZE" "j < BSIZE" for i j
    using that buf as by (auto simp: buf_ok_def in_page_def BSIZE_def PGSIZE_def)
  have m1: "m1 x = (if a \<le> x \<and> x < a + BSIZE then (ram k1 (p + (x - a)) XOR old ! (x - a)) XOR q ! (x - a)
      else ram k1 x)" for x
    unfolding m1_def by (rule fold_upd_range) (rule apart)
  have "m1 x = ram k1 x" if "\<not> in_page a x" for x
    using that by (auto simp: m1 in_page_def BSIZE_def PGSIZE_def)
  then obtain k2 where k2: "kfree c a (k1\<lparr>ram := m1\<rparr>) = Inr k2" "kalloc_inv c k2 as"
      "\<forall>x. \<not> in_page a x \<longrightarrow> ram k2 x = ram (km st) x"
    using temporary_page [OF m _ k1, of bs m1] inv as by auto
  have same: "ram k1 (p + i) = pram st (p + i)" if "i < BSIZE" for i
    using that buf as by (intro kalloc_outside [OF k1]) (auto simp: buf_ok_def)
  have "load_bytes m1 a BSIZE = par"
    unfolding par q_def [symmetric]
    by (rule nth_equalityI) (use wf old same in \<open>auto simp: m1 q_def\<close>)
  then have "write_parrity_block c pd r old p st = Inr (st\<lparr>platters := upd (platters st) pd r par, km := k2\<rparr>)"
    using pd r a k1 k2(1) page_mapped [OF m a(1) BSIZE_le_PGSIZE]
    by (simp add: write_parrity_block_def raid_read_def raid_kalloc_def raid_kfree_def write_from_eq Let_def
        flip: q_def m1_def)
  moreover have "effect c as st (upd (platters st) pd r par) (pram st)
      (st\<lparr>platters := upd (platters st) pd r par, km := k2\<rparr>)"
    using k2 as r(2) by (auto simp: effect_def outside_pages_def health_def upd_def)
  ultimately show ?thesis by blast
qed

section \<open>The handlers of the levels\<close>

definition ready :: "machine \<Rightarrow> nat list \<Rightarrow> raid_state \<Rightarrow> bool" where
  "ready c as st \<longleftrightarrow> machine_ok c \<and> kalloc_inv c (km st) as \<and> as \<noteq> [] \<and> wf_disks (platters st) \<and> 1 < blockPerDisk c"

lemma ready_quiet: "ready c as st \<Longrightarrow> quiet c as st st' \<Longrightarrow> ready c as st'"
  by (auto simp: ready_def quiet_def)

lemma ready_locks [simp]: "ready c as (st\<lparr>disk_locks := L\<rparr>) = ready c as st"
  by (simp add: ready_def)

lemma ready_health:
  assumes "ready c as st" "disk_ok c d"
  obtains st' where "get_disk_health c d st = Inr (health st d, st')" "quiet c as st st'"
  using get_disk_health_ok [of c st as d] assms by (auto simp: ready_def)

lemma effect_locks:
  "effect c as (st\<lparr>disk_locks := L\<rparr>) ds m st' \<Longrightarrow> effect c as st ds m (st'\<lparr>disk_locks := disk_locks st\<rparr>)"
  by (simp add: effect_def)

lemma outside_pages_store:
  "outside_pages as m m' \<Longrightarrow> outside_pages as (store_bytes m p bs) (store_bytes m' p bs)"
  by (simp add: outside_pages_def store_bytes_def)

lemma quiet_outside: "quiet c as st st' \<Longrightarrow> outside_pages as (pram st) (pram st')"
  by (simp add: quiet_def)

lemma quiet_buffer:
  "quiet c as st st' \<Longrightarrow> buf_ok c as p \<Longrightarrow> load_bytes (pram st') p BSIZE = load_bytes (pram st) p BSIZE"
  by (rule quiet_load_bytes) (auto simp: buf_ok_def)

lemma read_after_quiet:
  assumes "ready c as st" "quiet c as st st1" "disk_ok c d" "r < blockPerDisk c" "buf_ok c as p"
  shows "\<exists>st'. read_into c d r p st1 = Inr st' \<and>
    effect c as st (platters st) (store_bytes (pram st) p (platters st d r)) st'"
proof -
  from assms(1,2) have r: "ready c as st1" by (rule ready_quiet)
  then obtain st' where st': "read_into c d r p st1 = Inr st'"
      "effect c as st1 (platters st1) (store_bytes (pram st1) p (platters st1 d r)) st'"
    using read_into_ok [of c st1 as d r p] assms(3-5) by (auto simp: ready_def)
  have "effect c as st (platters st) (store_bytes (pram st) p (platters st d r)) st'"
    by (rule quiet_then_effect [OF assms(2)])
      (use st'(2) quietD(4) [OF assms(2)] outside_pages_store [OF quiet_outside [OF assms(2)]] in auto)
  with st'(1) show ?thesis by blast
qed

lemma two_locks:
  assumes "disk_ok c i" "disk_ok c j" "i \<noteq> j" "\<And>i. \<not> disk_locks st i"
  shows "bindE (acquire_disk c i st) (\<lambda>st. bindE (acquire_disk c j st) f) =
    f (st\<lparr>disk_locks := (disk_locks st)(i := True, j := True)\<rparr>)"
  using assms by (simp add: acquire_disk_def disk_ok_def)

lemma two_unlocks:
  assumes "disk_ok c i" "disk_ok c j" "disk_locks st = L(i := True, j := True)" "\<And>i. \<not> L i"
  shows "bindE (release_disk c j st) (\<lambda>st. bindE (release_disk c i st) (\<lambda>st. Inr (x, st))) =
    Inr (x, st\<lparr>disk_locks := L\<rparr>)"
  using assms by (auto simp: release_disk_def disk_ok_def fun_eq_iff)

lemma effect_quiet_trans:
  "effect c as st ds m st1 \<Longrightarrow> quiet c as st1 st2 \<Longrightarrow> effect c as st ds m st2"
  by (auto simp: quiet_def effect_def intro: outside_pages_trans)

definition served ::
    "machine \<Rightarrow> nat list \<Rightarrow> raid_state \<Rightarrow> bool \<Rightarrow> disks \<Rightarrow> mem \<Rightarrow> fault + int \<times> raid_state \<Rightarrow> bool" where
  "served c as st ok ds m res \<longleftrightarrow>
     (\<exists>st'. res = Inr (if ok then 0 else -1, st') \<and> (if ok then effect c as st ds m st' else quiet c as st st'))"

lemma parity_update_ok:
  assumes rd: "ready c as st" and d: "disk_ok c d" "disk_ok c pd" "d \<noteq> pd"
    and r: "0 < r" "r < blockPerDisk c" and buf: "buf_ok c as p"
    and data: "data = load_bytes (pram st) p BSIZE" "old = platters st d r"
  shows "\<exists>st'. bindE (write_parrity_block c pd r old p st) (write_from c d r p) = Inr st' \<and>
    effect c as st (upd (upd (platters st) pd r (xorb (xorb data old) (platters st pd r))) d r data) (pram st) st'"
proof -
  obtain st1 where st1: "write_parrity_block c pd r old p st = Inr st1"
      "effect c as st (upd (platters st) pd r (xorb (xorb data old) (platters st pd r))) (pram st) st1"
    using write_parrity_block_ok [OF _ _ _ _ d(2) r(2,1) buf _ refl, of st old] rd data
    by (auto simp: ready_def)
  have "load_bytes (pram st1) p BSIZE = data"
    using st1(2) buf unfolding data(1)
    by (intro load_bytes_outside [of as]) (auto simp: effect_def buf_ok_def)
  then have "write_from c d r p st1 = Inr (st1\<lparr>platters := upd (platters st1) d r data\<rparr>)"
    using buf d r by (simp add: write_from_eq buf_ok_def)
  moreover have "effect c as st (upd (upd (platters st) pd r (xorb (xorb data old) (platters st pd r))) d r data)
      (pram st) (st1\<lparr>platters := upd (platters st1) d r data\<rparr>)"
    using st1(2) health_frame(3) [OF r(1), of st1 d data] by (simp add: effect_def)
  ultimately show ?thesis using st1(1) by auto
qed

lemma parity_update_same: "wf_disks ds \<Longrightarrow> upd (upd ds pd r (xorb (xorb (ds d r) (ds d r)) (ds pd r))) d r (ds d r) = ds"
  by (auto simp: upd_def fun_eq_iff)

lemma rw_parity_read:
  assumes rd: "ready c as st" and d: "disk_ok c d" and r: "r < blockPerDisk c" and buf: "buf_ok c as p"
  shows "served c as st (health st d = HEALTHY) (platters st) (store_bytes (pram st) p (platters st d r))
    (rw_parity c d parity r p True st)"
proof -
  obtain st1 where st1: "get_disk_health c d st = Inr (health st d, st1)" "quiet c as st st1"
    using rd d by (rule ready_health)
  with read_after_quiet [OF rd st1(2) d r buf] show ?thesis
    by (auto simp: served_def rw_parity_def)
qed

lemma rw_parity_write:
  assumes rd: "ready c as st" and nolock: "\<And>i. \<not> disk_locks st i"
    and d: "disk_ok c d" "disk_ok c pd" "d \<noteq> pd" and r: "0 < r" "r < blockPerDisk c" and buf: "buf_ok c as p"
    and par: "\<And>st'. quiet c as st st' \<Longrightarrow> parity st' = pd"
    and data: "data = load_bytes (pram st) p BSIZE" and ds: "ds = platters st"
  shows "served c as st (health st d = HEALTHY)
    (upd (upd ds pd r (xorb (xorb data (ds d r)) (ds pd r))) d r data) (pram st)
    (rw_parity c d parity r p False st)"
proof -
  obtain st1 where st1: "get_disk_health c d st = Inr (health st d, st1)" "quiet c as st st1"
    using rd d(1) by (rule ready_health)
  define i j where "i = (if pd < d then pd else d)" and "j = (if pd < d then d else pd)"
  have ij: "disk_ok c i" "disk_ok c j" "i \<noteq> j" using d by (auto simp: i_def j_def)
  let ?L = "(disk_locks st)(i := True, j := True)"
  let ?st2 = "st1\<lparr>disk_locks := ?L\<rparr>"
  have rd2: "ready c as ?st2" using ready_quiet [OF rd st1(2)] by simp
  note q = quietD [OF st1(2)]
  have data1: "data = load_bytes (pram st1) p BSIZE"
    using quiet_buffer [OF st1(2) buf] data by simp
  define unlock where
    "unlock st = bindE (release_disk c j st) (\<lambda>st. bindE (release_disk c i st) (\<lambda>st. Inr (0 :: int, st)))" for st
  define body where "body st = bindE (raid_read c d r st) (\<lambda>old. bindE (get_mem c p BSIZE st) (\<lambda>new.
      if old = new then unlock st
      else bindE (write_parrity_block c pd r old p st) (\<lambda>st. bindE (write_from c d r p st) unlock)))" for st
  have nolock1: "\<And>i. \<not> disk_locks st1 i" using nolock q(3) by simp
  have unlocked: "unlock st' = Inr (0, st'\<lparr>disk_locks := disk_locks st\<rparr>)" if "disk_locks st' = ?L" for st'
    unfolding unlock_def by (rule two_unlocks [OF ij(1,2) that nolock])
  have "rw_parity c d parity r p False st =
      (if health st d \<noteq> HEALTHY then Inr (-1, st1)
       else bindE (acquire_disk c i st1) (\<lambda>st. bindE (acquire_disk c j st) body))"
    unfolding body_def unlock_def i_def j_def
    using st1(1) par [OF st1(2)] by (simp add: rw_parity_def Let_def)
  also have "\<dots> = (if health st d \<noteq> HEALTHY then Inr (-1, st1) else body ?st2)"
    using two_locks [OF ij nolock1, of body] q(3) by simp
  also have "\<dots> = (if health st d \<noteq> HEALTHY then Inr (-1, st1) else if ds d r = data then Inr (0, st1)
      else bindE (bindE (write_parrity_block c pd r (ds d r) p ?st2) (write_from c d r p)) unlock)"
    using d(1) r(2) buf q(3,4) ds data1 unlocked [of ?st2]
    by (simp add: body_def raid_read_def get_mem_def buf_ok_def bindE_assoc)
  finally have start: "rw_parity c d parity r p False st =
      (if health st d \<noteq> HEALTHY then Inr (-1, st1) else if ds d r = data then Inr (0, st1)
      else bindE (bindE (write_parrity_block c pd r (ds d r) p ?st2) (write_from c d r p)) unlock)" .
  show ?thesis
  proof (cases "health st d = HEALTHY \<and> ds d r \<noteq> data")
    case False
    then show ?thesis
      using start st1(2) parity_update_same [of ds pd r d] rd ds
      by (auto simp: served_def quiet_effect ready_def)
  next
    case True
    obtain st3 where st3: "bindE (write_parrity_block c pd r (ds d r) p ?st2) (write_from c d r p) = Inr st3"
        "effect c as ?st2 (upd (upd ds pd r (xorb (xorb data (ds d r)) (ds pd r))) d r data) (pram st1) st3"
      using parity_update_ok [OF rd2 d r buf, of data "ds d r"] data1 q(4) ds by auto
    have "rw_parity c d parity r p False st = Inr (0, st3\<lparr>disk_locks := disk_locks st\<rparr>)"
      using True start st3 unlocked [of st3] by (simp add: effect_def)
    moreover have "effect c as st1 (upd (upd ds pd r (xorb (xorb data (ds d r)) (ds pd r))) d r data) (pram st1)
        (st3\<lparr>disk_locks := disk_locks st\<rparr>)"
      using effect_locks [OF st3(2)] q by simp
    ultimately show ?thesis
      using True quiet_then_effect [OF st1(2) _ quiet_outside [OF st1(2)]] by (auto simp: served_def)
  qed
qed

lemma quiet_locks:
  "quiet c as (st\<lparr>disk_locks := L\<rparr>) st' \<Longrightarrow> quiet c as st (st'\<lparr>disk_locks := disk_locks st\<rparr>)"
  by (simp add: quiet_def)

lemma handle_rw_raid01_read:
  assumes rd: "ready c as st" and d: "disk_ok c d" "disk_ok c (d + n)" and r: "r < blockPerDisk c"
    and buf: "buf_ok c as p" and n: "\<And>st'. quiet c as st st' \<Longrightarrow> nd st' md = n"
  shows "served c as st (health st d = HEALTHY \<or> health st (d + n) = HEALTHY) (platters st)
    (store_bytes (pram st) p (if health st d = HEALTHY then platters st d r else platters st (d + n) r))
    (handle_rw_raid01 c md d r p True st)"
proof -
  obtain st1 where st1: "get_disk_health c d st = Inr (health st d, st1)" "quiet c as st st1"
    using rd d(1) by (rule ready_health)
  note rd1 = ready_quiet [OF rd st1(2)]
  obtain st2 where st2: "get_disk_health c (d + n) st1 = Inr (health st1 (d + n), st2)" "quiet c as st1 st2"
    using rd1 d(2) by (rule ready_health)
  have q2: "quiet c as st st2" using st1(2) st2(2) by (rule quiet_trans)
  show ?thesis
    using st1 st2 n [OF st1(2)] n [OF q2] q2 quietD(5) [OF st1(2)]
      read_after_quiet [OF rd st1(2) d(1) r buf] read_after_quiet [OF rd q2 d(2) r buf]
    by (auto simp: served_def handle_rw_raid01_def)
qed

lemma mirror_write_ok:
  assumes d: "disk_ok c d" and r: "0 < r" "r < blockPerDisk c" and buf: "buf_ok c as p" and data: "data = load_bytes (pram st) p BSIZE"
    and eff: "effect c as st ds (pram st) st2"
  shows "\<exists>st'. write_from c d r p st2 = Inr st' \<and> effect c as st (upd ds d r data) (pram st) st'"
proof -
  have "load_bytes (pram st2) p BSIZE = data"
    using eff buf unfolding data
    by (intro load_bytes_outside [of as]) (auto simp: effect_def buf_ok_def)
  then have "write_from c d r p st2 = Inr (st2\<lparr>platters := upd (platters st2) d r data\<rparr>)"
    using buf d r by (simp add: write_from_eq buf_ok_def)
  moreover have "effect c as st (upd ds d r data) (pram st) (st2\<lparr>platters := upd (platters st2) d r data\<rparr>)"
    using eff health_frame(3) [OF r(1), of st2 d data] by (simp add: effect_def)
  ultimately show ?thesis by blast
qed

lemma handle_rw_raid01_write:
  assumes rd: "ready c as st" and nolock: "\<And>i. \<not> disk_locks st i"
    and d: "disk_ok c d" "disk_ok c (d + n)" "0 < n" and r: "0 < r" "r < blockPerDisk c"
    and buf: "buf_ok c as p" and n: "\<And>st'. quiet c as st st' \<Longrightarrow> nd st' md = n"
    and data: "data = load_bytes (pram st) p BSIZE" and ds: "ds = platters st"
  shows "served c as st (health st d = HEALTHY \<or> health st (d + n) = HEALTHY)
    (upd (if health st d = HEALTHY then upd ds d r data else ds) (d + n) r data) (pram st)
    (handle_rw_raid01 c md d r p False st)"
proof -
  define unlock where
    "unlock x st = bindE (release_disk c (d + n) st) (\<lambda>st. bindE (release_disk c d st) (\<lambda>st. Inr (x :: int, st)))"
    for x st
  define body where
    "body st = bindE (get_disk_health c d st) (\<lambda>(disk_health, st).
        bindE (if disk_health = HEALTHY
               then bindE (write_from c d r p st) (\<lambda>st. Inr (True, st))
               else bindE (get_disk_health c (d + n) st) (\<lambda>(disk_health, st). Inr (disk_health = HEALTHY, st)))
          (\<lambda>(ok, st). if \<not> ok then unlock (-1) st
             else bindE (write_from c (d + n) r p st) (unlock 0)))" for st
  let ?L = "(disk_locks st)(d := True, d + n := True)"
  let ?st0 = "st\<lparr>disk_locks := ?L\<rparr>"
  have dn: "d \<noteq> d + n" using d(3) by simp
  have nd: "nd st md = n" using n [OF quiet_refl] rd by (simp add: ready_def)
  have "handle_rw_raid01 c md d r p False st = bindE (acquire_disk c d st) (\<lambda>st. bindE (acquire_disk c (d + n) st) body)"
    unfolding body_def unlock_def using nd d(3) by (simp add: handle_rw_raid01_def Let_def)
  also have "\<dots> = body ?st0" by (rule two_locks [OF d(1,2) dn nolock])
  finally have start: "handle_rw_raid01 c md d r p False st = body ?st0" .
  have unlocked: "unlock x st' = Inr (x, st'\<lparr>disk_locks := disk_locks st\<rparr>)" if "disk_locks st' = ?L" for x st'
    unfolding unlock_def by (rule two_unlocks [OF d(1,2) that nolock])
  have rd0: "ready c as ?st0" using rd by simp
  obtain st1 where st1: "get_disk_health c d ?st0 = Inr (health ?st0 d, st1)" "quiet c as ?st0 st1"
    using rd0 d(1) by (rule ready_health)
  obtain st2 where st2: "get_disk_health c (d + n) st1 = Inr (health st1 (d + n), st2)" "quiet c as st1 st2"
    using ready_quiet [OF rd0 st1(2)] d(2) by (rule ready_health)
  have q2: "quiet c as ?st0 st2" using st1(2) st2(2) by (rule quiet_trans)
  have data0: "data = load_bytes (pram ?st0) p BSIZE" using data by simp
  note wr = mirror_write_ok [OF _ r buf data0]
  show ?thesis
  proof (cases "health st d = HEALTHY")
    case True
    obtain st3 where st3: "write_from c d r p st1 = Inr st3" "effect c as ?st0 (upd ds d r data) (pram ?st0) st3"
      using wr [OF d(1)] st1(2) ds by (auto simp: quiet_effect)
    obtain st4 where st4: "write_from c (d + n) r p st3 = Inr st4"
        "effect c as ?st0 (upd (upd ds d r data) (d + n) r data) (pram ?st0) st4"
      using wr [OF d(2) st3(2)] by blast
    have "body ?st0 = Inr (0, st4\<lparr>disk_locks := disk_locks st\<rparr>)"
      using True st1 st3 st4 unlocked [of st4 0] by (simp add: body_def effect_def)
    then show ?thesis
      using True start effect_locks [OF st4(2)] by (simp add: served_def)
  next
    case False
    note dead = this
    show ?thesis
    proof (cases "health st (d + n) = HEALTHY")
      case True
      obtain st4 where st4: "write_from c (d + n) r p st2 = Inr st4"
          "effect c as ?st0 (upd ds (d + n) r data) (pram ?st0) st4"
        using wr [OF d(2)] q2 ds by (auto simp: quiet_effect)
      have "body ?st0 = Inr (0, st4\<lparr>disk_locks := disk_locks st\<rparr>)"
        using True dead st1 st2 st4 quietD(5) [OF st1(2)] unlocked [of st4 0] by (simp add: body_def effect_def)
      then show ?thesis
        using True dead start effect_locks [OF st4(2)] by (simp add: served_def)
    next
      case False
      have "body ?st0 = Inr (-1, st2\<lparr>disk_locks := disk_locks st\<rparr>)"
        using dead False st1 st2 quietD(5) [OF st1(2)] quietD(3) [OF q2] unlocked [of st2 "-1"]
        by (simp add: body_def)
      then show ?thesis
        using dead False start quiet_locks [OF q2] by (simp add: served_def)
    qed
  qed
qed

end
