(* ===== verification/Raid_Array.thy ===== *)
theory Raid_Array
  imports Raid_Correct
begin

text \<open>
  The calls of \<^verbatim>\<open>raid.c\<close> on an array in service: every read and write of a block below the capacity
  returns, a read delivers the contents, a write replaces the contents of one block, and the
  invariants of the array (mirrors in step, parity over every stripe) are kept.
\<close>

lemma raid_inv_ready: "raid_inv c ty as st \<Longrightarrow> ready c as st"
  by (auto simp: ready_def dest: raid_invD)

lemma raid_inv_sb:
  assumes inv: "raid_inv c ty as st" and q: "quiet c as st st'"
  shows "raid_type_of (raid_level (sb_at st' (superblock st))) = Some ty"
    "nd st' (superblock st) = data_disks c ty"
    "ty = RAID4 \<Longrightarrow> unat (scast (parrity_disk (sb_at st' (superblock st))) :: u64) = DISKS c"
proof -
  have same: "sb_at st' (superblock st) = sb_at st (superblock st)"
    using raid_invD(4,9,10) [OF inv] quiet_outside [OF q] by (rule sb_at_outside)
  obtain lvl where lvl: "raid_type_of lvl = Some ty" "raid_init_superblock c lvl = Inr (sb_at st (superblock st))"
    using inv by (auto simp: raid_inv_def)
  note f = init_superblock_fields [OF raid_invD(1) [OF inv] lvl]
  show "raid_type_of (raid_level (sb_at st' (superblock st))) = Some ty"
    "nd st' (superblock st) = data_disks c ty"
    "ty = RAID4 \<Longrightarrow> unat (scast (parrity_disk (sb_at st' (superblock st))) :: u64) = DISKS c"
    using f(1,2,4) lvl(1) by (auto simp: same nd_def)
qed

lemma raid_place_ok:
  assumes "config_ok c ty" "b < raid_capacity c ty" "raid_place c ty b = (d, r)"
  shows "disk_ok c d" "0 < r" "r < blockPerDisk c" "mirrored ty \<Longrightarrow> disk_ok c (d + data_disks c ty)"
    "parity_level ty \<Longrightarrow> disk_ok c (raid_parity_disk c ty b)"
    "parity_level ty \<Longrightarrow> d \<noteq> raid_parity_disk c ty b"
proof -
  note p = raid_place_range [OF assms(2), unfolded assms(3), simplified]
  show "disk_ok c d" using raid_place_disk_ok [OF assms(2)] assms(3) by simp
  show "0 < r" "r < blockPerDisk c" using p by auto
  show "disk_ok c (d + data_disks c ty)" if "mirrored ty"
    using that p config_bounds(6) [OF assms(1) that]
    by (auto simp: disk_ok_def mirrored_def VIRTIO_RAID_DISK_START_def VIRTIO_RAID_DISK_END_def split: if_splits)
  obtain d' r' q where r5: "raid5_place (data_disks c RAID5) b = (d', r', q)"
    by (cases "raid5_place (data_disks c RAID5) b") auto
  show "disk_ok c (raid_parity_disk c ty b)" "d \<noteq> raid_parity_disk c ty b" if "parity_level ty"
    using that p config_bounds(2,7) [OF assms(1)] raid5_place_range [OF _ r5] assms(3) r5
    by (auto simp: parity_level_def raid_parity_disk_def disk_ok_def raid_place_def Let_def
        VIRTIO_RAID_DISK_START_def VIRTIO_RAID_DISK_END_def split: if_splits)
qed

lemma served_result: "served c as st ok ds m res \<Longrightarrow>
    served c as st ok ds m (bindE res (\<lambda>(r, st). if r = -1 then Inr (-1, st) else Inr (0, st)))"
  by (auto simp: served_def)

lemma rw_block_read:
  assumes inv: "raid_inv c ty as st" and b: "b < raid_capacity c ty" and buf: "buf_ok c as p"
  shows "served c as st (raid_available c ty st b) (platters st) (store_bytes (pram st) p (raid_contents c ty st b))
    (rw_block c (superblock st) b p True st)"
proof -
  obtain d r where dr: "raid_place c ty b = (d, r)" by fastforce
  note ok = raid_place_ok [OF raid_invD(1) [OF inv] b dr]
  note n = config_bounds(2) [OF raid_invD(1) [OF inv]]
  note rd = raid_inv_ready [OF inv]
  have q: "quiet c as st st" using raid_invD(4) [OF inv] by (rule quiet_refl)
  note sb = raid_inv_sb(1,2) [OF inv q]
  show ?thesis
  proof (cases "mirrored ty")
    case True
    have "served c as st (raid_available c ty st b) (platters st) (store_bytes (pram st) p (raid_contents c ty st b))
      (handle_rw_raid01 c (superblock st) d r p True st)"
      using handle_rw_raid01_read [OF rd ok(1) ok(4) [OF True] ok(3) buf raid_inv_sb(2) [OF inv]] True dr
      by (cases "health st d = HEALTHY") (simp_all add: raid_available_def raid_contents_def)
    from served_result [OF this] True show ?thesis
      using sb dr n raid_invD(3) [OF inv]
      by (auto simp: rw_block_def Let_def mirrored_def raid_place_def)
  next
    case False
    have sv: "served c as st (raid_available c ty st b) (platters st)
        (store_bytes (pram st) p (raid_contents c ty st b)) (rw_parity c d parity r p True st)" for parity
    proof -
      have "raid_available c ty st b \<longleftrightarrow> health st d = HEALTHY"
        using False dr by (simp add: raid_available_def)
      moreover have "health st d = HEALTHY \<Longrightarrow> raid_contents c ty st b = platters st d r"
        using dr by (simp add: raid_contents_def)
      ultimately show ?thesis
        using rw_parity_read [OF rd ok(1,3) buf, of parity] by (auto simp: served_def)
    qed
    show ?thesis
    proof (cases ty)
      case RAID0
      then have "rw_block c (superblock st) b p True st = rw_parity c d parity r p True st" for parity
        using sb dr n by (simp add: rw_block_def rw_parity_def raid_place_def Let_def cong: if_cong)
      with sv show ?thesis by metis
    next
      case RAID5
      obtain q where "raid5_place (data_disks c RAID5) b = (d, r, q)"
        using dr RAID5 by (cases "raid5_place (data_disks c RAID5) b") (auto simp: raid_place_def)
      with sb n sv RAID5 show ?thesis by (simp add: rw_block_def Let_def)
    qed (use False sb n sv dr in \<open>auto simp: rw_block_def Let_def raid_place_def mirrored_def\<close>)
  qed
qed

lemma rw_block_write:
  assumes inv: "raid_inv c ty as st" and b: "b < raid_capacity c ty" and buf: "buf_ok c as p"
    and data: "data = load_bytes (pram st) p BSIZE"
  shows "served c as st (raid_available c ty st b) (raid_store c ty st b data) (pram st)
    (rw_block c (superblock st) b p False st)"
proof -
  obtain d r where dr: "raid_place c ty b = (d, r)" by fastforce
  note ok = raid_place_ok [OF raid_invD(1) [OF inv] b dr]
  note n = config_bounds(2) [OF raid_invD(1) [OF inv]]
  note rd = raid_inv_ready [OF inv]
  note nolock = raid_invD(7) [OF inv]
  have q: "quiet c as st st" using raid_invD(4) [OF inv] by (rule quiet_refl)
  note sb = raid_inv_sb [OF inv q]
  consider "mirrored ty" | "ty = RAID0" | "parity_level ty"
    by (cases ty) (auto simp: mirrored_def parity_level_def)
  then show ?thesis
  proof cases
    case 1
    then have "\<not> parity_level ty" by (auto simp: mirrored_def parity_level_def)
    then have "served c as st (raid_available c ty st b) (raid_store c ty st b data) (pram st)
      (handle_rw_raid01 c (superblock st) d r p False st)"
      using handle_rw_raid01_write [OF rd nolock ok(1) ok(4) [OF 1] n ok(2,3) buf raid_inv_sb(2) [OF inv] data refl] 1 dr
      by (simp add: raid_available_def raid_store_def Let_def)
    from served_result [OF this] 1 show ?thesis
      using sb dr n raid_invD(3) [OF inv]
      by (auto simp: rw_block_def Let_def mirrored_def raid_place_def)
  next
    case 2
    obtain st1 where st1: "get_disk_health c d st = Inr (health st d, st1)" "quiet c as st st1"
      using rd ok(1) by (rule ready_health)
    obtain st2 where st2: "write_from c d r p st1 = Inr st2" "effect c as st (upd (platters st) d r data) (pram st) st2"
      using mirror_write_ok [OF ok(1-3) buf data st1(2) [unfolded quiet_effect]] by blast
    have "rw_block c (superblock st) b p False st = Inr (if health st d = HEALTHY then (0, st2) else (-1, st1))"
      using 2 sb dr n st1(1) st2(1) by (simp add: rw_block_def raid_place_def Let_def)
    then show ?thesis
      using 2 dr st1(2) st2(2)
      by (simp add: served_def raid_available_def raid_store_def mirrored_def parity_level_def Let_def)
  next
    case 3
    have avail: "raid_available c ty st b \<longleftrightarrow> health st d = HEALTHY"
      using 3 dr by (auto simp: raid_available_def mirrored_def parity_level_def)
    have sv: "served c as st (raid_available c ty st b) (raid_store c ty st b data) (pram st)
        (rw_parity c d parity r p False st)"
      if "\<And>st'. quiet c as st st' \<Longrightarrow> parity st' = raid_parity_disk c ty b" for parity
      using rw_parity_write [OF rd nolock ok(1) ok(5) [OF 3] ok(6) [OF 3] ok(2,3) buf that data refl] 3 avail dr
      by (simp add: raid_store_def Let_def)
    show ?thesis
    proof (cases "ty = RAID4")
      case True
      have "served c as st (raid_available c ty st b) (raid_store c ty st b data) (pram st)
        (rw_parity c d (\<lambda>st'. unat (scast (parrity_disk (sb_at st' (superblock st))) :: u64)) r p False st)"
        by (rule sv) (use raid_inv_sb(3) [OF inv _ True] True in
          \<open>simp add: raid_parity_disk_def VIRTIO_RAID_DISK_END_def\<close>)
      then show ?thesis using True sb n dr by (auto simp: rw_block_def Let_def raid_place_def)
    next
      case False
      with 3 have ty: "ty = RAID5" by (simp add: parity_level_def)
      then obtain q where q: "raid5_place (data_disks c RAID5) b = (d, r, q)"
        using dr by (cases "raid5_place (data_disks c RAID5) b") (auto simp: raid_place_def)
      with ty have "raid_parity_disk c ty b = q" by (simp add: raid_parity_disk_def)
      with sv [of "\<lambda>_. q"] show ?thesis using q sb n ty by (simp add: rw_block_def Let_def)
    qed
  qed
qed

section \<open>The invariants of the array\<close>

lemma raid_inv_effect:
  assumes inv: "raid_inv c ty as st" and eff: "effect c as st ds m st'" and wf: "wf_disks ds"
    and sb: "load_bytes m (superblock st) SB_SIZE = load_bytes (pram st) (superblock st) SB_SIZE"
  shows "raid_inv c ty as st'"
proof -
  have "load_bytes (pram st') (superblock st) SB_SIZE = load_bytes m (superblock st) SB_SIZE"
  proof (rule load_bytes_outside)
    show "outside_pages as m (pram st')" using eff by (simp add: effect_def)
    show "\<forall>a\<in>set as. \<not> in_page a (superblock st + i)" if "i < SB_SIZE" for i
      using that raid_invD(4,9,10) [OF inv]
      by (intro other_page_outside [of c "km st" as "superblock st"]) (auto simp: in_page_def SB_SIZE_def PGSIZE_def)
  qed
  with sb have "sb_at st' (superblock st) = sb_at st (superblock st)" by (simp add: sb_at_def)
  with inv eff wf show ?thesis by (simp add: raid_inv_def effect_def)
qed

lemma raid_inv_quiet: "raid_inv c ty as st \<Longrightarrow> quiet c as st st' \<Longrightarrow> raid_inv c ty as st'"
  using raid_inv_effect raid_invD(6) by (metis quiet_effect)

lemma wf_raid_store:
  "wf_disks (platters st) \<Longrightarrow> length data = BSIZE \<Longrightarrow> wf_disks (raid_store c ty st b data)"
  by (simp add: raid_store_def Let_def split: prod.split)

lemma parity_disk_of_row:
  assumes cfg: "config_ok c ty" and ty: "parity_level ty" and e: "e < raid_capacity c ty"
    and dr: "raid_place c ty b = (d, r)" and dr': "raid_place c ty e = (d', r)"
  shows "raid_parity_disk c ty e = raid_parity_disk c ty b" "d' \<noteq> raid_parity_disk c ty b"
proof -
  have n: "0 < data_disks c ty" by (rule config_bounds(2) [OF cfg])
  show "raid_parity_disk c ty e = raid_parity_disk c ty b"
    using ty dr dr' n
    by (auto simp: parity_level_def raid_parity_disk_def raid_place_def Let_def raid5_place_def)
  with raid_place_ok(6) [OF cfg e dr' ty] show "d' \<noteq> raid_parity_disk c ty b" by simp
qed

text \<open>A write changes the contents of its own block and of no other block.\<close>

lemma raid_contents_store:
  assumes cfg: "config_ok c ty" and b: "b < raid_capacity c ty" and e: "e < raid_capacity c ty"
    and st': "platters st' = raid_store c ty st b data" "\<And>d. health st' d = health st d"
  shows "raid_contents c ty st' e = (if e = b then data else raid_contents c ty st e)"
proof -
  obtain d r where dr: "raid_place c ty b = (d, r)" by fastforce
  obtain d' r' where dr': "raid_place c ty e = (d', r')" by fastforce
  have ne: "e \<noteq> b \<Longrightarrow> d' \<noteq> d \<or> r' \<noteq> r" using raid_place_inj [OF e, of b] dr dr' by auto
  have eb: "e = b \<Longrightarrow> d' = d \<and> r' = r" using dr dr' by auto
  show ?thesis
  proof (cases "parity_level ty")
    case True
    then have "\<not> mirrored ty" by (auto simp: mirrored_def parity_level_def)
    moreover have "r' = r \<Longrightarrow> d' \<noteq> raid_parity_disk c ty b"
      using parity_disk_of_row(2) [OF cfg True e dr] dr' by simp
    ultimately show ?thesis
      using True st'(1) dr dr' ne eb
      by (auto simp: raid_contents_def raid_store_def Let_def upd_apply)
  next
    case False
    have le: "mirrored ty \<Longrightarrow> d \<le> data_disks c ty" "mirrored ty \<Longrightarrow> d' \<le> data_disks c ty" "1 \<le> d" "1 \<le> d'"
      using raid_place_range(1,2) [OF b] raid_place_range(1,2) [OF e] dr dr'
      by (auto simp: mirrored_def split: if_splits)
    show ?thesis
      using False st' dr dr' ne eb le
      by (auto simp: raid_contents_def raid_store_def Let_def upd_apply)
  qed
qed

section \<open>Mirrors\<close>

text \<open>
  The two copies of every mirrored block agree as long as the first one is in use; a write keeps this,
  and then the failure of either disk of a pair does not change what the array holds.
\<close>

definition mirrors_agree :: "machine \<Rightarrow> RAID_TYPE \<Rightarrow> raid_state \<Rightarrow> bool" where
  "mirrors_agree c ty st \<longleftrightarrow>
     (\<forall>b<raid_capacity c ty. case raid_place c ty b of (d, r) \<Rightarrow>
        health st d = HEALTHY \<longrightarrow> platters st (d + data_disks c ty) r = platters st d r)"

lemma mirrors_agree_store:
  assumes cfg: "config_ok c ty" and ty: "mirrored ty" and b: "b < raid_capacity c ty" and agree: "mirrors_agree c ty st"
    and st': "platters st' = raid_store c ty st b data" "\<And>d. health st' d = health st d"
  shows "mirrors_agree c ty st'"
  unfolding mirrors_agree_def
proof (intro allI impI, unfold case_prod_beta, intro impI)
  fix e assume e: "e < raid_capacity c ty"
  obtain d r where dr: "raid_place c ty b = (d, r)" by fastforce
  obtain d' r' where dr': "raid_place c ty e = (d', r')" by fastforce
  have le: "d \<le> data_disks c ty" "d' \<le> data_disks c ty" "1 \<le> d" "1 \<le> d'"
    using raid_place_range(1,2) [OF b] raid_place_range(1,2) [OF e] dr dr' ty
    by (auto simp: mirrored_def split: if_splits)
  have np: "\<not> parity_level ty" using ty by (auto simp: mirrored_def parity_level_def)
  assume "health st' (fst (raid_place c ty e)) = HEALTHY"
  then have h: "health st d' = HEALTHY" using dr' st'(2) by simp
  moreover have "platters st (d' + data_disks c ty) r' = platters st d' r'"
    using agree [unfolded mirrors_agree_def, rule_format, OF e] dr' h by simp
  ultimately show "platters st' (fst (raid_place c ty e) + data_disks c ty) (snd (raid_place c ty e)) =
      platters st' (fst (raid_place c ty e)) (snd (raid_place c ty e))"
    using ty np st'(1) dr dr' le
    by (cases "d' = d") (auto simp: raid_store_def Let_def upd_apply)
qed

section \<open>Parity\<close>

definition row_xor :: "disks \<Rightarrow> nat list \<Rightarrow> nat \<Rightarrow> block" where
  "row_xor ds is r = foldr (\<lambda>d. xorb (ds d r)) is (replicate BSIZE 0)"

definition parity_ok :: "machine \<Rightarrow> disks \<Rightarrow> bool" where
  "parity_ok c ds \<longleftrightarrow>
     (\<forall>r. 0 < r \<and> r < blockPerDisk c \<longrightarrow> row_xor ds [1..<DISKS c + 1] r = replicate BSIZE 0)"

lemma row_xor_simps [simp]:
  "row_xor ds [] r = replicate BSIZE 0" "row_xor ds (d # is) r = xorb (ds d r) (row_xor ds is r)"
  by (simp_all add: row_xor_def)

lemma length_row_xor [simp]: "wf_disks ds \<Longrightarrow> length (row_xor ds is r) = BSIZE"
  by (induction "is") auto

lemma row_xor_append:
  "wf_disks ds \<Longrightarrow> row_xor ds (is @ js) r = xorb (row_xor ds is r) (row_xor ds js r)"
  by (induction "is") (simp_all add: xorb_assoc)

lemma row_xor_cong: "(\<And>d. d \<in> set is \<Longrightarrow> ds' d r = ds d r) \<Longrightarrow> row_xor ds' is r = row_xor ds is r"
  by (induction "is") auto

lemma row_xor_upd:
  assumes "wf_disks ds" "length x = BSIZE" "distinct is" "d \<in> set is"
  shows "row_xor (upd ds d r x) is r = xorb (xorb x (ds d r)) (row_xor ds is r)"
  using assms(3,4)
proof (induction "is")
  case (Cons e "is")
  show ?case
  proof (cases "e = d")
    case True
    with Cons have "row_xor (upd ds d r x) is r = row_xor ds is r"
      by (intro row_xor_cong) (auto simp: upd_apply)
    moreover have "xorb (xorb x (ds d r)) (xorb (ds d r) (row_xor ds is r)) =
        xorb x (xorb (ds d r) (xorb (ds d r) (row_xor ds is r)))" by (rule xorb_assoc)
    moreover have "upd ds d r x d r = x" by (simp add: upd_apply)
    ultimately show ?thesis using True assms(1,2) by simp
  next
    case False
    with Cons show ?thesis by (simp add: upd_apply xorb_ac)
  qed
qed simp

lemma parity_ok_store:
  assumes cfg: "config_ok c ty" and ty: "parity_level ty" and b: "b < raid_capacity c ty"
    and wf: "wf_disks (platters st)" and data: "length data = BSIZE" and ok: "parity_ok c (platters st)"
  shows "parity_ok c (raid_store c ty st b data)"
  unfolding parity_ok_def
proof (intro allI impI)
  fix s assume s: "0 < s \<and> s < blockPerDisk c"
  obtain d r where dr: "raid_place c ty b = (d, r)" by fastforce
  define p where "p = raid_parity_disk c ty b"
  note k = raid_place_ok [OF cfg b dr]
  let ?ds = "platters st" and ?all = "[1..<DISKS c + 1]"
  define delta where "delta = xorb data (?ds d r)"
  have len: "length delta = BSIZE" using wf data by (simp add: delta_def)
  have inall: "d \<in> set ?all" "p \<in> set ?all" "d \<noteq> p"
    using k(1) k(5,6) [OF ty] by (auto simp: p_def disk_ok_def VIRTIO_RAID_DISK_START_def VIRTIO_RAID_DISK_END_def)
  have store: "raid_store c ty st b data = upd (upd ?ds p r (xorb delta (?ds p r))) d r data"
    using dr ty by (simp add: raid_store_def Let_def p_def delta_def)
  have zero: "row_xor ?ds ?all s = replicate BSIZE 0" using ok s by (simp add: parity_ok_def)
  show "row_xor (raid_store c ty st b data) ?all s = replicate BSIZE 0"
  proof (cases "s = r")
    case False
    then have "row_xor (raid_store c ty st b data) ?all s = row_xor ?ds ?all s"
      unfolding store by (intro row_xor_cong) (simp add: upd_apply)
    with zero show ?thesis by simp
  next
    case True
    let ?ds1 = "upd ?ds p r (xorb delta (?ds p r))"
    have wf1: "wf_disks ?ds1" using wf len by simp
    have "row_xor ?ds1 ?all r = xorb (xorb (xorb delta (?ds p r)) (?ds p r)) (row_xor ?ds ?all r)"
      using wf len inall by (intro row_xor_upd) auto
    also have "\<dots> = delta" using zero True wf len by simp
    finally have 1: "row_xor ?ds1 ?all r = delta" .
    have "row_xor (upd ?ds1 d r data) ?all r = xorb (xorb data (?ds1 d r)) (row_xor ?ds1 ?all r)"
      using wf1 data inall by (intro row_xor_upd) auto
    also have "\<dots> = xorb delta delta" using 1 inall(3) by (simp add: upd_apply delta_def)
    also have "\<dots> = replicate BSIZE 0" using len by simp
    finally show ?thesis unfolding store True .
  qed
qed

section \<open>Recovery\<close>

text \<open>Both recovery routines rebuild one disk row by row from the rows of the other disks.\<close>

definition rebuilt :: "disks \<Rightarrow> nat \<Rightarrow> nat list \<Rightarrow> (nat \<Rightarrow> block) \<Rightarrow> disks" where
  "rebuilt ds d rows f = ds(d := (\<lambda>r. if r \<in> set rows then f r else ds d r))"

lemma rebuilt_simps [simp]:
  "rebuilt ds d [] f = ds" "e \<noteq> d \<Longrightarrow> rebuilt ds d rows f e = ds e"
  "upd (rebuilt ds d rows f) d r (f r) = rebuilt ds d (rows @ [r]) f"
  by (auto simp: rebuilt_def upd_def fun_eq_iff)

lemma wf_rebuilt [simp]: "wf_disks ds \<Longrightarrow> (\<And>r. length (f r) = BSIZE) \<Longrightarrow> wf_disks (rebuilt ds d rows f)"
  by (simp add: rebuilt_def wf_disks_def)

lemma recovery_xor_ok:
  assumes rd: "ready c as st" and d: "disk_ok c d" and r: "r < blockPerDisk c"
  shows "\<exists>st'. recovery_xor c d r (blk, st) = Inr (xorb blk (platters st d r), st') \<and> quiet c as st st'"
proof -
  have m: "machine_ok c" and inv: "kalloc_inv c (km st) as" and wf: "wf_disks (platters st)"
    using rd by (auto simp: ready_def)
  from rd obtain a bs where as: "as = a # bs" by (cases as) (auto simp: ready_def)
  with kalloc_pops [OF m] inv obtain k1 where k1: "kalloc (km st) = (a, k1)" by blast
  have a: "page_ok c a" "a \<noteq> 0" using inv as page_word(2) [OF m] by (auto simp: kalloc_inv_def)
  let ?m = "store_bytes (ram k1) a (platters st d r)"
  have len: "length (platters st d r) = BSIZE" using wf by simp
  have "?m x = ram k1 x" if "\<not> in_page a x" for x
    using that len by (intro store_bytes_outside) (auto simp: in_page_def BSIZE_def PGSIZE_def)
  then obtain k2 where k2: "kfree c a (k1\<lparr>ram := ?m\<rparr>) = Inr k2" "kalloc_inv c k2 as"
      "\<forall>x. \<not> in_page a x \<longrightarrow> ram k2 x = ram (km st) x"
    using temporary_page [OF m _ k1, of bs ?m] inv as by auto
  have "load_bytes ?m a BSIZE = platters st d r" using len by (metis load_store_same)
  then have "recovery_xor c d r (blk, st) = Inr (xorb blk (platters st d r), st\<lparr>km := k2\<rparr>)"
    using d r a k1 k2(1) page_mapped [OF m a(1) BSIZE_le_PGSIZE] len
    by (simp add: recovery_xor_def raid_kalloc_def raid_kfree_def read_into_def raid_read_def put_mem_def get_mem_def)
  moreover have "quiet c as st (st\<lparr>km := k2\<rparr>)"
    using k2 as by (auto simp: quiet_def outside_pages_def)
  ultimately show ?thesis by blast
qed

lemma recovery_row_ok:
  assumes rd: "ready c as st" and js: "\<And>j. j \<in> set js \<Longrightarrow> disk_ok c (g j)" and r: "r < blockPerDisk c"
    and blk: "length blk = BSIZE"
  shows "\<exists>st'. forE js (\<lambda>j. recovery_xor c (g j) r) (blk, st) = Inr (xorb blk (row_xor (platters st) (map g js) r), st') \<and>
    quiet c as st st'"
proof -
  have wf: "wf_disks (platters st)" using rd by (simp add: ready_def)
  have "\<exists>t. forE js (\<lambda>j. recovery_xor c (g j) r) (blk, st) = Inr t \<and>
    (fst t = xorb blk (row_xor (platters st) (map g js) r) \<and> quiet c as st (snd t))"
  proof (rule forE_rule, goal_cases)
    case 1
    then show ?case using blk rd by (simp add: ready_def quiet_refl)
  next
    case (2 xs j rest t)
    obtain b st1 where t: "t = (b, st1)" by fastforce
    with 2 have q: "quiet c as st st1" and b: "b = xorb blk (row_xor (platters st) (map g xs) r)" by auto
    have "disk_ok c (g j)" using js 2(1) by simp
    with recovery_xor_ok [OF ready_quiet [OF rd q] _ r, of "g j" b] obtain st2 where
      "recovery_xor c (g j) r (b, st1) = Inr (xorb b (platters st1 (g j) r), st2)" "quiet c as st1 st2" by blast
    moreover have "xorb b (platters st (g j) r) = xorb blk (row_xor (platters st) (map g (xs @ [j])) r)"
      using wf b by (simp add: row_xor_append xorb_assoc)
    ultimately show ?case using t quiet_trans [OF q] quietD(4) [OF q] by auto
  qed
  then show ?thesis by auto
qed

lemma raid_write_eq:
  "disk_ok c d \<Longrightarrow> r < blockPerDisk c \<Longrightarrow> raid_write c d r data st = Inr (st\<lparr>platters := upd (platters st) d r data\<rparr>)"
  by (simp add: raid_write_def upd_def)

lemma raid4_and_5_recovery_ok:
  assumes rd: "ready c as st" and D: "3 \<le> DISKS c"
  shows "\<exists>st'. raid4_and_5_recovery c 1 st = Inr st' \<and>
    effect c as st (rebuilt (platters st) 1 [1..<blockPerDisk c] (row_xor (platters st) [2..<DISKS c + 1])) (pram st) st'"
proof -
  let ?ds = "platters st" and ?D = "DISKS c"
  let ?f = "row_xor ?ds [2..<?D + 1]"
  have wf: "wf_disks ?ds" using rd by (simp add: ready_def)
  have js: "map (\<lambda>j. (2 + j) mod (?D + 1)) [1..<?D - 1] = [3..<?D + 1]"
    using D by (intro nth_equalityI) (auto simp del: upt_Suc)
  have ok: "disk_ok c ((2 + j) mod (?D + 1))" if "j \<in> set [1..<?D - 1]" for j
    using that by (auto simp: disk_ok_def VIRTIO_RAID_DISK_START_def VIRTIO_RAID_DISK_END_def)
  have d12: "disk_ok c 1" "disk_ok c 2"
    using D by (auto simp: disk_ok_def VIRTIO_RAID_DISK_START_def VIRTIO_RAID_DISK_END_def)
  have cons: "[2..<?D + 1] = 2 # [3..<?D + 1]" using D by (simp add: upt_conv_Cons)
  show ?thesis
    unfolding raid4_and_5_recovery_def
  proof (rule forE_rule, goal_cases)
    case 1
    show ?case using quiet_refl rd by (simp add: ready_def flip: quiet_effect)
  next
    case (2 rows r rest t)
    then have r: "0 < r" "r < blockPerDisk c"
      by (metis atLeastLessThan_iff in_set_conv_decomp less_le_trans set_upt zero_less_one)+
    have eff: "effect c as st (rebuilt ?ds 1 rows ?f) (pram st) t" using 2(2) .
    have rdt: "ready c as t" using rd eff wf by (auto simp: ready_def effect_def)
    have others: "platters t d = ?ds d" if "d \<noteq> 1" for d
      using eff that by (simp add: effect_def)
    have blk: "length (?ds 2 r) = BSIZE" using wf by simp
    obtain t1 where t1: "forE [1..<?D - 1] (\<lambda>j. recovery_xor c ((2 + j) mod (?D + 1)) r) (?ds 2 r, t) =
        Inr (xorb (?ds 2 r) (row_xor (platters t) [3..<?D + 1] r), t1)" "quiet c as t t1"
      using recovery_row_ok [OF rdt _ r(2) blk, of "[1..<?D - 1]" "\<lambda>j. (2 + j) mod (?D + 1)"] ok
      unfolding js by blast
    have "row_xor (platters t) [3..<?D + 1] r = row_xor ?ds [3..<?D + 1] r"
      using others by (intro row_xor_cong) auto
    then have row: "xorb (?ds 2 r) (row_xor (platters t) [3..<?D + 1] r) = ?f r"
      unfolding cons by simp
    have "effect c as st (rebuilt ?ds 1 rows ?f) (pram st) t1"
      using eff t1(2) by (rule effect_quiet_trans)
    then have "effect c as st (rebuilt ?ds 1 (rows @ [r]) ?f) (pram st) (t1\<lparr>platters := upd (platters t1) 1 r (?f r)\<rparr>)"
      using health_frame(3) [OF r(1), of t1 1 "?f r"] by (simp add: effect_def)
    moreover have "(1 + 1) mod (?D + 1) = 2" using D by simp
    ultimately show ?case
      using d12 r t1(1) others [of 2] row
      by (simp add: Let_def raid_read_def raid_write_eq VIRTIO_RAID_DISK_END_def)
  qed
qed

lemma rebuilt_parity:
  assumes wf: "wf_disks ds" and D: "1 \<le> DISKS c" and r: "0 < r" "r < blockPerDisk c"
  shows "row_xor (rebuilt ds 1 [1..<blockPerDisk c] (row_xor ds [2..<DISKS c + 1])) [1..<DISKS c + 1] r = replicate BSIZE 0"
proof -
  let ?ds = "rebuilt ds 1 [1..<blockPerDisk c] (row_xor ds [2..<DISKS c + 1])"
  have "[1..<DISKS c + 1] = 1 # [2..<DISKS c + 1]"
    using D upt_conv_Cons [of 1 "DISKS c + 1"] by (simp add: numeral_2_eq_2 del: upt_Suc)
  then have "row_xor ?ds [1..<DISKS c + 1] r = xorb (?ds 1 r) (row_xor ?ds [2..<DISKS c + 1] r)" by simp
  also have "row_xor ?ds [2..<DISKS c + 1] r = row_xor ds [2..<DISKS c + 1] r"
    by (intro row_xor_cong) (auto simp: rebuilt_def)
  also have "?ds 1 r = row_xor ds [2..<DISKS c + 1] r" using r by (simp add: rebuilt_def)
  finally show ?thesis using wf by simp
qed

lemma mirrorRecovery_ok:
  assumes rd: "ready c as st" and d: "disk_ok c d1" "disk_ok c d2" "d1 \<noteq> d2" and h: "disk_status st d2 \<noteq> UNITIALIZED"
  shows "\<exists>st'. mirrorRecovery c d1 d2 st = Inr st' \<and> disk_status st' = disk_status st \<and>
    effect c as st (rebuilt (platters st) d2 [0..<blockPerDisk c] (platters st d1)) (pram st) st'"
proof -
  let ?ds = "platters st"
  have "\<exists>st'. mirrorRecovery c d1 d2 st = Inr st' \<and>
    (st' = st\<lparr>platters := rebuilt ?ds d2 [0..<blockPerDisk c] (?ds d1)\<rparr>)"
    unfolding mirrorRecovery_def
  proof (rule forE_rule, goal_cases)
    case 1
    show ?case by simp
  next
    case (2 rows r rest t)
    then have r: "r < blockPerDisk c"
      by (metis atLeastLessThan_iff in_set_conv_decomp set_upt)
    then show ?case using 2(2) d by (simp add: raid_read_def raid_write_eq)
  qed
  moreover have "health (st\<lparr>platters := rebuilt ?ds d2 [0..<blockPerDisk c] (?ds d1)\<rparr>) d = health st d" for d
    using h by (simp add: health_def rebuilt_def)
  ultimately show ?thesis using rd by (auto simp: effect_def ready_def)
qed

end
