(* ===== verification/Raid_Example.thy ===== *)
theory Raid_Example
  imports Raid_Array
begin

text \<open>
  A concrete machine state on which the properties of the RAID device are evaluated: four disks of
  zero blocks, an array of any level in service, two free pages, and a page table that maps the user
  page at address 0.
\<close>

definition demo_sb_page :: nat where "demo_sb_page = KERNBASE + 6 * PGSIZE"
definition demo_pages :: "nat list" where "demo_pages = [KERNBASE + 8 * PGSIZE, KERNBASE + 4 * PGSIZE]"
definition demo_pt :: nat where "demo_pt = KERNBASE + 10 * PGSIZE"
definition demo_buf :: nat where "demo_buf = KERNBASE + 13 * PGSIZE"

definition demo_sb :: "u32 \<Rightarrow> RAIDSuperblock" where
  "demo_sb lvl = (case raid_init_superblock small_machine lvl of Inr sb \<Rightarrow> sb)"

definition demo_ram :: "u32 \<Rightarrow> mem" where
  "demo_ram lvl =
     store64 (store64 (store64
       (store_bytes (ram two_page_kmem) demo_sb_page (bytes_of_sb (demo_sb lvl)))
       demo_pt (PA2PTE (word_of_nat (KERNBASE + 11 * PGSIZE)) OR PTE_V))
       (KERNBASE + 11 * PGSIZE) (PA2PTE (word_of_nat (KERNBASE + 12 * PGSIZE)) OR PTE_V))
       (KERNBASE + 12 * PGSIZE) (PA2PTE (word_of_nat demo_buf) OR PTE_V OR PTE_R OR PTE_W OR PTE_U)"

definition demo_state :: "u32 \<Rightarrow> raid_state" where
  "demo_state lvl = \<lparr>is_init = 1, disk_status = (\<lambda>_. HEALTHY), superblock = demo_sb_page,
     disk_locks = (\<lambda>_. False), platters = (\<lambda>_ _. replicate BSIZE 0),
     km = \<lparr>freelist = freelist two_page_kmem, ram = demo_ram lvl\<rparr>\<rparr>"

lemmas demo_addr = demo_sb_page_def demo_pages_def demo_pt_def demo_buf_def KERNBASE_def PGSIZE_def

lemma demo_config: "config_ok small_machine ty"
  using small_machine_ok(1)
  by (simp add: config_ok_def small_machine_def blockPerDisk_def DISK_SIZE_def BSIZE_def)

lemma demo_superblock:
  assumes "raid_type_of lvl = Some ty"
  shows "raid_init_superblock small_machine lvl = Inr (demo_sb lvl)"
  using assms
  by (cases ty) (auto simp: demo_sb_def raid_init_superblock_def Let_def small_machine_def VIRTIO_RAID_DISK_END_def)

lemma demo_pages_inv: "kalloc_inv small_machine (km (demo_state lvl)) demo_pages"
proof -
  have "load64 (demo_ram lvl) a = load64 (ram two_page_kmem) a" if "a \<in> set demo_pages" for a
    using that
    by (auto simp: demo_ram_def demo_addr load64_store64_disjoint load64_store_bytes_disjoint SB_SIZE_def)
  then have "freechain (demo_ram lvl) p demo_pages = freechain (ram two_page_kmem) p demo_pages" for p
    by (rule freechain_cong)
  with two_page_kmem_inv show ?thesis
    by (simp add: kalloc_inv_def demo_state_def flip: demo_pages_def del: freechain.simps)
qed

lemma demo_sb_at: "sb_at (demo_state lvl) demo_sb_page = demo_sb lvl"
proof -
  have "load_bytes (demo_ram lvl) demo_sb_page SB_SIZE = bytes_of_sb (demo_sb lvl)"
    by (simp add: demo_ram_def demo_addr store64_def load_store_disjoint SB_SIZE_def)
  then show ?thesis
    using sb_of_bytes_bytes_of_sb [of "demo_sb lvl" "[]"] by (simp add: sb_at_def demo_state_def)
qed

lemma demo_inv: "raid_type_of lvl = Some ty \<Longrightarrow> raid_inv small_machine ty demo_pages (demo_state lvl)"
  unfolding raid_inv_def
  using demo_config demo_pages_inv demo_sb_at demo_superblock
  by (auto simp: demo_state_def wf_disks_def page_ok_def small_machine_def PHYSTOP_def demo_addr)

lemma demo_user_addr: "user_addr demo_pt 0 (demo_state lvl) = demo_buf"
proof -
  define q1 q2 where "q1 = KERNBASE + 11 * PGSIZE" and "q2 = KERNBASE + 12 * PGSIZE"
  define fl where "fl = PTE_V OR PTE_R OR PTE_W OR PTE_U"
  have l: "load64 (demo_ram lvl) demo_pt = PA2PTE (word_of_nat q1) OR PTE_V"
    "load64 (demo_ram lvl) q1 = PA2PTE (word_of_nat q2) OR PTE_V"
    "load64 (demo_ram lvl) q2 = PA2PTE (word_of_nat demo_buf) OR fl"
    by (simp_all add: demo_ram_def demo_addr q1_def q2_def fl_def load64_store64_disjoint or.assoc)
  have u: "unat (word_of_nat q1 :: u64) = q1" "unat (word_of_nat q2 :: u64) = q2"
    "unat (word_of_nat demo_buf :: u64) = demo_buf"
    by (simp_all add: q1_def q2_def demo_addr)
  have f: "unat PTE_V < 1024" "unat PTE_U < 1024" "unat fl < 1024"
      "PTE_V \<noteq> 0" "fl AND PTE_V \<noteq> 0" "fl AND PTE_U \<noteq> 0"
    by (simp_all add: PTE_V_def PTE_U_def PTE_R_def PTE_W_def fl_def)
  have pa: "PTE2PA (PA2PTE (word_of_nat q1) OR PTE_V) = word_of_nat q1"
    "PTE2PA (PA2PTE (word_of_nat q2) OR PTE_V) = word_of_nat q2"
    "PTE2PA (PA2PTE (word_of_nat demo_buf) OR fl) = word_of_nat demo_buf"
    by (intro PTE2PA_PA2PTE f; simp only: u; simp add: q1_def q2_def demo_addr)+
  have px: "PX l 0 = 0" for l by (simp add: PX_def)
  have max: "\<not> MAXVA \<le> 0" by (simp add: word_le_nat_alt unat_MAXVA)
  have two: "walk_from 2 = walk_from (Suc (Suc 0))" by (simp add: numeral_2_eq_2)
  have ram: "ram (km (demo_state lvl)) = demo_ram lvl" by (simp add: demo_state_def)
  have q2: "q2 \<noteq> 0" by (simp add: q2_def KERNBASE_def)
  have "walkaddr demo_pt 0 (km (demo_state lvl)) = word_of_nat demo_buf"
    using max
    by (simp add: walkaddr_def walk_def two px ram l pa u q2 PTE_AND_flag f)
  then show ?thesis by (simp add: user_addr_def u)
qed

lemma demo_buf_ok: "buf_ok small_machine demo_pages demo_buf"
  by (auto simp: buf_ok_def mapped_def small_machine_def PHYSTOP_def demo_addr BSIZE_def in_page_def)

lemma demo_capacity: "raid_capacity small_machine ty = 131071 * data_disks small_machine ty"
  "data_disks small_machine RAID0 = 4" "data_disks small_machine RAID1 = 2" "data_disks small_machine RAID0_1 = 2"
  "data_disks small_machine RAID4 = 3" "data_disks small_machine RAID5 = 3"
  by (simp_all add: raid_capacity_def data_disks_def small_machine_def blockPerDisk_def DISK_SIZE_def BSIZE_def
      VIRTIO_RAID_DISK_END_def)

end
