(* ===== verification/Block_Array.thy ===== *)
theory Block_Array
  imports Blockdev
begin

text \<open>
  The interface a client of a block device relies on: \<open>get\<close> returns the contents of a block and \<open>put\<close>
  replaces them, both keep the invariant and leave the other blocks alone. Any script of reads and
  writes then returns what a plain array of blocks returns.
\<close>

datatype blk_op = Put nat block | Get nat

fun array_run :: "(nat \<Rightarrow> block) \<Rightarrow> blk_op list \<Rightarrow> block list" where
  "array_run f [] = []"
| "array_run f (Put b data # ops) = array_run (f(b := data)) ops"
| "array_run f (Get b # ops) = f b # array_run f ops"

fun device_run :: "(nat \<Rightarrow> 's \<Rightarrow> fault + block \<times> 's) \<Rightarrow> (nat \<Rightarrow> block \<Rightarrow> 's \<Rightarrow> fault + 's) \<Rightarrow>
    blk_op list \<Rightarrow> 's \<Rightarrow> fault + block list \<times> 's" where
  "device_run get put [] s = Inr ([], s)"
| "device_run get put (Put b data # ops) s = bindE (put b data s) (device_run get put ops)"
| "device_run get put (Get b # ops) s =
     bindE (get b s) (\<lambda>(data, s). bindE (device_run get put ops s) (\<lambda>(ds, s). Inr (data # ds, s)))"

fun op_in_range :: "nat \<Rightarrow> blk_op \<Rightarrow> bool" where
  "op_in_range n (Put b data) \<longleftrightarrow> b < n \<and> length data = BSIZE"
| "op_in_range n (Get b) \<longleftrightarrow> b < n"

locale block_device =
  fixes get :: "nat \<Rightarrow> 's \<Rightarrow> fault + block \<times> 's"
    and put :: "nat \<Rightarrow> block \<Rightarrow> 's \<Rightarrow> fault + 's"
    and inv :: "'s \<Rightarrow> bool"
    and contents :: "'s \<Rightarrow> nat \<Rightarrow> block"
    and capacity :: nat
  assumes get_law: "inv s \<Longrightarrow> b < capacity \<Longrightarrow>
      \<exists>s'. get b s = Inr (contents s b, s') \<and> inv s' \<and> (\<forall>e<capacity. contents s' e = contents s e)"
    and put_law: "inv s \<Longrightarrow> b < capacity \<Longrightarrow> length data = BSIZE \<Longrightarrow>
      \<exists>s'. put b data s = Inr s' \<and> inv s' \<and>
        (\<forall>e<capacity. contents s' e = (if e = b then data else contents s e))"
begin

lemma run_is_array_run:
  assumes "inv s" "list_all (op_in_range capacity) ops" "\<forall>e<capacity. f e = contents s e"
  shows "\<exists>s'. device_run get put ops s = Inr (array_run f ops, s') \<and> inv s'"
  using assms
proof (induction ops arbitrary: s f)
  case (Cons x xs)
  show ?case
  proof (cases x)
    case (Put b data)
    with Cons.prems obtain s' where s': "put b data s = Inr s'" "inv s'"
        "\<forall>e<capacity. contents s' e = (if e = b then data else contents s e)"
      using put_law [of s b data] by auto
    have "\<exists>s''. device_run get put xs s' = Inr (array_run (f(b := data)) xs, s'') \<and> inv s''"
      by (rule Cons.IH) (use Cons.prems s' in auto)
    with Put s' show ?thesis by auto
  next
    case (Get b)
    with Cons.prems obtain s' where s': "get b s = Inr (f b, s')" "inv s'"
        "\<forall>e<capacity. contents s' e = contents s e"
      using get_law [of s b] by auto
    have "\<exists>s''. device_run get put xs s' = Inr (array_run f xs, s'') \<and> inv s''"
      by (rule Cons.IH) (use Cons.prems s' in auto)
    with Get s' show ?thesis by auto
  qed
qed simp

end

end
