(* ===== verification/Raid_Properties.thy ===== *)
theory Raid_Properties
  imports Raid_Example Block_Array
begin

text \<open>
  Properties of the system calls of the RAID device: what reads and writes do on an array in service,
  that any script of reads and writes behaves like one array of blocks, that mirrored arrays survive
  the failure of a disk, and that writes keep the copies and the parity of the array.
\<close>

section \<open>Calls on an array in service\<close>

definition raid_buf :: "machine \<Rightarrow> nat list \<Rightarrow> raid_state \<Rightarrow> nat \<Rightarrow> bool" where
  "raid_buf c as st p \<longleftrightarrow> buf_ok c as p \<and> (p + BSIZE \<le> superblock st \<or> superblock st + PGSIZE \<le> p)"

lemma init_superblock_blk_size: "raid_init_superblock c lvl = Inr sb \<Longrightarrow> blk_size sb = 1024"
  by (auto simp: raid_init_superblock_def Let_def BSIZE_def split: if_splits option.splits RAID_TYPE.splits)

lemma unat_ucast_u32: "unat (ucast (w :: u32) :: u64) = unat w"
proof -
  have "unat w < 2 ^ 64" using unat_bound [of w] by simp
  then show ?thesis by (simp add: unsigned_ucast_eq take_bit_nat_eq_self)
qed

lemma zero_superblock: "blk_size (sb_of_bytes (replicate SB_SIZE 0)) = 0"
  by (simp add: sb_of_bytes_def word_at_def SB_SIZE_def numeral_eq_Suc)

lemma load_metadata_in_service:
  assumes inv: "raid_inv c ty as st"
  shows "load_metadata c st = Inr (Some (superblock st), st)"
proof -
  obtain lvl where lvl: "raid_type_of lvl = Some ty" "raid_init_superblock c lvl = Inr (sb_at st (superblock st))"
    using inv by (auto simp: raid_inv_def)
  then have bs: "blk_size (sb_at st (superblock st)) = 1024"
    using init_superblock_blk_size by blast
  have "\<not> is_raid_uninitialized st (superblock st)"
    using bs zero_superblock by (auto simp: is_raid_uninitialized_def sb_at_def)
  with raid_invD(8,11) [OF inv] show ?thesis by (simp add: load_metadata_def)
qed

lemma max_blknum_in_service:
  assumes inv: "raid_inv c ty as st" and b: "unat b < raid_capacity c ty"
  shows "\<not> b > (ucast (max_blknum (sb_at st (superblock st))) :: u64)"
proof -
  obtain lvl where lvl: "raid_type_of lvl = Some ty" "raid_init_superblock c lvl = Inr (sb_at st (superblock st))"
    using inv by (auto simp: raid_inv_def)
  have "unat b \<le> unat (max_blknum (sb_at st (superblock st)))"
    using init_superblock_fields(3) [OF raid_invD(1) [OF inv] lvl] b by (auto split: if_splits)
  then show ?thesis by (simp add: word_less_nat_alt unat_ucast_u32)
qed

lemma raid_rw_in_service:
  assumes inv: "raid_inv c ty as st" and b: "unat b < raid_capacity c ty"
  shows "raid_rw c pt isRead b va st = rw_block c (superblock st) (unat b) (user_addr pt va st) isRead st"
  using load_metadata_in_service [OF inv] max_blknum_in_service [OF inv b] by (simp add: raid_rw_def)

lemma raid_buf_keeps_superblock:
  "raid_buf c as st p \<Longrightarrow> length bs = BSIZE \<Longrightarrow>
    load_bytes (store_bytes m p bs) (superblock st) SB_SIZE = load_bytes m (superblock st) SB_SIZE"
  by (rule load_store_disjoint) (auto simp: raid_buf_def SB_SIZE_def PGSIZE_def)

lemma length_raid_contents [simp]: "wf_disks (platters st) \<Longrightarrow> length (raid_contents c ty st b) = BSIZE"
  by (auto simp: raid_contents_def split: prod.split)

lemma rw_block_read_in_service:
  assumes inv: "raid_inv c ty as st" and b: "b < raid_capacity c ty" and buf: "raid_buf c as st p"
  shows "\<exists>st'. rw_block c (superblock st) b p True st = Inr (if raid_available c ty st b then 0 else -1, st') \<and>
    raid_inv c ty as st' \<and> platters st' = platters st \<and> (\<forall>d. health st' d = health st d) \<and>
    superblock st' = superblock st \<and>
    (raid_available c ty st b \<longrightarrow> load_bytes (pram st') p BSIZE = raid_contents c ty st b)"
proof -
  let ?bs = "raid_contents c ty st b" and ?ok = "raid_available c ty st b"
  have len: "length ?bs = BSIZE" using raid_invD(6) [OF inv] by simp
  have bok: "buf_ok c as p" using buf by (simp add: raid_buf_def)
  obtain st' where st': "rw_block c (superblock st) b p True st = Inr (if ?ok then 0 else -1, st')"
      "if ?ok then effect c as st (platters st) (store_bytes (pram st) p ?bs) st' else quiet c as st st'"
    using rw_block_read [OF inv b bok] by (auto simp: served_def)
  show ?thesis
  proof (cases ?ok)
    case False
    with st' raid_inv_quiet [OF inv] show ?thesis by (auto simp: quiet_def)
  next
    case True
    with st' have eff: "effect c as st (platters st) (store_bytes (pram st) p ?bs) st'" by simp
    have "raid_inv c ty as st'"
      using inv eff raid_invD(6) [OF inv] raid_buf_keeps_superblock [OF buf len] by (rule raid_inv_effect)
    moreover have "load_bytes (pram st') p BSIZE = load_bytes (store_bytes (pram st) p ?bs) p BSIZE"
      using eff bok by (intro load_bytes_outside [of as]) (auto simp: effect_def buf_ok_def)
    then have "load_bytes (pram st') p BSIZE = ?bs" using len by (metis load_store_same)
    ultimately show ?thesis using True st'(1) eff by (auto simp: effect_def)
  qed
qed

lemma rw_block_write_in_service:
  assumes inv: "raid_inv c ty as st" and b: "b < raid_capacity c ty" and buf: "buf_ok c as p"
    and data: "data = load_bytes (pram st) p BSIZE"
  shows "\<exists>st'. rw_block c (superblock st) b p False st = Inr (if raid_available c ty st b then 0 else -1, st') \<and>
    raid_inv c ty as st' \<and> superblock st' = superblock st \<and> (\<forall>d. health st' d = health st d) \<and>
    platters st' = (if raid_available c ty st b then raid_store c ty st b data else platters st)"
proof -
  let ?ok = "raid_available c ty st b"
  obtain st' where st': "rw_block c (superblock st) b p False st = Inr (if ?ok then 0 else -1, st')"
      "if ?ok then effect c as st (raid_store c ty st b data) (pram st) st' else quiet c as st st'"
    using rw_block_write [OF inv b buf data] by (auto simp: served_def)
  show ?thesis
  proof (cases ?ok)
    case False
    with st' raid_inv_quiet [OF inv] show ?thesis by (auto simp: quiet_def)
  next
    case True
    with st' have eff: "effect c as st (raid_store c ty st b data) (pram st) st'" by simp
    have "raid_inv c ty as st'"
      using inv eff wf_raid_store [OF raid_invD(6) [OF inv]] data by (intro raid_inv_effect [OF inv eff]) auto
    with True st'(1) eff show ?thesis by (auto simp: effect_def)
  qed
qed

text \<open>C15: On an array in service, reading a block below the capacity always returns: 0 with the contents of
  the block in the caller's buffer when a disk that holds it is healthy, -1 otherwise. The disks and
  their health are unchanged and the array stays in service, with every lock released and every
  temporary page freed.\<close>

theorem raid_read_returns_contents:
  assumes "raid_inv c ty as st" and "unat b < raid_capacity c ty" and "raid_buf c as st (user_addr pt va st)"
  shows "\<exists>st'. raid_read_block c pt b va st = Inr (if raid_available c ty st (unat b) then 0 else -1, st') \<and>
    raid_inv c ty as st' \<and> platters st' = platters st \<and> (\<forall>d. health st' d = health st d) \<and>
    (raid_available c ty st (unat b) \<longrightarrow>
       load_bytes (pram st') (user_addr pt va st) BSIZE = raid_contents c ty st (unat b))"
  using rw_block_read_in_service [OF assms] raid_rw_in_service [OF assms(1,2), of pt True va]
  unfolding raid_read_block_def by auto

lemma demo_raid_buf: "raid_buf small_machine demo_pages (demo_state lvl) (user_addr demo_pt 0 (demo_state lvl))"
  unfolding demo_user_addr raid_buf_def using demo_buf_ok by (simp add: demo_state_def demo_addr)

lemma demo_block: "unat (5 :: u64) < raid_capacity small_machine ty"
  by (cases ty) (simp_all add: demo_capacity)

lemma demo_types: "raid_type_of 0 = Some RAID0" "raid_type_of 1 = Some RAID1" "raid_type_of 2 = Some RAID0_1"
  "raid_type_of 3 = Some RAID4" "raid_type_of 4 = Some RAID5"
  by (simp_all add: raid_type_of_def)

theorem raid_read_returns_contents_witness:
  "\<exists>st'. raid_read_block small_machine demo_pt 5 0 (demo_state 4) =
      Inr (if raid_available small_machine RAID5 (demo_state 4) 5 then 0 else -1, st') \<and>
    raid_inv small_machine RAID5 demo_pages st'"
  using raid_read_returns_contents [OF demo_inv demo_block demo_raid_buf, OF demo_types(5)] by auto

text \<open>C14: On an array in service, writing a block below the capacity always returns. If the result is 0, the
  block now holds the bytes of the caller's buffer and every other logical block of the array holds
  what it held before; if no healthy disk holds the block the result is -1 and the disks are unchanged.\<close>

theorem raid_write_updates_one_block:
  assumes "raid_inv c ty as st" and "unat b < raid_capacity c ty" and "raid_buf c as st (user_addr pt va st)"
  shows "\<exists>st'. raid_write_block c pt b va st = Inr (if raid_available c ty st (unat b) then 0 else -1, st') \<and>
    raid_inv c ty as st' \<and>
    (if raid_available c ty st (unat b)
     then \<forall>e<raid_capacity c ty. raid_contents c ty st' e =
       (if e = unat b then load_bytes (pram st) (user_addr pt va st) BSIZE else raid_contents c ty st e)
     else platters st' = platters st)"
proof -
  let ?data = "load_bytes (pram st) (user_addr pt va st) BSIZE"
  obtain st' where st': "raid_write_block c pt b va st = Inr (if raid_available c ty st (unat b) then 0 else -1, st')"
      "raid_inv c ty as st'" "\<forall>d. health st' d = health st d"
      "platters st' = (if raid_available c ty st (unat b) then raid_store c ty st (unat b) ?data else platters st)"
    using rw_block_write_in_service [OF assms(1,2), of "user_addr pt va st"] assms(3)
      raid_rw_in_service [OF assms(1,2), of pt False va]
    unfolding raid_write_block_def raid_buf_def by auto
  moreover have "raid_contents c ty st' e = (if e = unat b then ?data else raid_contents c ty st e)"
    if "e < raid_capacity c ty" "raid_available c ty st (unat b)" for e
    using that st' by (intro raid_contents_store [OF raid_invD(1) [OF assms(1)] assms(2)]) auto
  ultimately show ?thesis by auto
qed

theorem raid_write_updates_one_block_witness:
  "\<exists>st'. raid_write_block small_machine demo_pt 5 0 (demo_state 2) =
      Inr (if raid_available small_machine RAID0_1 (demo_state 2) 5 then 0 else -1, st') \<and>
    raid_inv small_machine RAID0_1 demo_pages st'"
  using raid_write_updates_one_block [OF demo_inv demo_block demo_raid_buf, OF demo_types(3)] by auto

section \<open>The array as a block device\<close>

text \<open>
  The array as such a device, for a client with one buffer at physical address \<open>p\<close>. A result other
  than 0 ends the script with a fault; the invariant asks that every block is available.
\<close>

definition raid_call :: "machine \<Rightarrow> nat \<Rightarrow> nat \<Rightarrow> bool \<Rightarrow> raid_state \<Rightarrow> fault + raid_state" where
  "raid_call c p b isRead st =
     bindE (load_metadata c st) (\<lambda>(md, st).
     case md of None \<Rightarrow> Inl (Undefined ''raid error'')
     | Some md \<Rightarrow> bindE (rw_block c md b p isRead st) (\<lambda>(r, st).
         if r = 0 then Inr st else Inl (Undefined ''raid error'')))"

definition raid_get :: "machine \<Rightarrow> nat \<Rightarrow> nat \<Rightarrow> raid_state \<Rightarrow> fault + block \<times> raid_state" where
  "raid_get c p b st = bindE (raid_call c p b True st) (\<lambda>st. Inr (load_bytes (pram st) p BSIZE, st))"

definition raid_put :: "machine \<Rightarrow> nat \<Rightarrow> nat \<Rightarrow> block \<Rightarrow> raid_state \<Rightarrow> fault + raid_state" where
  "raid_put c p b data st = raid_call c p b False (st\<lparr>km := (km st)\<lparr>ram := store_bytes (pram st) p data\<rparr>\<rparr>)"

definition raid_dev_inv :: "machine \<Rightarrow> RAID_TYPE \<Rightarrow> nat list \<Rightarrow> nat \<Rightarrow> raid_state \<Rightarrow> bool" where
  "raid_dev_inv c ty as p st \<longleftrightarrow>
     raid_inv c ty as st \<and> raid_buf c as st p \<and> (\<forall>b<raid_capacity c ty. raid_available c ty st b)"

lemma raid_available_health:
  "(\<And>d. health st' d = health st d) \<Longrightarrow> raid_available c ty st' b = raid_available c ty st b"
  by (simp add: raid_available_def)

lemma raid_inv_fill_buffer:
  assumes inv: "raid_inv c ty as st" and buf: "raid_buf c as st p" and len: "length data = BSIZE"
  shows "raid_inv c ty as (st\<lparr>km := (km st)\<lparr>ram := store_bytes (pram st) p data\<rparr>\<rparr>)"
proof (rule raid_inv_effect [OF inv])
  show "effect c as st (platters st) (store_bytes (pram st) p data) (st\<lparr>km := (km st)\<lparr>ram := store_bytes (pram st) p data\<rparr>\<rparr>)"
    using buf_store_keeps_pages [OF raid_invD(4) [OF inv] _ len] buf by (simp add: effect_def raid_buf_def)
qed (use raid_invD(6) [OF inv] raid_buf_keeps_superblock [OF buf len] in auto)

interpretation raid_dev: block_device "raid_get c p" "raid_put c p" "raid_dev_inv c ty as p" "raid_contents c ty"
    "raid_capacity c ty"
proof (unfold_locales, goal_cases)
  case (1 st b)
  then have i: "raid_inv c ty as st" "raid_buf c as st p" "raid_available c ty st b" by (auto simp: raid_dev_inv_def)
  obtain st' where st': "rw_block c (superblock st) b p True st = Inr (0, st')" "raid_inv c ty as st'"
      "platters st' = platters st" "\<And>d. health st' d = health st d" "superblock st' = superblock st"
      "load_bytes (pram st') p BSIZE = raid_contents c ty st b"
    using rw_block_read_in_service [OF i(1) 1(2) i(2)] i(3) by auto
  have "raid_get c p b st = Inr (raid_contents c ty st b, st')"
    using st' load_metadata_in_service [OF i(1)] by (simp add: raid_get_def raid_call_def)
  moreover have "raid_dev_inv c ty as p st'"
    using st' 1(1) raid_available_health [of st' st] by (simp add: raid_dev_inv_def raid_buf_def)
  moreover have "raid_contents c ty st' e = raid_contents c ty st e" for e
    using st'(3,4) by (auto simp: raid_contents_def split: prod.split)
  ultimately show ?case by blast
next
  case (2 st b data)
  then have i: "raid_inv c ty as st" "raid_buf c as st p" "raid_available c ty st b" by (auto simp: raid_dev_inv_def)
  let ?st = "st\<lparr>km := (km st)\<lparr>ram := store_bytes (pram st) p data\<rparr>\<rparr>"
  have inv: "raid_inv c ty as ?st" using i(1,2) 2(3) by (rule raid_inv_fill_buffer)
  have av: "raid_available c ty ?st b" using i(3) by (simp add: raid_available_def)
  have data: "data = load_bytes (pram ?st) p BSIZE" using 2(3) by simp
  obtain st' where st': "rw_block c (superblock st) b p False ?st = Inr (0, st')" "raid_inv c ty as st'"
      "superblock st' = superblock st" "\<And>d. health st' d = health ?st d" "platters st' = raid_store c ty ?st b data"
    using rw_block_write_in_service [OF inv 2(2) _ data] i(2) av by (auto simp: raid_buf_def)
  have "raid_put c p b data st = Inr st'"
    using st' load_metadata_in_service [OF inv] by (simp add: raid_put_def raid_call_def)
  moreover have "raid_dev_inv c ty as p st'"
    using st' 2(1) raid_available_health [of st' st] by (simp add: raid_dev_inv_def raid_buf_def)
  moreover have "raid_contents c ty ?st e = raid_contents c ty st e" for e
    by (auto simp: raid_contents_def split: prod.split)
  then have "raid_contents c ty st' e = (if e = b then data else raid_contents c ty st e)"
    if "e < raid_capacity c ty" for e
    using raid_contents_store [OF raid_invD(1) [OF i(1)] 2(2) that st'(5,4)] by simp
  ultimately show ?case by blast
qed

text \<open>C1: Any script of block reads and writes below the capacity, run on an array in service of any level whose
  blocks are all available, returns without a fault exactly the blocks that the same script returns
  on a plain array of blocks.\<close>

theorem raid_refines_array:
  assumes "raid_inv c ty as st" and "raid_buf c as st p" and "\<forall>b<raid_capacity c ty. raid_available c ty st b"
    and "list_all (op_in_range (raid_capacity c ty)) ops"
  shows "\<exists>st'. device_run (raid_get c p) (raid_put c p) ops st = Inr (array_run (raid_contents c ty st) ops, st') \<and>
    raid_inv c ty as st'"
  using raid_dev.run_is_array_run [of c ty as p st ops "raid_contents c ty st"] assms
  by (auto simp: raid_dev_inv_def)

lemma demo_available: "raid_available small_machine ty (demo_state lvl) b"
  by (simp add: raid_available_def health_def demo_state_def HEALTHY_def UNITIALIZED_def)

theorem raid_refines_array_witness:
  "\<exists>st'. device_run (raid_get small_machine demo_buf) (raid_put small_machine demo_buf)
      [Put 7 (replicate BSIZE 9), Get 7, Get 8] (demo_state 4) =
    Inr ([replicate BSIZE 9, raid_contents small_machine RAID5 (demo_state 4) 8], st')"
proof -
  have "list_all (op_in_range (raid_capacity small_machine RAID5)) [Put 7 (replicate BSIZE 9), Get 7, Get 8]"
    by (simp add: demo_capacity)
  then show ?thesis
    using raid_refines_array [OF demo_inv [OF demo_types(5)] demo_raid_buf [unfolded demo_user_addr]] demo_available
    by fastforce
qed

section \<open>Failing a disk\<close>

lemma raid_fail_disk_eq:
  assumes "raid_inv c ty as st" and "disk_ok c (unat d)"
  shows "raid_fail_disk c d st = Inr (0, st\<lparr>disk_status := (disk_status st)(unat d := UNHEALTY)\<rparr>)"
  using assms(2) raid_invD(3) [OF assms(1)] by (simp add: raid_fail_disk_def disk_ok_def Let_def raid_read_def)

lemma raid_inv_status: "raid_inv c ty as (st\<lparr>disk_status := f\<rparr>) = raid_inv c ty as st"
  by (simp add: raid_inv_def sb_at_def)

lemma status_distinct:
  "UNHEALTY \<noteq> HEALTHY" "UNHEALTY \<noteq> UNITIALIZED" "RECOVERY \<noteq> HEALTHY" "RECOVERY \<noteq> UNITIALIZED"
  "HEALTHY \<noteq> UNITIALIZED" "HEALTHY \<noteq> UNHEALTY"
  by (simp_all add: HEALTHY_def UNHEALTY_def RECOVERY_def UNITIALIZED_def)

lemma health_fail:
  "health (st\<lparr>disk_status := (disk_status st)(d := UNHEALTY)\<rparr>) e = (if e = d then UNHEALTY else health st e)"
  by (simp add: health_def UNHEALTY_def UNITIALIZED_def)

text \<open>C26: In a mirrored array (RAID 1 or 0+1) whose copies agree, failing any one disk loses nothing: the
  array stays in service, every block keeps its contents, and every block whose pair has another healthy disk stays readable and
  writable.\<close>

theorem mirrored_array_survives_failure:
  assumes "raid_inv c ty as st" and "mirrored ty" and "mirrors_agree c ty st" and "disk_ok c (unat d)"
  shows "\<exists>st'. raid_fail_disk c d st = Inr (0, st') \<and> raid_inv c ty as st' \<and> health st' (unat d) = UNHEALTY \<and>
    (\<forall>b<raid_capacity c ty. raid_contents c ty st' b = raid_contents c ty st b \<and>
       ((\<exists>e\<in>{fst (raid_place c ty b), fst (raid_place c ty b) + data_disks c ty} - {unat d}. health st e = HEALTHY)
          \<longrightarrow> raid_available c ty st' b))"
proof -
  let ?st = "st\<lparr>disk_status := (disk_status st)(unat d := UNHEALTY)\<rparr>"
  have "raid_contents c ty ?st b = raid_contents c ty st b" if b: "b < raid_capacity c ty" for b
  proof -
    obtain e r where er: "raid_place c ty b = (e, r)" by fastforce
    have "health st e = HEALTHY \<longrightarrow> platters st (e + data_disks c ty) r = platters st e r"
      using assms(3) [unfolded mirrors_agree_def, rule_format, OF b] er by simp
    with er assms(2) show ?thesis by (simp add: raid_contents_def health_fail status_distinct)
  qed
  moreover have "raid_available c ty ?st b"
    if "\<exists>e\<in>{fst (raid_place c ty b), fst (raid_place c ty b) + data_disks c ty} - {unat d}. health st e = HEALTHY" for b
    using that assms(2) by (auto simp: raid_available_def Let_def health_fail)
  ultimately show ?thesis
    using raid_fail_disk_eq [OF assms(1,4)] raid_inv_status assms(1) health_fail [of st "unat d" "unat d"] by auto
qed

lemma demo_mirrors: "mirrors_agree small_machine ty (demo_state lvl)"
  by (auto simp: mirrors_agree_def demo_state_def)

theorem mirrored_array_survives_failure_witness:
  "\<exists>st'. raid_fail_disk small_machine 1 (demo_state 1) = Inr (0, st') \<and>
    (\<forall>b<raid_capacity small_machine RAID1.
       raid_contents small_machine RAID1 st' b = raid_contents small_machine RAID1 (demo_state 1) b)"
proof -
  have "mirrored RAID1" "disk_ok small_machine (unat 1)"
    by (simp_all add: mirrored_def disk_ok_def small_machine_def VIRTIO_RAID_DISK_START_def VIRTIO_RAID_DISK_END_def)
  from mirrored_array_survives_failure [OF demo_inv [OF demo_types(2)] this(1) demo_mirrors this(2)]
  show ?thesis by blast
qed

text \<open>C13: A write to an array in service keeps its redundancy, whether or not disks have failed: in a mirrored array the second
  copy of every block equals the first one wherever the first is in use, and in a RAID 4 or RAID 5 array the exclusive or over
  every stripe stays zero.\<close>

theorem raid_write_keeps_redundancy:
  assumes "raid_inv c ty as st" and "unat b < raid_capacity c ty" and "raid_buf c as st (user_addr pt va st)"
    and "raid_write_block c pt b va st = Inr (r, st')"
  shows "(mirrored ty \<and> mirrors_agree c ty st \<longrightarrow> mirrors_agree c ty st') \<and>
    (parity_level ty \<and> parity_ok c (platters st) \<longrightarrow> parity_ok c (platters st'))"
proof -
  let ?data = "load_bytes (pram st) (user_addr pt va st) BSIZE"
  have st': "\<And>d. health st' d = health st d"
      "platters st' = (if raid_available c ty st (unat b) then raid_store c ty st (unat b) ?data else platters st)"
    using rw_block_write_in_service [OF assms(1,2), of "user_addr pt va st"] assms(3,4)
      raid_rw_in_service [OF assms(1,2), of pt False va]
    unfolding raid_write_block_def raid_buf_def by auto
  note cfg = raid_invD(1) [OF assms(1)]
  have "mirrored ty \<and> mirrors_agree c ty st \<longrightarrow> mirrors_agree c ty st'"
    using st' mirrors_agree_store [OF cfg _ assms(2), of st st' ?data]
    by (auto simp: mirrors_agree_def split: if_splits)
  moreover have "parity_level ty \<and> parity_ok c (platters st) \<longrightarrow> parity_ok c (platters st')"
    using st'(2) parity_ok_store [OF cfg _ assms(2) raid_invD(6) [OF assms(1)], of ?data] by auto
  ultimately show ?thesis by blast
qed

lemma demo_parity: "parity_ok small_machine (platters (demo_state lvl))"
proof -
  have "row_xor (\<lambda>_ _. replicate BSIZE 0) is r = replicate BSIZE 0" for "is" r
    by (induction "is") auto
  then show ?thesis by (simp add: parity_ok_def demo_state_def)
qed

theorem raid_write_keeps_redundancy_witness:
  "\<exists>r st'. raid_write_block small_machine demo_pt 5 0 (demo_state 3) = Inr (r, st') \<and>
    parity_ok small_machine (platters st')"
proof -
  obtain r st' where w: "raid_write_block small_machine demo_pt 5 0 (demo_state 3) = Inr (r, st')"
    using rw_block_write_in_service [OF demo_inv [OF demo_types(4)] demo_block demo_buf_ok refl]
      raid_rw_in_service [OF demo_inv [OF demo_types(4)] demo_block, of demo_pt False 0]
    unfolding raid_write_block_def demo_user_addr by metis
  from raid_write_keeps_redundancy [OF demo_inv [OF demo_types(4)] demo_block demo_raid_buf w] w
  show ?thesis using demo_parity by (auto simp: parity_level_def)
qed

end
