(* ===== verification/Raid_Repair.thy ===== *)
theory Raid_Repair
  imports Raid_Properties
begin

text \<open>
  Repairing a disk with \<^verbatim>\<open>raid_repair_disk\<close>: the cases in which it rebuilds the disk, and the two in
  which the code does not do what it is meant to do.
\<close>

section \<open>Steps of a repair\<close>

lemma count_failed_ok:
  assumes "ready c as st" "\<forall>i\<in>set is. disk_ok c i"
  shows "\<exists>st'. count_failed c is k st = Inr (k + length (filter (\<lambda>i. health st i = UNHEALTY) is), st') \<and> quiet c as st st'"
  using assms
proof (induction "is" arbitrary: k st)
  case Nil
  then show ?case by (auto simp: ready_def intro: quiet_refl)
next
  case (Cons i "is")
  obtain st1 where st1: "get_disk_health c i st = Inr (health st i, st1)" "quiet c as st st1"
    using ready_health [of c as st i] Cons.prems by auto
  have "\<exists>st'. count_failed c is (if health st i = UNHEALTY then k + 1 else k) st1 =
      Inr ((if health st i = UNHEALTY then k + 1 else k) + length (filter (\<lambda>i. health st1 i = UNHEALTY) is), st') \<and>
      quiet c as st1 st'"
    by (rule Cons.IH) (use Cons.prems ready_quiet st1 in auto)
  with st1 quietD(5) [OF st1(2)] quiet_trans [OF st1(2)] show ?case by auto
qed

text \<open>
  The prologue of a repair: the health of the disk is looked up, the failed disks are counted, the
  superblock is read from the disk and its cached status becomes \<open>RECOVERY\<close>.
\<close>

definition repair_metadata :: "raid_state \<Rightarrow> nat \<Rightarrow> RAIDSuperblock" where
  "repair_metadata st d = (sb_of_bytes (platters st d 0))\<lparr>sb_disk_status := RECOVERY\<rparr>"

lemma raid_repair_starts:
  assumes inv: "raid_inv c ty as st" and d: "disk_ok c (unat d)" and h: "health st (unat d) \<noteq> HEALTHY"
  shows "\<exists>st1. quiet c as st st1 \<and>
    raid_repair_disk c d st =
      bindE (handle_recovery c (repair_metadata st (unat d))
          (length (filter (\<lambda>i. health st i = UNHEALTY) [1..<DISKS c + 1])) (unat d)
          (st1\<lparr>disk_status := (disk_status st1)(unat d := RECOVERY)\<rparr>))
        (\<lambda>(err, st). if err = -1 then Inr (-1, st)
           else Inr (0, st\<lparr>disk_status := (disk_status st)(unat d := HEALTHY)\<rparr>))"
proof -
  note rd = raid_inv_ready [OF inv]
  obtain st0 where st0: "get_disk_health c (unat d) st = Inr (health st (unat d), st0)" "quiet c as st st0"
    using rd d by (rule ready_health)
  have all: "\<forall>i\<in>set [1..<DISKS c + 1]. disk_ok c i"
    by (auto simp: disk_ok_def VIRTIO_RAID_DISK_START_def VIRTIO_RAID_DISK_END_def)
  obtain st1 where st1: "count_failed c [1..<DISKS c + 1] 0 st0 =
      Inr (length (filter (\<lambda>i. health st i = UNHEALTY) [1..<DISKS c + 1]), st1)" "quiet c as st0 st1"
    using count_failed_ok [OF ready_quiet [OF rd st0(2)] all, of 0] quietD(5) [OF st0(2)] by auto
  have q: "quiet c as st st1" using st0(2) st1(2) by (rule quiet_trans)
  have "raid_read c (unat d) 0 st1 = Inr (platters st (unat d) 0)"
    using d raid_invD(3) [OF inv] quietD(4) [OF q] by (simp add: raid_read_def)
  then have "raid_repair_disk c d st =
      bindE (handle_recovery c (repair_metadata st (unat d))
          (length (filter (\<lambda>i. health st i = UNHEALTY) [1..<DISKS c + 1])) (unat d)
          (st1\<lparr>disk_status := (disk_status st1)(unat d := RECOVERY)\<rparr>))
        (\<lambda>(err, st). if err = -1 then Inr (-1, st)
           else Inr (0, st\<lparr>disk_status := (disk_status st)(unat d := HEALTHY)\<rparr>))"
    using d h st0(1) st1(1)
    by (simp add: raid_repair_disk_def disk_ok_def Let_def repair_metadata_def VIRTIO_RAID_DISK_END_def
        cong: if_cong del: upt_Suc)
  with q show ?thesis by blast
qed

lemma health_status:
  "health (st\<lparr>disk_status := (disk_status st)(d := s)\<rparr>) e =
    (if e = d then (if s = UNITIALIZED then sb_disk_status (sb_of_bytes (platters st d 0)) else s) else health st e)"
  by (simp add: health_def)

lemma ready_status [simp]: "ready c as (st\<lparr>disk_status := f\<rparr>) = ready c as st"
  by (simp add: ready_def)

lemma raid_repair_finishes:
  assumes inv: "raid_inv c ty as st" and q: "quiet c as st st1"
    and eff: "effect c as (st1\<lparr>disk_status := f\<rparr>) ds (pram st1) st2" and wf: "wf_disks ds"
  shows "raid_inv c ty as (st2\<lparr>disk_status := g\<rparr>)"
proof -
  have "raid_inv c ty as (st1\<lparr>disk_status := f\<rparr>)"
    using raid_inv_quiet [OF inv q] by (simp add: raid_inv_status)
  then have "raid_inv c ty as st2" by (rule raid_inv_effect [OF _ eff wf]) simp
  then show ?thesis by (simp add: raid_inv_status)
qed

section \<open>Parity arrays\<close>

lemma row_from_parity:
  assumes wf: "wf_disks ds" and ok: "parity_ok c ds" and D: "1 \<le> DISKS c" and r: "0 < r" "r < blockPerDisk c"
  shows "row_xor ds [2..<DISKS c + 1] r = ds 1 r"
proof -
  have "[1..<DISKS c + 1] = 1 # [2..<DISKS c + 1]"
    using D upt_conv_Cons [of 1 "DISKS c + 1"] by (simp add: numeral_2_eq_2 del: upt_Suc)
  then have zero: "xorb (ds 1 r) (row_xor ds [2..<DISKS c + 1] r) = replicate BSIZE 0"
    using ok r by (simp add: parity_ok_def del: upt_Suc)
  have "xorb (ds 1 r) (xorb (ds 1 r) (row_xor ds [2..<DISKS c + 1] r)) = row_xor ds [2..<DISKS c + 1] r"
    using wf by (intro xorb_cancel) simp
  with zero wf show ?thesis by (simp del: upt_Suc)
qed

lemma handle_recovery_parity:
  assumes ty: "raid_type_of (raid_level sb) = Some ty" "parity_level ty"
    and par: "ty = RAID4 \<Longrightarrow> unat (scast (parrity_disk sb) :: u64) \<noteq> d" and k: "k \<le> 1"
  shows "handle_recovery c sb k d st = bindE (raid4_and_5_recovery c d st) (\<lambda>st. Inr (0, st))"
  using assms by (auto simp: handle_recovery_def Let_def parity_level_def)

text \<open>C27: In a RAID 4 or RAID 5 array, let \<open>ds\<close> be disk contents with correct parity. If disk 1 has failed, its data rows hold
  anything at all, and the other disks are healthy and hold what \<open>ds\<close> says, then \<^verbatim>\<open>raid_repair_disk(1)\<close>
  returns 0, the array stays in service with disk 1 healthy, and every disk holds \<open>ds\<close> again.\<close>

theorem raid_repair_restores_disk1:
  assumes "raid_inv c ty as st" and "parity_level ty"
    and "wf_disks ds" and "parity_ok c ds" and "sb_of_bytes (ds 1 0) = sb_at st (superblock st)"
    and "\<forall>d r. d \<noteq> 1 \<or> r = 0 \<longrightarrow> platters st d r = ds d r"
    and "health st 1 = UNHEALTY" and "\<forall>d\<in>{2..DISKS c}. health st d = HEALTHY"
  shows "\<exists>st'. raid_repair_disk c 1 st = Inr (0, st') \<and> raid_inv c ty as st' \<and> health st' 1 = HEALTHY \<and>
    (\<forall>d r. r < blockPerDisk c \<longrightarrow> platters st' d r = ds d r)"
proof -
  note inv = assms(1) and cfg = raid_invD(1) [OF assms(1)]
  have D: "3 \<le> DISKS c" using cfg assms(2) by (simp add: config_ok_def)
  have d1: "disk_ok c (unat (1 :: u64))"
    using D by (simp add: disk_ok_def VIRTIO_RAID_DISK_START_def VIRTIO_RAID_DISK_END_def)
  let ?k = "length (filter (\<lambda>i. health st i = UNHEALTY) [1..<DISKS c + 1])"
  have "[1..<DISKS c + 1] = 1 # [2..<DISKS c + 1]"
    using D upt_conv_Cons [of 1 "DISKS c + 1"] by (simp add: numeral_2_eq_2 del: upt_Suc)
  moreover have "filter (\<lambda>i. health st i = UNHEALTY) [2..<DISKS c + 1] = []"
    using assms(8) by (auto simp: filter_empty_conv status_distinct)
  ultimately have k: "?k \<le> 1" by (simp del: upt_Suc)
  have h1: "health st (unat (1 :: u64)) \<noteq> HEALTHY" using assms(7) status_distinct(1) by simp
  obtain st1 where st1: "quiet c as st st1" and eq: "raid_repair_disk c 1 st =
      bindE (handle_recovery c (repair_metadata st 1) ?k 1 (st1\<lparr>disk_status := (disk_status st1)(1 := RECOVERY)\<rparr>))
        (\<lambda>(err, st). if err = -1 then Inr (-1, st) else Inr (0, st\<lparr>disk_status := (disk_status st)(1 := HEALTHY)\<rparr>))"
    using raid_repair_starts [OF inv d1 h1, unfolded unsigned_1] by (elim exE conjE) (rule that)
  let ?st1 = "st1\<lparr>disk_status := (disk_status st1)(1 := RECOVERY)\<rparr>"
  note sb = raid_inv_sb [OF inv quiet_refl [OF raid_invD(4) [OF inv]]]
  have meta: "repair_metadata st 1 = (sb_at st (superblock st))\<lparr>sb_disk_status := RECOVERY\<rparr>"
    using assms(5,6) by (simp add: repair_metadata_def)
  have rd: "ready c as ?st1" using ready_quiet [OF raid_inv_ready [OF inv] st1] by simp
  let ?ds = "rebuilt (platters st) 1 [1..<blockPerDisk c] (row_xor (platters st) [2..<DISKS c + 1])"
  obtain st2 where st2: "raid4_and_5_recovery c 1 ?st1 = Inr st2" "effect c as ?st1 ?ds (pram st1) st2"
    using raid4_and_5_recovery_ok [OF rd D] quietD(4) [OF st1] by auto
  have "handle_recovery c (repair_metadata st 1) ?k 1 ?st1 = bindE (raid4_and_5_recovery c 1 ?st1) (\<lambda>st. Inr (0, st))"
  proof (rule handle_recovery_parity)
    show "raid_type_of (raid_level (repair_metadata st 1)) = Some ty" using sb(1) meta by simp
    show "unat (scast (parrity_disk (repair_metadata st 1)) :: u64) \<noteq> 1" if "ty = RAID4"
      using sb(3) [OF that] meta D by simp
  qed (use k assms(2) in auto)
  then have hr: "handle_recovery c (repair_metadata st 1) ?k 1 ?st1 = Inr (0, st2)" by (simp only: st2(1) bindE_simps)
  have res: "raid_repair_disk c 1 st = Inr (0, st2\<lparr>disk_status := (disk_status st2)(1 := HEALTHY)\<rparr>)"
    unfolding eq hr by simp
  have rows: "?ds d r = ds d r" if r: "r < blockPerDisk c" for d r
  proof (cases "d = 1 \<and> 0 < r")
    case True
    have "row_xor (platters st) [2..<DISKS c + 1] r = row_xor ds [2..<DISKS c + 1] r"
      using assms(6) by (intro row_xor_cong) auto
    also have "\<dots> = ds 1 r" using assms(3,4) D True r by (intro row_from_parity) auto
    finally show ?thesis using True r by (simp add: rebuilt_def del: upt_Suc)
  next
    case False
    with assms(6) show ?thesis by (auto simp: rebuilt_def)
  qed
  have wf: "wf_disks ?ds" using raid_invD(6) [OF inv] by simp
  show ?thesis
    using res raid_repair_finishes [OF inv st1 st2(2) wf] rows st2(2)
    by (auto simp: effect_def health_status status_distinct)
qed

definition lost_disk1 :: "u32 \<Rightarrow> raid_state" where
  "lost_disk1 lvl = (demo_state lvl)\<lparr>
     platters := (\<lambda>d r. if r = 0 then bytes_of_sb (demo_sb lvl) @ replicate (BSIZE - SB_SIZE) 5
                    else if d = 1 then replicate BSIZE 7 else replicate BSIZE 0),
     disk_status := (\<lambda>_. HEALTHY)(1 := UNHEALTY)\<rparr>"

lemma lost_disk1_inv:
  assumes "raid_type_of lvl = Some ty"
  shows "raid_inv small_machine ty demo_pages (lost_disk1 lvl)"
proof -
  have "wf_disks (platters (lost_disk1 lvl))"
    by (simp add: wf_disks_def lost_disk1_def SB_SIZE_def BSIZE_def)
  with demo_inv [OF assms] show ?thesis
    by (simp add: raid_inv_def lost_disk1_def sb_at_def)
qed

theorem raid_repair_restores_disk1_witness:
  "\<exists>st'. raid_repair_disk small_machine 1 (lost_disk1 4) = Inr (0, st') \<and>
    (\<forall>d r. 0 < r \<and> r < blockPerDisk small_machine \<longrightarrow> platters st' d r = replicate BSIZE 0)"
proof -
  let ?ds = "\<lambda>d r. if r = 0 then bytes_of_sb (demo_sb 4) @ replicate (BSIZE - SB_SIZE) 5 else replicate BSIZE 0"
  have "row_xor ?ds is r = replicate BSIZE 0" if "0 < r" for "is" r using that by (induction "is") auto
  then have "parity_ok small_machine ?ds" by (simp add: parity_ok_def)
  moreover have "wf_disks ?ds" by (simp add: wf_disks_def SB_SIZE_def BSIZE_def)
  moreover have "sb_of_bytes (?ds 1 0) = sb_at (lost_disk1 4) (superblock (lost_disk1 4))"
    using demo_sb_at [of 4] by (simp add: sb_of_bytes_bytes_of_sb lost_disk1_def sb_at_def demo_state_def)
  ultimately have "\<exists>st'. raid_repair_disk small_machine 1 (lost_disk1 4) = Inr (0, st') \<and>
      raid_inv small_machine RAID5 demo_pages st' \<and> health st' 1 = HEALTHY \<and>
      (\<forall>d r. r < blockPerDisk small_machine \<longrightarrow> platters st' d r = ?ds d r)"
    using lost_disk1_inv [OF demo_types(5)]
    by (intro raid_repair_restores_disk1)
      (auto simp: parity_level_def lost_disk1_def health_def status_distinct)
  then show ?thesis by force
qed

lemma ready_kalloc:
  assumes "ready c as st"
  shows "\<exists>p st'. raid_kalloc st = Inr (p, st')"
proof -
  from assms obtain a bs where as: "as = a # bs" by (cases as) (auto simp: ready_def)
  with assms have m: "machine_ok c" and inv: "kalloc_inv c (km st) (a # bs)" by (auto simp: ready_def)
  then obtain k where "kalloc (km st) = (a, k)" using kalloc_pops by blast
  moreover have "a \<noteq> 0" using inv page_word(2) [OF m] by (simp add: kalloc_inv_def)
  ultimately show ?thesis by (simp add: raid_kalloc_def)
qed

text \<open>C37: The recovery loop of RAID 4 and 5 only works for disk 1. For every other disk it takes the indices of
  the other disks modulo the number of disks plus one, comes to disk 0, which has no transfer buffer,
  and faults.\<close>

theorem raid4_and_5_recovery_faults:
  assumes "ready c as st" and "3 \<le> DISKS c" and "2 \<le> d" and "d \<le> DISKS c"
  shows "raid4_and_5_recovery c d st = Inl (Undefined ''null transfer_buffer'')"
proof -
  let ?D = "DISKS c"
  have b: "1 < blockPerDisk c" using assms(1) by (simp add: ready_def)
  have wf: "wf_disks (platters st)" using assms(1) by (simp add: ready_def)
  have null: "disk_access c 0 r = Inl (Undefined ''null transfer_buffer'')" for r
    by (simp add: disk_access_def VIRTIO_RAID_DISK_START_def)
  have rows: "[1..<blockPerDisk c] = 1 # [2..<blockPerDisk c]"
    using b upt_conv_Cons [of 1 "blockPerDisk c"] by (simp add: numeral_2_eq_2)
  have first_row: "raid4_and_5_recovery c d st = Inl e"
    if "bindE (raid_read c ((d + 1) mod (?D + 1)) 1 st) (\<lambda>blk.
      forE [1..<?D - 1] (\<lambda>j. recovery_xor c (((d + 1) mod (?D + 1) + j) mod (?D + 1)) 1) (blk, st)) = Inl e" for e
    using that unfolding raid4_and_5_recovery_def rows VIRTIO_RAID_DISK_END_def Let_def
    by (auto simp: bindE_Inl_iff)
  show ?thesis
  proof (cases "d = ?D")
    case True
    then show ?thesis by (intro first_row) (simp add: raid_read_def read_block_def null)
  next
    case False
    then have d: "d < ?D" using assms(4) by simp
    let ?g = "\<lambda>j. (d + 1 + j) mod (?D + 1)"
    have dd: "(d + 1) mod (?D + 1) = d + 1" using d by simp
    have ok: "disk_ok c (d + 1)"
      using d by (simp add: disk_ok_def VIRTIO_RAID_DISK_START_def VIRTIO_RAID_DISK_END_def)
    have split: "[1..<?D - 1] = [1..<?D - d] @ (?D - d) # [Suc (?D - d)..<?D - 1]"
    proof -
      have "[1..<?D - 1] = [1..<?D - d] @ [?D - d..<?D - 1]"
        using d assms(3) upt_add_eq_append [of 1 "?D - d" "d - 1"] by simp
      moreover have "[?D - d..<?D - 1] = (?D - d) # [Suc (?D - d)..<?D - 1]"
        using d assms(3) by (intro upt_conv_Cons) simp
      ultimately show ?thesis by simp
    qed
    have pre: "disk_ok c (?g j)" if "j \<in> set [1..<?D - d]" for j
    proof -
      have "d + 1 + j < ?D + 1" using that by auto
      then show ?thesis by (simp add: disk_ok_def VIRTIO_RAID_DISK_START_def VIRTIO_RAID_DISK_END_def)
    qed
    obtain st1 where st1: "forE [1..<?D - d] (\<lambda>j. recovery_xor c (?g j) 1) (platters st (d + 1) 1, st) =
        Inr (xorb (platters st (d + 1) 1) (row_xor (platters st) (map ?g [1..<?D - d]) 1), st1)" "quiet c as st st1"
      using recovery_row_ok [of c as st "[1..<?D - d]" ?g 1 "platters st (d + 1) 1", OF assms(1) pre b] wf wf_disksD
      by blast
    have "?g (?D - d) = 0" using d by simp
    moreover have "\<exists>p st2. raid_kalloc st1 = Inr (p, st2)"
      using ready_quiet [OF assms(1) st1(2)] by (rule ready_kalloc)
    ultimately have "recovery_xor c (?g (?D - d)) 1 (blk, st1) = Inl (Undefined ''null transfer_buffer'')" for blk
      by (auto simp: recovery_xor_def read_into_def raid_read_def read_block_def null)
    then have "forE [1..<?D - 1] (\<lambda>j. recovery_xor c (?g j) 1) (platters st (d + 1) 1, st) =
        Inl (Undefined ''null transfer_buffer'')"
      unfolding split forE_append st1(1) by simp
    with ok b show ?thesis by (intro first_row) (simp only: dd raid_read_def read_block_ok bindE_simps)
  qed
qed

theorem raid4_and_5_recovery_faults_witness:
  "raid4_and_5_recovery small_machine 3 (demo_state 4) = Inl (Undefined ''null transfer_buffer'')"
proof -
  have "3 \<le> DISKS small_machine" by (simp add: small_machine_def)
  with raid4_and_5_recovery_faults [OF raid_inv_ready [OF demo_inv [OF demo_types(5)]], of 3] show ?thesis by simp
qed

section \<open>Mirrored arrays\<close>

definition partner :: "nat \<Rightarrow> nat \<Rightarrow> nat" where
  "partner n d = (if d > n then d - n else d + n)"

lemma handle_recovery_mirrored:
  assumes ty: "raid_type_of (raid_level sb) = Some ty" "mirrored ty" and n: "unat (num_of_disks sb) = n" "d \<noteq> n"
  shows "handle_recovery c sb k d st = bindE (get_disk_health c (partner n d) st) (\<lambda>(h, st).
    if h \<noteq> HEALTHY then Inr (-1, st) else bindE (mirrorRecovery c (partner n d) d st) (\<lambda>st. Inr (0, st)))"
proof -
  have "partner n d = (if d \<ge> n then d - n else d + n)" using n(2) by (simp add: partner_def)
  with ty n(1) show ?thesis unfolding handle_recovery_def Let_def mirrored_def by (elim disjE) (simp_all cong: if_cong)
qed

lemma repair_metadata_in_service:
  assumes inv: "raid_inv c ty as st" and sb: "sb_of_bytes (platters st d 0) = sb_at st (superblock st)"
  shows "raid_type_of (raid_level (repair_metadata st d)) = Some ty" "unat (num_of_disks (repair_metadata st d)) = data_disks c ty"
  using raid_inv_sb(1,2) [OF inv quiet_refl [OF raid_invD(4) [OF inv]]] sb by (simp_all add: repair_metadata_def nd_def)

lemma get_disk_health_status:
  "get_disk_health c p st = Inr (h, st') \<Longrightarrow> e \<noteq> p \<Longrightarrow> disk_status st' e = disk_status st e"
  by (auto simp: get_disk_health_def raid_kalloc_def raid_kfree_def put_mem_def Let_def bindE_Inr_iff split: if_splits prod.splits)

lemma rebuilt_contents:
  assumes cfg: "config_ok c ty" and ty: "mirrored ty" and b: "b < raid_capacity c ty"
    and dead: "health st d \<noteq> HEALTHY" "health st (partner (data_disks c ty) d) = HEALTHY"
    and st': "platters st' = rebuilt (platters st) d [0..<blockPerDisk c] (platters st (partner (data_disks c ty) d))"
      "\<And>e. health st' e = (if e = d then HEALTHY else health st e)"
  shows "raid_contents c ty st' b = raid_contents c ty st b"
proof -
  obtain e r where er: "raid_place c ty b = (e, r)" by fastforce
  have e: "1 \<le> e" "e \<le> data_disks c ty" "r < blockPerDisk c"
    using raid_place_range [OF b] er ty by (auto simp: mirrored_def split: if_splits)
  show ?thesis
  proof (cases "e = d")
    case True
    then have "partner (data_disks c ty) d = e + data_disks c ty" using e by (simp add: partner_def)
    with True dead(1) er e ty st' show ?thesis by (simp add: raid_contents_def rebuilt_def)
  next
    case False
    show ?thesis
    proof (cases "e + data_disks c ty = d")
      case True
      then have "partner (data_disks c ty) d = e" using e by (simp add: partner_def)
      with True False er e ty st' dead show ?thesis by (auto simp: raid_contents_def rebuilt_def)
    next
      case other: False
      with False er e ty st' show ?thesis by (auto simp: raid_contents_def rebuilt_def)
    qed
  qed
qed

text \<open>C28: Repairing a failed disk of a mirrored array whose partner is healthy returns 0 and makes the disk a copy
  of its partner; the array stays in service with the disk healthy and every block keeps its contents. This holds for every
  disk except the last one of the first half.\<close>

theorem mirrored_repair_copies_partner:
  assumes "raid_inv c ty as st" and "mirrored ty" and "1 \<le> unat d" and "unat d \<le> 2 * data_disks c ty"
    and "unat d \<noteq> data_disks c ty" and "health st (unat d) = UNHEALTY"
    and "health st (partner (data_disks c ty) (unat d)) = HEALTHY"
    and "sb_of_bytes (platters st (unat d) 0) = sb_at st (superblock st)"
  shows "\<exists>st'. raid_repair_disk c d st = Inr (0, st') \<and> raid_inv c ty as st' \<and> health st' (unat d) = HEALTHY \<and>
    (\<forall>r<blockPerDisk c. platters st' (unat d) r = platters st (partner (data_disks c ty) (unat d)) r) \<and>
    (\<forall>b<raid_capacity c ty. raid_contents c ty st' b = raid_contents c ty st b)"
proof -
  note inv = assms(1) and cfg = raid_invD(1) [OF assms(1)]
  let ?d = "unat d" and ?n = "data_disks c ty"
  let ?p = "partner ?n ?d"
  have n: "2 * ?n \<le> DISKS c" "0 < ?n" using config_bounds(2,6) [OF cfg] assms(2) by auto
  have ok: "disk_ok c ?d" "disk_ok c ?p" "?p \<noteq> ?d"
    using assms(3-5) n
    by (auto simp: partner_def disk_ok_def VIRTIO_RAID_DISK_START_def VIRTIO_RAID_DISK_END_def)
  have dead: "health st ?d \<noteq> HEALTHY" using assms(6) status_distinct(1) by simp
  let ?k = "length (filter (\<lambda>i. health st i = UNHEALTY) [1..<DISKS c + 1])"
  obtain st1 where st1: "quiet c as st st1" and eq: "raid_repair_disk c d st =
      bindE (handle_recovery c (repair_metadata st ?d) ?k ?d (st1\<lparr>disk_status := (disk_status st1)(?d := RECOVERY)\<rparr>))
        (\<lambda>(err, st). if err = -1 then Inr (-1, st) else Inr (0, st\<lparr>disk_status := (disk_status st)(?d := HEALTHY)\<rparr>))"
    using raid_repair_starts [OF inv ok(1) dead] by (elim exE conjE) (rule that)
  let ?st1 = "st1\<lparr>disk_status := (disk_status st1)(?d := RECOVERY)\<rparr>"
  have rd: "ready c as ?st1" using ready_quiet [OF raid_inv_ready [OF inv] st1] by simp
  have hp: "health ?st1 ?p = HEALTHY" using ok(3) assms(7) quietD(5) [OF st1] by (simp add: health_status)
  obtain st2 where st2: "get_disk_health c ?p ?st1 = Inr (HEALTHY, st2)" "quiet c as ?st1 st2"
    using ready_health [OF rd ok(2)] hp by auto
  have status: "disk_status st2 ?d = RECOVERY"
    using get_disk_health_status [OF st2(1), of ?d] ok(3) by simp
  let ?ds = "rebuilt (platters st) ?d [0..<blockPerDisk c] (platters st ?p)"
  have pl: "platters st2 = platters st" using quietD(4) [OF st2(2)] quietD(4) [OF st1] by simp
  obtain st3 where st3: "mirrorRecovery c ?p ?d st2 = Inr st3" "disk_status st3 = disk_status st2"
      "effect c as st2 ?ds (pram st2) st3"
    using mirrorRecovery_ok [OF ready_quiet [OF rd st2(2)] ok(2,1) ok(3)] status status_distinct(4) pl by auto
  have eff: "effect c as ?st1 ?ds (pram st1) st3"
    using quiet_then_effect [OF st2(2) st3(3) quiet_outside [OF st2(2)]] by simp
  have "handle_recovery c (repair_metadata st ?d) ?k ?d ?st1 = Inr (0, st3)"
    using handle_recovery_mirrored [OF repair_metadata_in_service(1) [OF inv assms(8)] assms(2)
        repair_metadata_in_service(2) [OF inv assms(8)] assms(5)] st2(1) st3(1)
    by (simp del: upt_Suc)
  then have res: "raid_repair_disk c d st = Inr (0, st3\<lparr>disk_status := (disk_status st3)(?d := HEALTHY)\<rparr>)"
    unfolding eq by simp
  let ?st' = "st3\<lparr>disk_status := (disk_status st3)(?d := HEALTHY)\<rparr>"
  have wf: "wf_disks ?ds" using raid_invD(6) [OF inv] by simp
  have pl': "platters ?st' = ?ds" using eff by (simp add: effect_def)
  have h': "health ?st' e = (if e = ?d then HEALTHY else health st e)" for e
    using eff quietD(5) [OF st1] by (simp add: health_status status_distinct effect_def)
  have "raid_contents c ty ?st' b = raid_contents c ty st b" if "b < raid_capacity c ty" for b
    using cfg assms(2) that dead assms(7) pl' h' by (rule rebuilt_contents)
  moreover have "raid_inv c ty as ?st'" by (rule raid_repair_finishes [OF inv st1 eff wf])
  moreover have "platters ?st' ?d r = platters st ?p r" if "r < blockPerDisk c" for r
    using that unfolding pl' by (simp add: rebuilt_def)
  ultimately show ?thesis using res h' by auto
qed

definition lost_disk3 :: raid_state where
  "lost_disk3 = (lost_disk1 1)\<lparr>disk_status := (\<lambda>_. HEALTHY)(3 := UNHEALTY)\<rparr>"

theorem mirrored_repair_copies_partner_witness:
  "\<exists>st'. raid_repair_disk small_machine 3 lost_disk3 = Inr (0, st') \<and>
    (\<forall>r<blockPerDisk small_machine. platters st' 3 r = platters lost_disk3 1 r)"
proof -
  have "raid_inv small_machine RAID1 demo_pages lost_disk3"
    using lost_disk1_inv [OF demo_types(2)] by (simp add: lost_disk3_def raid_inv_status)
  moreover have "sb_of_bytes (platters lost_disk3 3 0) = sb_at lost_disk3 (superblock lost_disk3)"
    using demo_sb_at [of 1] by (simp add: sb_of_bytes_bytes_of_sb lost_disk3_def lost_disk1_def sb_at_def demo_state_def)
  ultimately show ?thesis
    using mirrored_repair_copies_partner [of small_machine RAID1 demo_pages lost_disk3 3]
    by (auto simp: mirrored_def demo_capacity lost_disk3_def health_def partner_def status_distinct)
qed

text \<open>C38: The last disk of the first half of a mirrored array is never repaired: \<^verbatim>\<open>handle_recovery\<close> compares with
  \<^verbatim>\<open>>=\<close> instead of \<^verbatim>\<open>>\<close>, takes disk 0 for its partner and the repair returns -1 without touching the disks, even when the partner is healthy.\<close>

theorem mirrored_repair_refuses_middle_disk:
  assumes "raid_inv c ty as st" and "mirrored ty" and "unat d = data_disks c ty"
    and "health st (unat d) = UNHEALTY" and "sb_of_bytes (platters st (unat d) 0) = sb_at st (superblock st)"
  shows "\<exists>st'. raid_repair_disk c d st = Inr (-1, st') \<and> platters st' = platters st \<and> health st' (unat d) = RECOVERY"
proof -
  note inv = assms(1) and cfg = raid_invD(1) [OF assms(1)]
  let ?d = "unat d" and ?n = "data_disks c ty"
  have ok: "disk_ok c ?d"
    using config_bounds(2,3) [OF cfg] assms(3)
    by (simp add: disk_ok_def VIRTIO_RAID_DISK_START_def VIRTIO_RAID_DISK_END_def)
  have dead: "health st ?d \<noteq> HEALTHY" using assms(4) status_distinct(1) by simp
  let ?k = "length (filter (\<lambda>i. health st i = UNHEALTY) [1..<DISKS c + 1])"
  obtain st1 where st1: "quiet c as st st1" and eq: "raid_repair_disk c d st =
      bindE (handle_recovery c (repair_metadata st ?d) ?k ?d (st1\<lparr>disk_status := (disk_status st1)(?d := RECOVERY)\<rparr>))
        (\<lambda>(err, st). if err = -1 then Inr (-1, st) else Inr (0, st\<lparr>disk_status := (disk_status st)(?d := HEALTHY)\<rparr>))"
    using raid_repair_starts [OF inv ok dead] by (elim exE conjE) (rule that)
  let ?st1 = "st1\<lparr>disk_status := (disk_status st1)(?d := RECOVERY)\<rparr>"
  have "get_disk_health c 0 ?st1 = Inr (-1, ?st1)"
    by (simp add: get_disk_health_bad disk_ok_def VIRTIO_RAID_DISK_START_def)
  then have "handle_recovery c (repair_metadata st ?d) ?k ?d ?st1 = Inr (-1, ?st1)"
    using repair_metadata_in_service [OF inv assms(5)] assms(2,3)
    by (auto simp: handle_recovery_def Let_def mirrored_def HEALTHY_def simp del: upt_Suc)
  then have "raid_repair_disk c d st = Inr (-1, ?st1)" unfolding eq by simp
  then show ?thesis using quietD(4) [OF st1] by (simp add: health_status status_distinct)
qed

theorem mirrored_repair_refuses_middle_disk_witness:
  "\<exists>st'. raid_repair_disk small_machine 2 ((lost_disk1 1)\<lparr>disk_status := (\<lambda>_. HEALTHY)(2 := UNHEALTY)\<rparr>) = Inr (-1, st')"
proof -
  let ?st = "(lost_disk1 1)\<lparr>disk_status := (\<lambda>_. HEALTHY)(2 := UNHEALTY)\<rparr>"
  have "raid_inv small_machine RAID1 demo_pages ?st"
    using lost_disk1_inv [OF demo_types(2)] by (simp add: raid_inv_status)
  moreover have "sb_of_bytes (platters ?st 2 0) = sb_at ?st (superblock ?st)"
    using demo_sb_at [of 1] by (simp add: sb_of_bytes_bytes_of_sb lost_disk1_def sb_at_def demo_state_def)
  ultimately show ?thesis
    using mirrored_repair_refuses_middle_disk [of small_machine RAID1 demo_pages ?st 2]
    by (auto simp: mirrored_def demo_capacity health_def status_distinct)
qed

end
