(* ===== verification/Raid_Lifecycle.thy ===== *)
theory Raid_Lifecycle
  imports Raid_Repair
begin

text \<open>
  The life of an array: \<^verbatim>\<open>raid_system_init\<close> puts it in service, its superblock brings it back after a
  restart, \<^verbatim>\<open>raid_system_destroy\<close> removes it. The last section has the error returns of the calls and the
  two places where they disagree with the intent of the code.
\<close>

section \<open>Initialisation\<close>

definition with_row0 :: "disks \<Rightarrow> nat list \<Rightarrow> block \<Rightarrow> disks" where
  "with_row0 ds is blk = (\<lambda>d r. if r = 0 \<and> d \<in> set is then blk else ds d r)"

lemma with_row0_simps [simp]:
  "with_row0 ds [] blk = ds" "upd (with_row0 ds is blk) d 0 blk = with_row0 ds (is @ [d]) blk"
  by (auto simp: with_row0_def upd_def fun_eq_iff)

lemma wf_with_row0 [simp]: "wf_disks ds \<Longrightarrow> length blk = BSIZE \<Longrightarrow> wf_disks (with_row0 ds is blk)"
  by (simp add: wf_disks_def with_row0_def)

lemma raid_disks_ok: "i \<in> set [VIRTIO_RAID_DISK_START..<VIRTIO_RAID_DISK_END c + 1] \<longleftrightarrow> disk_ok c i"
  by (auto simp: disk_ok_def)

lemma write_row0_ok:
  assumes "\<And>i. i \<in> set is \<Longrightarrow> disk_ok c i"
    and "\<And>i st. disk_ok c i \<Longrightarrow> pram st = m \<Longrightarrow> f i st = Inr (st\<lparr>platters := upd (platters st) i 0 blk\<rparr>)"
    and "pram st = m"
  shows "forE is f st = Inr (st\<lparr>platters := with_row0 (platters st) is blk\<rparr>)"
proof -
  have "\<exists>t. forE is f st = Inr t \<and> t = st\<lparr>platters := with_row0 (platters st) is blk\<rparr>"
  proof (rule forE_rule, goal_cases)
    case (2 xs i rest t)
    then have "f i t = Inr (t\<lparr>platters := upd (platters t) i 0 blk\<rparr>)" using assms by simp
    with 2 show ?case by simp
  qed simp
  then show ?thesis by simp
qed

lemma raid_system_init_ok:
  assumes "config_ok c ty" and "raid_type_of lvl = Some ty" and "kalloc_inv c (km st) (a # as)" and "as \<noteq> []"
    and "wf_disks (platters st)" and "\<forall>i. \<not> disk_locks st i"
  shows "\<exists>st' sb. raid_system_init c lvl st = Inr (0, st') \<and> raid_inv c ty as st' \<and> superblock st' = a \<and>
    raid_init_superblock c lvl = Inr sb \<and> sb_at st' a = sb \<and>
    (\<forall>d r. if disk_ok c d \<and> r = 0 then sb_of_bytes (platters st' d r) = sb else platters st' d r = platters st d r)"
proof -
  have m: "machine_ok c" and bpd: "0 < blockPerDisk c" using assms(1) by (auto simp: config_ok_def)
  obtain sb where sb: "raid_init_superblock c lvl = Inr sb"
    using assms(1,2)
    by (cases ty) (auto simp: raid_init_superblock_def Let_def config_ok_def mirrored_def parity_level_def
        VIRTIO_RAID_DISK_END_def)
  obtain k1 where k1: "kalloc (km st) = (a, k1)" "kalloc_inv c k1 as"
    using kalloc_pops [OF m assms(3)] by blast
  have a: "page_ok c a" "a \<noteq> 0" "a \<notin> set as" using assms(3) page_word(2) [OF m] by (auto simp: kalloc_inv_def)
  let ?m = "store_bytes (ram k1) a (bytes_of_sb sb)"
  let ?blk = "load_bytes ?m a BSIZE"
  have blk: "take SB_SIZE ?blk = bytes_of_sb sb"
  proof -
    have "take SB_SIZE ?blk = load_bytes ?m a SB_SIZE"
      by (rule nth_equalityI) (simp_all add: SB_SIZE_def BSIZE_def store_bytes_def)
    then show ?thesis by simp
  qed
  have sbblk: "sb_of_bytes ?blk = sb"
    using sb_of_bytes_take [of ?blk] blk sb_of_bytes_bytes_of_sb [of sb "[]"] by (simp add: SB_SIZE_def BSIZE_def)
  let ?st1 = "st\<lparr>km := k1\<lparr>ram := ?m\<rparr>\<rparr>"
  let ?is = "[VIRTIO_RAID_DISK_START..<VIRTIO_RAID_DISK_END c + 1]"
  let ?st = "?st1\<lparr>platters := with_row0 (platters st) ?is ?blk, superblock := a, is_init := 1\<rparr>"
  have map: "mapped c a BSIZE" "mapped c a SB_SIZE"
    by (rule page_mapped [OF m a(1)]; simp add: BSIZE_def SB_SIZE_def PGSIZE_def)+
  have "forE ?is (\<lambda>i. write_from c i 0 a) ?st1 = Inr (?st1\<lparr>platters := with_row0 (platters ?st1) ?is ?blk\<rparr>)"
    by (rule write_row0_ok [where m = ?m and c = c])
      (use bpd raid_disks_ok map(1) in \<open>auto simp: write_from_eq simp del: upt_Suc\<close>)
  then have res: "raid_system_init c lvl st = Inr (0, ?st)"
    using k1(1) a sb map(2) by (simp add: raid_system_init_def raid_kalloc_def put_mem_def del: upt_Suc)
  have k2: "kalloc_inv c (k1\<lparr>ram := ?m\<rparr>) as"
    using k1(2) a(1,3) by (rule kalloc_inv_other_ram)
      (auto simp: store_bytes_def in_page_def SB_SIZE_def PGSIZE_def)
  have sbat: "sb_at ?st a = sb"
    using sb_of_bytes_bytes_of_sb [of sb "[]"] by (simp add: sb_at_def)
  have inv: "raid_inv c ty as ?st"
    using assms(1,2,4-6) k2 a sb sbat by (auto simp: raid_inv_def simp del: upt_Suc)
  have rows: "if disk_ok c d \<and> r = 0 then sb_of_bytes (platters ?st d r) = sb else platters ?st d r = platters st d r" for d r
    using sbblk raid_disks_ok [of d c] by (auto simp: with_row0_def simp del: upt_Suc set_upt)
  show ?thesis
    by (intro exI [of _ ?st] exI [of _ sb] conjI allI, rule res, rule inv, simp, rule sb, rule sbat, rule rows)
qed

text \<open>C33: \<^verbatim>\<open>raid_system_init\<close> with a level that the number of disks allows returns 0 and puts the array in service: one page
  now holds the superblock, every other free page is still free, and block 0 of every disk of the array
  starts with the superblock, while all other blocks are untouched.\<close>

theorem raid_system_init_in_service:
  assumes "config_ok c ty" and "raid_type_of lvl = Some ty" and "kalloc_inv c (km st) (a # as)" and "as \<noteq> []"
    and "wf_disks (platters st)" and "\<forall>i. \<not> disk_locks st i"
  shows "\<exists>st' sb. raid_system_init c lvl st = Inr (0, st') \<and> raid_inv c ty as st' \<and> superblock st' = a \<and>
    raid_init_superblock c lvl = Inr sb \<and> sb_at st' a = sb \<and>
    (\<forall>d r. if disk_ok c d \<and> r = 0 then sb_of_bytes (platters st' d r) = sb else platters st' d r = platters st d r)"
  by (rule raid_system_init_ok [OF assms])

lemma demo_kmem_inv: "kalloc_inv small_machine (km (demo_state lvl)) ((KERNBASE + 8 * PGSIZE) # [KERNBASE + 4 * PGSIZE])"
  using demo_pages_inv by (simp add: demo_pages_def)

theorem raid_system_init_in_service_witness:
  "\<exists>st' sb. raid_system_init small_machine 4 (demo_state 0) = Inr (0, st') \<and>
    raid_inv small_machine RAID5 [KERNBASE + 4 * PGSIZE] st' \<and> sb_at st' (superblock st') = sb \<and> raid_level sb = 4"
proof -
  have "wf_disks (platters (demo_state 0))" "\<forall>i. \<not> disk_locks (demo_state 0) i"
    by (simp_all add: demo_state_def wf_disks_def)
  from raid_system_init_in_service [OF demo_config demo_types(5) demo_kmem_inv _ this] show ?thesis
    using init_superblock_fields(1) [OF demo_config demo_types(5)] by fastforce
qed

section \<open>Restart\<close>

text \<open>C34: After \<^verbatim>\<open>raid_system_init\<close>, a restart that keeps only the disks (fresh memory, \<^verbatim>\<open>init_raid_device\<close> run again, at least
  two disks) finds the array again: the first call reads the superblock from disk 1 and the array is in
  service with the same level and geometry.\<close>

theorem superblock_survives_restart:
  assumes "config_ok c ty" and "raid_type_of lvl = Some ty" and "kalloc_inv c (km st) (a # as)" and "as \<noteq> []"
    and "wf_disks (platters st)" and "\<forall>i. \<not> disk_locks st i" and "2 \<le> DISKS c"
    and "raid_system_init c lvl st = Inr (0, st1)"
    and "kalloc_inv c (km st2) (b # bs)" and "bs \<noteq> []" and "platters st2 = platters st1" and "\<forall>i. \<not> disk_locks st2 i"
  shows "\<exists>st3. load_metadata c (init_raid_device c st2) = Inr (Some b, st3) \<and> raid_inv c ty bs st3 \<and>
    sb_at st3 b = sb_at st1 (superblock st1) \<and> platters st3 = platters st1"
proof -
  have m: "machine_ok c" and bpd: "0 < blockPerDisk c" using assms(1) by (auto simp: config_ok_def)
  obtain sb where st1: "raid_inv c ty as st1" "superblock st1 = a" "raid_init_superblock c lvl = Inr sb" "sb_at st1 a = sb"
      "sb_of_bytes (platters st1 1 0) = sb"
    using raid_system_init_ok [OF assms(1-6)] assms(7,8)
    by (auto simp: disk_ok_def VIRTIO_RAID_DISK_START_def VIRTIO_RAID_DISK_END_def)
  have ok1: "disk_ok c 1" using assms(7) by (simp add: disk_ok_def VIRTIO_RAID_DISK_START_def VIRTIO_RAID_DISK_END_def)
  obtain k1 where k1: "kalloc (km st2) = (b, k1)" "kalloc_inv c k1 bs"
    using kalloc_pops [OF m assms(9)] by blast
  have b: "page_ok c b" "b \<noteq> 0" "b \<notin> set bs" using assms(9) page_word(2) [OF m] by (auto simp: kalloc_inv_def)
  let ?blk = "platters st1 1 0"
  let ?m = "store_bytes (ram k1) b ?blk"
  have len: "length ?blk = BSIZE" using raid_invD(6) [OF st1(1)] by simp
  have ld: "sb_of_bytes (load_bytes ?m b SB_SIZE) = sb" "load_bytes ?m b SB_SIZE = take SB_SIZE ?blk"
  proof -
    show *: "load_bytes ?m b SB_SIZE = take SB_SIZE ?blk"
      by (rule nth_equalityI) (use len in \<open>simp_all add: store_bytes_def SB_SIZE_def BSIZE_def\<close>)
    show "sb_of_bytes (load_bytes ?m b SB_SIZE) = sb"
      unfolding * using sb_of_bytes_take [of ?blk] len st1(5) by (simp add: SB_SIZE_def BSIZE_def)
  qed
  have nz: "load_bytes ?m b SB_SIZE \<noteq> replicate SB_SIZE 0"
    using ld(1) init_superblock_blk_size [OF st1(3)] zero_superblock by auto
  let ?st0 = "init_raid_device c st2"
  define st3 where "st3 = ?st0\<lparr>km := k1\<lparr>ram := ?m\<rparr>, superblock := b, is_init := 1,
    disk_status := (disk_status ?st0)(0 := sb_disk_status sb)\<rparr>"
  have st0: "is_init ?st0 = -1" "superblock ?st0 = 0" "km ?st0 = km st2" "platters ?st0 = platters st1"
      "\<not> disk_locks ?st0 i" for i
    using assms(7,11,12) by (simp_all add: init_raid_device_def Let_def VIRTIO_RAID_DISK_END_def)
  have "load_metadata c ?st0 = Inr (Some b, st3)"
    using k1(1) b ok1 bpd page_mapped [OF m b(1) BSIZE_le_PGSIZE] len nz ld(1)
    by (simp add: load_metadata_def st0 raid_kalloc_def raid_read_def put_mem_def is_raid_uninitialized_def
        Let_def sb_at_def st3_def)
  moreover have "raid_inv c ty bs st3"
  proof -
    have "kalloc_inv c (k1\<lparr>ram := ?m\<rparr>) bs"
      using k1(2) b(1,3) len by (intro kalloc_inv_other_ram [of c k1 bs b])
        (auto simp: store_bytes_outside in_page_def BSIZE_def PGSIZE_def)
    then show ?thesis
      using assms(1,2,10) b st1(3) ld(1) raid_invD(6) [OF st1(1)]
      by (auto simp: raid_inv_def st3_def st0 sb_at_def)
  qed
  ultimately show ?thesis using st1(2,4) ld(1) st0(4) by (auto simp: sb_at_def st3_def)
qed

theorem superblock_survives_restart_witness:
  "\<exists>st1 st3. raid_system_init small_machine 1 (demo_state 0) = Inr (0, st1) \<and>
    load_metadata small_machine (init_raid_device small_machine ((demo_state 0)\<lparr>platters := platters st1\<rparr>)) =
      Inr (Some (KERNBASE + 8 * PGSIZE), st3) \<and> sb_at st3 (KERNBASE + 8 * PGSIZE) = sb_at st1 (superblock st1)"
proof -
  have i: "wf_disks (platters (demo_state 0))" "\<forall>i. \<not> disk_locks (demo_state 0) i" "2 \<le> DISKS small_machine"
    by (simp_all add: demo_state_def wf_disks_def small_machine_def)
  obtain st1 where st1: "raid_system_init small_machine 1 (demo_state 0) = Inr (0, st1)"
    using raid_system_init_ok [OF demo_config demo_types(2) demo_kmem_inv _ i(1,2)] by auto
  have "kalloc_inv small_machine (km ((demo_state 0)\<lparr>platters := platters st1\<rparr>)) ((KERNBASE + 8 * PGSIZE) # [KERNBASE + 4 * PGSIZE])"
    using demo_kmem_inv by simp
  from superblock_survives_restart [OF demo_config demo_types(2) demo_kmem_inv _ i st1 this] st1 i(2) show ?thesis
    by fastforce
qed

section \<open>Destruction\<close>

lemma load_metadata_destroyed:
  assumes inv: "kalloc_inv c (km st) (a # as)" and m: "machine_ok c" and bpd: "0 < blockPerDisk c" and D: "1 \<le> DISKS c"
    and st: "is_init st = -1" "platters st 1 0 = replicate BSIZE 0"
  shows "\<exists>st'. load_metadata c st = Inr (None, st') \<and> platters st' = platters st"
proof -
  have ok1: "disk_ok c 1" using D by (simp add: disk_ok_def VIRTIO_RAID_DISK_START_def VIRTIO_RAID_DISK_END_def)
  obtain k1 where k1: "kalloc (km st) = (a, k1)" "kalloc_inv c k1 as" using kalloc_pops [OF m inv] by blast
  have a: "page_ok c a" "a \<noteq> 0" using inv page_word(2) [OF m] by (auto simp: kalloc_inv_def)
  let ?m = "store_bytes (ram k1) a (replicate BSIZE 0)"
  have z: "load_bytes ?m a SB_SIZE = replicate SB_SIZE 0"
    by (rule nth_equalityI) (simp_all add: store_bytes_def SB_SIZE_def BSIZE_def)
  have "\<not> in_page a x \<Longrightarrow> ?m x = ram k1 x" for x
    by (auto simp: store_bytes_def in_page_def BSIZE_def PGSIZE_def)
  then obtain k2 where k2: "kfree c a (k1\<lparr>ram := ?m\<rparr>) = Inr k2"
    using temporary_page [OF m inv k1(1), of ?m] by auto
  have "load_metadata c st = Inr (None, st\<lparr>km := k2\<rparr>)"
    using k1(1) a ok1 bpd page_mapped [OF m a(1) BSIZE_le_PGSIZE] z k2 st
    by (simp add: load_metadata_def raid_kalloc_def raid_read_def put_mem_def is_raid_uninitialized_def Let_def raid_kfree_def)
  then show ?thesis by simp
qed

text \<open>C35: \<^verbatim>\<open>raid_system_destroy\<close> on an array in service returns 0, wipes the superblock of every disk and nothing else, and
  gives its page back; after that every read and write of a block returns -2 without touching the disks.\<close>

theorem raid_system_destroy_ends_service:
  assumes "raid_inv c ty as st"
  shows "\<exists>st'. raid_system_destroy c st = Inr (0, st') \<and> kalloc_inv c (km st') (superblock st # as) \<and>
    (\<forall>d r. platters st' d r = (if disk_ok c d \<and> r = 0 then replicate BSIZE 0 else platters st d r)) \<and>
    (\<forall>pt isRead b va. \<exists>st''. raid_rw c pt isRead b va st' = Inr (-2, st'') \<and> platters st'' = platters st')"
proof -
  note inv = assms
  have m: "machine_ok c" and bpd: "0 < blockPerDisk c" and D: "1 \<le> DISKS c"
    using raid_invD(1,2,3) [OF inv] by (auto simp: config_ok_def split: if_splits)
  let ?is = "[VIRTIO_RAID_DISK_START..<VIRTIO_RAID_DISK_END c + 1]" and ?z = "replicate BSIZE (0 :: byte)"
  let ?ds = "with_row0 (platters st) ?is ?z"
  have w: "forE ?is (\<lambda>i. raid_write c i 0 ?z) st = Inr (st\<lparr>platters := ?ds\<rparr>)"
    by (rule write_row0_ok [where m = "pram st" and c = c])
      (use bpd raid_disks_ok in \<open>auto simp: raid_write_eq simp del: upt_Suc\<close>)
  obtain k where k: "kfree c (superblock st) (km st) = Inr k" "kalloc_inv c k (superblock st # as)"
    using kfree_pushes [OF m raid_invD(4,9,10) [OF inv]] by blast
  let ?st = "st\<lparr>platters := ?ds, km := k, is_init := -1, superblock := 0\<rparr>"
  have res: "raid_system_destroy c st = Inr (0, ?st)"
    using w k(1) raid_invD(8) [OF inv] by (simp add: raid_system_destroy_def raid_kfree_def del: upt_Suc)
  have pl: "platters ?st d r = (if disk_ok c d \<and> r = 0 then ?z else platters st d r)" for d r
    using raid_disks_ok [of d c] by (auto simp: with_row0_def simp del: upt_Suc set_upt)
  have k': "kalloc_inv c (km ?st) (superblock st # as)" using k(2) by simp
  have z1: "platters ?st 1 0 = ?z"
    unfolding pl using D by (simp add: disk_ok_def VIRTIO_RAID_DISK_START_def VIRTIO_RAID_DISK_END_def)
  obtain st'' where "load_metadata c ?st = Inr (None, st'')" "platters st'' = platters ?st"
    using load_metadata_destroyed [OF k' m bpd D _ z1] by auto
  then have "\<exists>st''. raid_rw c pt isRead b va ?st = Inr (-2, st'') \<and> platters st'' = platters ?st" for pt isRead b va
    by (auto simp: raid_rw_def)
  with res k' pl show ?thesis by (intro exI [of _ ?st]) auto
qed

theorem raid_system_destroy_ends_service_witness:
  "\<exists>st' st''. raid_system_destroy small_machine (demo_state 3) = Inr (0, st') \<and>
    raid_rw small_machine demo_pt True 0 0 st' = Inr (-2, st'')"
  using raid_system_destroy_ends_service [OF demo_inv [OF demo_types(4)]] by blast

section \<open>Error returns and their limits\<close>

text \<open>C36: A block number that the superblock of the array does not allow is refused with -1 by reads and writes, and nothing changes: every number beyond the array for the
  parity levels, and every number beyond the array but the first for the others, whose superblock allows one block too many. Every negative number given to the
  system calls is refused.\<close>

theorem raid_rejects_out_of_range:
  assumes "raid_inv c ty as st" and "if parity_level ty then raid_capacity c ty \<le> unat b else raid_capacity c ty < unat b"
  shows "raid_read_block c pt b va st = Inr (-1, st) \<and> raid_write_block c pt b va st = Inr (-1, st)"
proof -
  obtain lvl where lvl: "raid_type_of lvl = Some ty" "raid_init_superblock c lvl = Inr (sb_at st (superblock st))"
    using assms(1) by (auto simp: raid_inv_def)
  have "0 < raid_capacity c ty"
    using raid_invD(1) [OF assms(1)] config_bounds(2) [OF raid_invD(1) [OF assms(1)]] by (simp add: raid_capacity_def config_ok_def)
  then have "unat (max_blknum (sb_at st (superblock st))) < unat b"
    using init_superblock_fields(3) [OF raid_invD(1) [OF assms(1)] lvl] assms(2) by (auto split: if_splits)
  then have "b > (ucast (max_blknum (sb_at st (superblock st))) :: u64)"
    by (simp add: word_less_nat_alt unat_ucast_u32)
  with load_metadata_in_service [OF assms(1)] show ?thesis
    by (simp add: raid_read_block_def raid_write_block_def raid_rw_def)
qed

theorem raid_rejects_out_of_range_witness:
  "raid_read_block small_machine demo_pt 0xFFFFFFFFFFFFFFFF 0 (demo_state 0) = Inr (-1, demo_state 0) \<and>
   raid_write_block small_machine demo_pt 0xFFFFFFFFFFFFFFFF 0 (demo_state 0) = Inr (-1, demo_state 0)"
  by (rule raid_rejects_out_of_range [OF demo_inv [OF demo_types(1)]]) (simp add: demo_capacity parity_level_def)

text \<open>C39: The capacity check is off by one for RAID 0: the superblock records the number of blocks as the highest block
  number, so the first block beyond the array passes the check and its access, beyond the end of disk 1, panics the kernel.\<close>

theorem raid0_block_past_capacity_panics:
  assumes "raid_inv c RAID0 as st" and "unat b = raid_capacity c RAID0" and "health st 1 = HEALTHY"
    and "buf_ok c as (user_addr pt va st)"
  shows "raid_read_block c pt b va st = Inl (Panic '': virtio_disk_intr status'') \<and>
    raid_write_block c pt b va st = Inl (Panic '': virtio_disk_intr status'')"
proof -
  note inv = assms(1) and cfg = raid_invD(1) [OF assms(1)]
  obtain lvl where lvl: "raid_type_of lvl = Some RAID0" "raid_init_superblock c lvl = Inr (sb_at st (superblock st))"
    using inv by (auto simp: raid_inv_def)
  have "unat (max_blknum (sb_at st (superblock st))) = unat b"
    using init_superblock_fields(3) [OF cfg lvl] assms(2) by (simp add: parity_level_def)
  then have passes: "\<not> b > (ucast (max_blknum (sb_at st (superblock st))) :: u64)"
    by (simp add: word_less_nat_alt unat_ucast_u32)
  let ?n = "data_disks c RAID0"
  note sb = raid_inv_sb(1,2) [OF inv quiet_refl [OF raid_invD(4) [OF inv]]]
  have n: "0 < ?n" using config_bounds(2) [OF cfg] .
  then have place: "unat b mod ?n + 1 = 1" "unat b div ?n + 1 = blockPerDisk c"
    using assms(2) raid_invD(3) [OF inv] by (simp_all add: raid_capacity_def)
  have ok: "disk_ok c 1"
    using cfg by (simp add: config_ok_def disk_ok_def VIRTIO_RAID_DISK_START_def VIRTIO_RAID_DISK_END_def split: if_splits)
  obtain st1 where st1: "get_disk_health c 1 st = Inr (HEALTHY, st1)"
    using ready_health [OF raid_inv_ready [OF inv] ok] assms(3) by metis
  have panic: "disk_access c 1 (blockPerDisk c) = Inl (Panic '': virtio_disk_intr status'')"
    using ok by (simp add: disk_access_def disk_ok_def)
  have "rw_block c (superblock st) (unat b) (user_addr pt va st) isRead st = Inl (Panic '': virtio_disk_intr status'')" for isRead
    using sb n assms(4) unfolding rw_block_def sb
    by (simp only: Let_def option.case RAID_TYPE.case place st1 if_not_P bindE_simps prod.case simp_thms)
      (simp add: read_into_def write_from_def raid_read_def raid_write_def read_block_def write_block_def get_mem_def
        buf_ok_def panic [simplified])
  with passes load_metadata_in_service [OF inv] show ?thesis
    by (simp add: raid_read_block_def raid_write_block_def raid_rw_def)
qed

theorem raid0_block_past_capacity_panics_witness:
  "raid_read_block small_machine demo_pt 524284 0 (demo_state 0) = Inl (Panic '': virtio_disk_intr status'')"
proof -
  have "unat (524284 :: u64) = raid_capacity small_machine RAID0" by (simp add: demo_capacity)
  moreover have "health (demo_state 0) 1 = HEALTHY"
    by (simp add: health_def demo_state_def status_distinct)
  ultimately show ?thesis
    using raid0_block_past_capacity_panics [OF demo_inv [OF demo_types(1)]] demo_buf_ok by (simp add: demo_user_addr)
qed

text \<open>C40: Failing a disk is not recorded on the disk, although the code says it updates the status there. On an array that \<^verbatim>\<open>raid_system_init\<close> put in service,
  \<^verbatim>\<open>raid_fail_disk\<close> marks the disk unhealthy in memory and changes no disk, so that after a restart the disk counts as healthy again.\<close>

theorem raid_fail_disk_lost_at_restart:
  assumes "config_ok c ty" and "raid_type_of lvl = Some ty" and "kalloc_inv c (km st) (a # as)" and "as \<noteq> []"
    and "wf_disks (platters st)" and "\<forall>i. \<not> disk_locks st i" and "2 \<le> DISKS c" and "disk_ok c (unat d)"
  shows "\<exists>st1 st2. raid_system_init c lvl st = Inr (0, st1) \<and> raid_fail_disk c d st1 = Inr (0, st2) \<and>
    health st2 (unat d) = UNHEALTY \<and> platters st2 = platters st1 \<and>
    (\<forall>st3. platters st3 = platters st2 \<longrightarrow> health (init_raid_device c st3) (unat d) = HEALTHY)"
proof -
  obtain st1 sb where st1: "raid_system_init c lvl st = Inr (0, st1)" "raid_inv c ty as st1" "raid_init_superblock c lvl = Inr sb"
      "sb_of_bytes (platters st1 (unat d) 0) = sb"
    using raid_system_init_ok [OF assms(1-6)] assms(8) by auto
  have "sb_disk_status sb = HEALTHY" by (rule init_superblock_fields(5) [OF assms(1,2) st1(3)])
  then have "health (init_raid_device c st3) (unat d) = HEALTHY" if "platters st3 = platters st1" for st3
    using assms(7,8) st1(4) that by (simp add: health_def init_raid_device_def Let_def disk_ok_def VIRTIO_RAID_DISK_END_def)
  with raid_fail_disk_eq [OF st1(2) assms(8)] health_fail [of st1 "unat d" "unat d"] st1(1) show ?thesis by auto
qed

theorem raid_fail_disk_lost_at_restart_witness:
  "\<exists>st1 st2. raid_system_init small_machine 1 (demo_state 0) = Inr (0, st1) \<and> raid_fail_disk small_machine 2 st1 = Inr (0, st2) \<and>
    health st2 2 = UNHEALTY \<and> health (init_raid_device small_machine st2) 2 = HEALTHY"
proof -
  have ok: "disk_ok small_machine (unat (2 :: u64))" "2 \<le> DISKS small_machine"
    by (simp_all add: disk_ok_def small_machine_def VIRTIO_RAID_DISK_START_def VIRTIO_RAID_DISK_END_def)
  have i: "wf_disks (platters (demo_state 0))" "\<forall>i. \<not> disk_locks (demo_state 0) i"
    by (simp_all add: demo_state_def wf_disks_def)
  from raid_fail_disk_lost_at_restart [OF demo_config demo_types(2) demo_kmem_inv _ i ok(2,1)] show ?thesis by auto
qed

end
