(* ===== verification/Spinlock.thy ===== *)
theory Spinlock
  imports Kernel_Prelude
begin

text \<open>
  Spin locks and the interrupt nesting of \<^verbatim>\<open>kernel/spinlock.c\<close>. Each function is modelled on the state of all
  locks and CPUs. \<^verbatim>\<open>acquire\<close> and \<^verbatim>\<open>release\<close> are not atomic: a CPU can be between any two of their memory
  operations while others run, so they are cut at the shared accesses (the atomic swap on \<^verbatim>\<open>locked\<close>, the
  writes of \<^verbatim>\<open>cpu\<close>) and \<open>lock_step\<close> interleaves the pieces of all CPUs.
\<close>

section \<open>State and operations\<close>

record spinlock =
  locked :: bool
  cpu :: "nat option"

record cpu =
  noff :: int
  intena :: bool
  intr :: bool

datatype lock_pc = Run | Spin nat | Swapped nat | Cleared nat

record locks =
  lk :: "nat \<Rightarrow> spinlock"
  cpus :: "nat \<Rightarrow> cpu"
  pc :: "nat \<Rightarrow> lock_pc"
  held :: "nat \<Rightarrow> nat list"

definition initlock :: "nat \<Rightarrow> locks \<Rightarrow> locks" where
  "initlock l s = s\<lparr>lk := (lk s)(l := \<lparr>locked = False, cpu = None\<rparr>)\<rparr>"

definition push_off :: "nat \<Rightarrow> locks \<Rightarrow> locks" where
  "push_off c s =
     (let old = intr (cpus s c);
          p = (cpus s c)\<lparr>intr := False\<rparr>;
          p = (if noff p = 0 then p\<lparr>intena := old\<rparr> else p)
      in s\<lparr>cpus := (cpus s)(c := p\<lparr>noff := noff p + 1\<rparr>)\<rparr>)"

definition pop_off :: "nat \<Rightarrow> locks \<Rightarrow> fault + locks" where
  "pop_off c s =
     (let p = cpus s c in
      if intr p then Inl (Panic ''pop_off - interruptible'')
      else if noff p < 1 then Inl (Panic ''pop_off'')
      else let p = p\<lparr>noff := noff p - 1\<rparr>;
               p = (if noff p = 0 \<and> intena p then p\<lparr>intr := True\<rparr> else p)
           in Inr (s\<lparr>cpus := (cpus s)(c := p)\<rparr>))"

definition holding :: "nat \<Rightarrow> nat \<Rightarrow> locks \<Rightarrow> bool" where
  "holding c l s \<longleftrightarrow> locked (lk s l) \<and> cpu (lk s l) = Some c"

definition acquire_enter :: "nat \<Rightarrow> nat \<Rightarrow> locks \<Rightarrow> fault + locks" where
  "acquire_enter c l s =
     (let s = push_off c s in
      if holding c l s then Inl (Panic ''acquire'') else Inr (s\<lparr>pc := (pc s)(c := Spin l)\<rparr>))"

text \<open>One round of the loop: the swap stores 1 and the loop ends when the old value was 0.\<close>

definition acquire_swap :: "nat \<Rightarrow> nat \<Rightarrow> locks \<Rightarrow> locks" where
  "acquire_swap c l s =
     (let old = locked (lk s l);
          s = s\<lparr>lk := (lk s)(l := (lk s l)\<lparr>locked := True\<rparr>)\<rparr>
      in if old then s else s\<lparr>pc := (pc s)(c := Swapped l)\<rparr>)"

definition acquire_record :: "nat \<Rightarrow> nat \<Rightarrow> locks \<Rightarrow> locks" where
  "acquire_record c l s =
     s\<lparr>lk := (lk s)(l := (lk s l)\<lparr>cpu := Some c\<rparr>), pc := (pc s)(c := Run), held := (held s)(c := l # held s c)\<rparr>"

definition release_clear :: "nat \<Rightarrow> nat \<Rightarrow> locks \<Rightarrow> fault + locks" where
  "release_clear c l s =
     (if \<not> holding c l s then Inl (Panic ''release'')
      else Inr (s\<lparr>lk := (lk s)(l := (lk s l)\<lparr>cpu := None\<rparr>), pc := (pc s)(c := Cleared l)\<rparr>))"

definition release_unlock :: "nat \<Rightarrow> nat \<Rightarrow> locks \<Rightarrow> fault + locks" where
  "release_unlock c l s =
     pop_off c (s\<lparr>lk := (lk s)(l := (lk s l)\<lparr>locked := False\<rparr>), pc := (pc s)(c := Run),
                  held := (held s)(c := remove1 l (held s c))\<rparr>)"

text \<open>
  The steps of the system. Outside the lock code a CPU may turn its interrupts on or off when it holds
  no lock.
\<close>

inductive lock_step :: "locks \<Rightarrow> locks \<Rightarrow> bool" where
  enter: "pc s c = Run \<Longrightarrow> acquire_enter c l s = Inr s' \<Longrightarrow> lock_step s s'"
| swap: "pc s c = Spin l \<Longrightarrow> lock_step s (acquire_swap c l s)"
| note_cpu: "pc s c = Swapped l \<Longrightarrow> lock_step s (acquire_record c l s)"
| clear: "pc s c = Run \<Longrightarrow> l \<in> set (held s c) \<Longrightarrow> release_clear c l s = Inr s' \<Longrightarrow> lock_step s s'"
| unlock: "pc s c = Cleared l \<Longrightarrow> release_unlock c l s = Inr s' \<Longrightarrow> lock_step s s'"
| interrupts: "pc s c = Run \<Longrightarrow> noff (cpus s c) = 0 \<Longrightarrow>
    lock_step s (s\<lparr>cpus := (cpus s)(c := (cpus s c)\<lparr>intr := b\<rparr>)\<rparr>)"

definition lock_boot :: locks where
  "lock_boot = \<lparr>lk = (\<lambda>_. \<lparr>locked = False, cpu = None\<rparr>), cpus = (\<lambda>_. \<lparr>noff = 0, intena = False, intr = False\<rparr>),
     pc = (\<lambda>_. Run), held = (\<lambda>_. [])\<rparr>"

inductive lock_reach :: "locks \<Rightarrow> bool" where
  boot: "lock_reach lock_boot"
| step: "lock_reach s \<Longrightarrow> lock_step s s' \<Longrightarrow> lock_reach s'"

section \<open>The invariant\<close>

definition owns :: "locks \<Rightarrow> nat \<Rightarrow> nat \<Rightarrow> bool" where
  "owns s c l \<longleftrightarrow> l \<in> set (held s c) \<or> pc s c = Swapped l"

definition depth :: "locks \<Rightarrow> nat \<Rightarrow> int" where
  "depth s c = int (length (held s c)) + (case pc s c of Spin _ \<Rightarrow> 1 | Swapped _ \<Rightarrow> 1 | _ \<Rightarrow> 0)"

definition lock_inv :: "locks \<Rightarrow> bool" where
  "lock_inv s \<longleftrightarrow>
     (\<forall>c c' l. owns s c l \<longrightarrow> owns s c' l \<longrightarrow> c = c') \<and>
     (\<forall>l. locked (lk s l) \<longleftrightarrow> (\<exists>c. owns s c l)) \<and>
     (\<forall>c l. cpu (lk s l) = Some c \<longleftrightarrow> l \<in> set (held s c) \<and> pc s c \<noteq> Cleared l) \<and>
     (\<forall>c. distinct (held s c)) \<and>
     (\<forall>c l. pc s c = Cleared l \<longrightarrow> l \<in> set (held s c)) \<and>
     (\<forall>c l. pc s c = Swapped l \<longrightarrow> l \<notin> set (held s c)) \<and>
     (\<forall>c. noff (cpus s c) = depth s c) \<and>
     (\<forall>c. 0 < depth s c \<longrightarrow> \<not> intr (cpus s c))"

lemma lock_inv_boot: "lock_inv lock_boot"
  by (simp add: lock_inv_def lock_boot_def owns_def depth_def)

lemma lock_invD:
  assumes "lock_inv s"
  shows "owns s c l \<Longrightarrow> owns s c' l \<Longrightarrow> c = c'" "locked (lk s l) \<longleftrightarrow> (\<exists>c. owns s c l)"
    "cpu (lk s l) = Some c \<longleftrightarrow> l \<in> set (held s c) \<and> pc s c \<noteq> Cleared l" "distinct (held s c)"
    "pc s c = Cleared l \<Longrightarrow> l \<in> set (held s c)" "pc s c = Swapped l \<Longrightarrow> l \<notin> set (held s c)"
    "noff (cpus s c) = depth s c" "0 < depth s c \<Longrightarrow> \<not> intr (cpus s c)"
  using assms unfolding lock_inv_def by blast+

lemma depth_nonneg [simp]: "0 \<le> depth s c"
  by (simp add: depth_def split: lock_pc.split)

lemma holding_iff: "lock_inv s \<Longrightarrow> holding c l s \<longleftrightarrow> l \<in> set (held s c) \<and> pc s c \<noteq> Cleared l"
  using lock_invD(2,3) by (auto simp: holding_def owns_def)

lemma lock_inv_enter:
  assumes "lock_inv s" "pc s c = Run" "acquire_enter c l s = Inr s'"
  shows "lock_inv s'"
proof -
  have s': "s' = (push_off c s)\<lparr>pc := (pc s)(c := Spin l)\<rparr>"
    using assms(3) by (simp add: acquire_enter_def push_off_def Let_def split: if_splits)
  have owns: "owns s' d k \<longleftrightarrow> owns s d k" for d k
    using assms(2) by (auto simp: s' owns_def push_off_def Let_def)
  have depth: "depth s' d = (if d = c then depth s c + 1 else depth s d)" for d
    using assms(2) by (simp add: s' depth_def push_off_def Let_def)
  note i = lock_invD [OF assms(1)]
  show ?thesis
    unfolding lock_inv_def owns depth
    using i(1,2,4,5,6) i(3) i(7,8) assms(2)
    by (auto simp: s' push_off_def Let_def)
qed

lemma lock_inv_swap:
  assumes "lock_inv s" "pc s c = Spin l"
  shows "lock_inv (acquire_swap c l s)"
proof (cases "locked (lk s l)")
  case True
  then have "acquire_swap c l s = s" by (simp add: acquire_swap_def fun_upd_idem)
  with assms(1) show ?thesis by simp
next
  case False
  let ?s = "acquire_swap c l s"
  note i = lock_invD [OF assms(1)]
  have none: "\<not> owns s d l" for d using False i(2) by blast
  have pc: "pc ?s = (pc s)(c := Swapped l)" and held: "held ?s = held s" and cpus: "cpus ?s = cpus s"
    and lk: "lk ?s = (lk s)(l := (lk s l)\<lparr>locked := True\<rparr>)"
    using False by (simp_all add: acquire_swap_def Let_def)
  have owns: "owns ?s d k \<longleftrightarrow> owns s d k \<or> d = c \<and> k = l" for d k
    using assms(2) by (auto simp: owns_def pc held)
  have depth: "depth ?s d = depth s d" for d
    using assms(2) by (auto simp: depth_def pc held)
  show ?thesis
    unfolding lock_inv_def owns depth pc held cpus lk
    using i none assms(2) by (auto simp: owns_def)
qed

lemma lock_inv_note_cpu:
  assumes "lock_inv s" "pc s c = Swapped l"
  shows "lock_inv (acquire_record c l s)"
proof -
  let ?s = "acquire_record c l s"
  note i = lock_invD [OF assms(1)]
  have own: "owns s d l \<longleftrightarrow> d = c" for d using assms(2) i(1) [of d l c] by (auto simp: owns_def)
  have pc: "pc ?s = (pc s)(c := Run)" and held: "held ?s = (held s)(c := l # held s c)" and cpus: "cpus ?s = cpus s"
    and lk: "lk ?s = (lk s)(l := (lk s l)\<lparr>cpu := Some c\<rparr>)"
    by (simp_all add: acquire_record_def)
  have owns: "owns ?s d k \<longleftrightarrow> owns s d k" for d k
    using assms(2) by (auto simp: owns_def pc held)
  have depth: "depth ?s d = depth s d" for d
    using assms(2) by (auto simp: depth_def pc held)
  have others: "l \<notin> set (held s d)" "pc s d \<noteq> Cleared l" if "d \<noteq> c" for d
    using own [of d] that i(5) [of d l] by (auto simp: owns_def)
  show ?thesis
    unfolding lock_inv_def owns depth pc held cpus lk
    using i(1,2,4-8) i(3) others assms(2) by (auto simp: own)
qed

lemma lock_inv_clear:
  assumes "lock_inv s" "pc s c = Run" "l \<in> set (held s c)" "release_clear c l s = Inr s'"
  shows "lock_inv s'"
proof -
  note i = lock_invD [OF assms(1)]
  have own: "owns s d l \<longleftrightarrow> d = c" for d using assms(3) i(1) [of d l c] by (auto simp: owns_def)
  have pc: "pc s' = (pc s)(c := Cleared l)" and held: "held s' = held s" and cpus: "cpus s' = cpus s"
    and lk: "lk s' = (lk s)(l := (lk s l)\<lparr>cpu := None\<rparr>)"
    using assms(4) by (auto simp: release_clear_def split: if_splits)
  have owns: "owns s' d k \<longleftrightarrow> owns s d k" for d k
    using assms(2) by (auto simp: owns_def pc held)
  have depth: "depth s' d = depth s d" for d
    using assms(2) by (auto simp: depth_def pc held)
  have others: "l \<notin> set (held s d)" if "d \<noteq> c" for d using own [of d] that by (auto simp: owns_def)
  show ?thesis
    unfolding lock_inv_def owns depth pc held cpus lk
    using i(1,2,4-8) i(3) others assms(2,3) by auto
qed

lemma lock_inv_unlock:
  assumes "lock_inv s" "pc s c = Cleared l"
  shows "\<exists>s'. release_unlock c l s = Inr s' \<and> lock_inv s' \<and> (held s' c = [] \<longrightarrow> intr (cpus s' c) = intena (cpus s c))"
proof -
  note i = lock_invD [OF assms(1)]
  have l: "l \<in> set (held s c)" using i(5) assms(2) by blast
  then have d: "depth s c = int (length (held s c))" "0 < depth s c" using assms(2) by (auto simp: depth_def)
  let ?p = "(cpus s c)\<lparr>noff := noff (cpus s c) - 1\<rparr>"
  let ?p = "if noff ?p = 0 \<and> intena ?p then ?p\<lparr>intr := True\<rparr> else ?p"
  let ?s = "s\<lparr>lk := (lk s)(l := (lk s l)\<lparr>locked := False\<rparr>), pc := (pc s)(c := Run),
    held := (held s)(c := remove1 l (held s c)), cpus := (cpus s)(c := ?p)\<rparr>"
  have res: "release_unlock c l s = Inr ?s"
    using i(7,8) [of c] d by (simp add: release_unlock_def pop_off_def Let_def)
  have own: "owns s d l \<longleftrightarrow> d = c" for d using l i(1) [of d l c] by (auto simp: owns_def)
  have owns: "owns ?s d k \<longleftrightarrow> owns s d k \<and> k \<noteq> l" for d k
    using assms(2) own [of d] i(4) [of c] by (auto simp: owns_def)
  have depth: "depth ?s d = (if d = c then depth s c - 1 else depth s d)" for d
    using assms(2) l d by (auto simp: depth_def length_remove1 Suc_le_eq of_nat_diff)
  have others: "l \<notin> set (held s d)" if "d \<noteq> c" for d using own [of d] that by (auto simp: owns_def)
  have "cpu (lk s l) = None" using i(3) [of l] assms(2) others by (cases "cpu (lk s l)") auto
  then have "lock_inv ?s"
    unfolding lock_inv_def owns depth
    using i(1,2,4-8) i(3) others assms(2) d
    by auto
  moreover have "intr (cpus ?s c) = intena (cpus s c)" if "held ?s c = []"
  proof -
    have "length (held s c) = 1"
      using that l by (simp add: length_remove1 split: if_splits) (metis length_0_conv length_remove1 One_nat_def Suc_pred length_pos_if_in_set)
    then have "noff (cpus s c) = 1" using d i(7) [of c] by simp
    moreover have "\<not> intr (cpus s c)" using d i(8) by blast
    ultimately show ?thesis by simp
  qed
  ultimately show ?thesis using res by blast
qed

lemma lock_inv_step: "lock_step s s' \<Longrightarrow> lock_inv s \<Longrightarrow> lock_inv s'"
proof (induction rule: lock_step.induct)
  case (unlock s c l s')
  then show ?case using lock_inv_unlock [of s c l] by auto
next
  case (interrupts s c b)
  note i = lock_invD [OF interrupts(3)]
  let ?s = "s\<lparr>cpus := (cpus s)(c := (cpus s c)\<lparr>intr := b\<rparr>)\<rparr>"
  have "owns ?s = owns s" "depth ?s = depth s" by (auto simp: fun_eq_iff owns_def depth_def)
  with i interrupts(2) show ?case unfolding lock_inv_def by auto
qed (blast intro: lock_inv_enter lock_inv_swap lock_inv_note_cpu lock_inv_clear)+

lemma lock_reach_inv: "lock_reach s \<Longrightarrow> lock_inv s"
  by (induction rule: lock_reach.induct) (auto intro: lock_inv_boot lock_inv_step)

text \<open>C18: In every state the CPUs can reach by interleaving the steps of \<^verbatim>\<open>acquire\<close> and \<^verbatim>\<open>release\<close>, a spin lock has at most
  one owner, \<^verbatim>\<open>holding\<close> is true exactly for a CPU between the end of \<^verbatim>\<open>acquire\<close> and the start of \<^verbatim>\<open>release\<close>, and a CPU
  that owns a lock runs with interrupts off.\<close>

theorem spinlock_mutual_exclusion:
  assumes "lock_reach s"
  shows "(owns s c l \<and> owns s c' l \<longrightarrow> c = c') \<and> (holding c l s \<longleftrightarrow> l \<in> set (held s c) \<and> pc s c \<noteq> Cleared l) \<and>
    (owns s c l \<longrightarrow> \<not> intr (cpus s c))"
proof -
  have inv: "lock_inv s" using assms by (rule lock_reach_inv)
  have "0 < depth s c" if "owns s c l"
    using that by (auto simp: owns_def depth_def split: lock_pc.split intro: length_pos_if_in_set)
  with lock_invD(1,8) [OF inv] holding_iff [OF inv] show ?thesis by blast
qed

text \<open>One CPU takes lock 7.\<close>

definition lock_taken :: locks where
  "lock_taken = acquire_record 2 7 (acquire_swap 2 7 ((push_off 2 lock_boot)\<lparr>pc := (\<lambda>_. Run)(2 := Spin 7)\<rparr>))"

lemma lock_taken_reach: "lock_reach lock_taken"
proof -
  let ?s1 = "(push_off 2 lock_boot)\<lparr>pc := (\<lambda>_. Run)(2 := Spin 7)\<rparr>"
  let ?s2 = "acquire_swap 2 7 ?s1"
  have "acquire_enter 2 7 lock_boot = Inr ?s1"
    by (simp add: acquire_enter_def push_off_def lock_boot_def holding_def Let_def)
  moreover have "pc lock_boot 2 = Run" by (simp add: lock_boot_def)
  ultimately have "lock_reach ?s1" by (blast intro: lock_reach.intros lock_step.enter)
  then have "lock_reach ?s2" by (rule lock_reach.step) (rule lock_step.swap, simp)
  moreover have "pc ?s2 2 = Swapped 7" by (simp add: acquire_swap_def push_off_def lock_boot_def Let_def)
  ultimately show ?thesis unfolding lock_taken_def by (blast intro: lock_reach.step lock_step.note_cpu)
qed

theorem spinlock_mutual_exclusion_witness:
  "holding 2 7 lock_taken \<and> \<not> intr (cpus lock_taken 2) \<and> \<not> owns lock_taken 3 7"
proof -
  have "7 \<in> set (held lock_taken 2)" "pc lock_taken 2 = Run"
    by (simp_all add: lock_taken_def acquire_record_def)
  then show ?thesis
    using spinlock_mutual_exclusion [OF lock_taken_reach, of 2 7 3] spinlock_mutual_exclusion [OF lock_taken_reach, of 3 7 2]
    by (auto simp: owns_def)
qed

text \<open>In every reachable state, \<^verbatim>\<open>acquire\<close> panics exactly when the CPU already holds the lock (recursive locking), neither
  half of \<^verbatim>\<open>release\<close> nor its \<^verbatim>\<open>pop_off\<close> panics for a lock the CPU holds, and releasing the last lock
  restores the interrupt state saved when the first one was acquired. A CPU that spins on a free lock
  gets it in one step.\<close>

theorem spinlock_panics_only_on_misuse:
  assumes "lock_reach s"
  shows "(pc s c = Run \<longrightarrow> (acquire_enter c l s = Inl (Panic ''acquire'') \<longleftrightarrow> l \<in> set (held s c))) \<and>
    (pc s c = Run \<and> l \<in> set (held s c) \<longrightarrow> (\<exists>s'. release_clear c l s = Inr s')) \<and>
    (pc s c = Cleared l \<longrightarrow> (\<exists>s'. release_unlock c l s = Inr s' \<and>
       (held s' c = [] \<longrightarrow> intr (cpus s' c) = intena (cpus s c)))) \<and>
    (pc s c = Spin l \<and> (\<forall>c'. \<not> owns s c' l) \<longrightarrow> pc (acquire_swap c l s) c = Swapped l)"
proof -
  have inv: "lock_inv s" using assms by (rule lock_reach_inv)
  have "holding c l (push_off c s) = holding c l s" by (simp add: holding_def push_off_def Let_def)
  then have "pc s c = Run \<longrightarrow> (acquire_enter c l s = Inl (Panic ''acquire'') \<longleftrightarrow> l \<in> set (held s c))"
    using holding_iff [OF inv, of c l] by (auto simp: acquire_enter_def Let_def)
  moreover have "pc s c = Run \<and> l \<in> set (held s c) \<longrightarrow> (\<exists>s'. release_clear c l s = Inr s')"
    using holding_iff [OF inv, of c l] by (auto simp: release_clear_def)
  moreover have "pc s c = Spin l \<and> (\<forall>c'. \<not> owns s c' l) \<longrightarrow> pc (acquire_swap c l s) c = Swapped l"
    using lock_invD(2) [OF inv, of l] by (auto simp: acquire_swap_def Let_def)
  ultimately show ?thesis using lock_inv_unlock [OF inv, of c l] by blast
qed

theorem spinlock_panics_only_on_misuse_witness:
  "acquire_enter 2 7 lock_taken = Inl (Panic ''acquire'') \<and> (\<exists>s'. release_clear 2 7 lock_taken = Inr s')"
proof -
  have "7 \<in> set (held lock_taken 2)" "pc lock_taken 2 = Run"
    by (simp_all add: lock_taken_def acquire_record_def)
  with spinlock_panics_only_on_misuse [OF lock_taken_reach, of 2 7] show ?thesis by blast
qed

end
