(* ===== verification/Bio.thy ===== *)
theory Bio
  imports Block_Array
begin

text \<open>
  The buffer cache, \<^verbatim>\<open>kernel/bio.c\<close>. Buffers are numbered from 1 to \<open>NBUF\<close>, 0 is \<^verbatim>\<open>bcache.head\<close>; \<open>nxt\<close> and \<open>prv\<close>
  are the links of the doubly linked ring. The sleep lock of a buffer is the process that holds it.
  \<open>fsdisk\<close> is the medium behind disk 0; a transfer of one block is the contract that the driver keeps
  (\<^verbatim>\<open>Virtio_Disk\<close>). The two loops of \<^verbatim>\<open>bget\<close> follow the links with a bound of \<open>NBUF + 1\<close> rounds; on a ring that is
  what they need, and running out of it is a fault.
\<close>

section \<open>Data and operations\<close>

definition NBUF :: nat where "NBUF = 30"

record buf =
  valid :: bool
  dev :: nat
  bno :: nat
  lock :: "nat option"
  refcnt :: nat
  bdata :: block

record bcache =
  buf :: "nat \<Rightarrow> buf"
  nxt :: "nat \<Rightarrow> nat"
  prv :: "nat \<Rightarrow> nat"
  fsdisk :: "nat \<Rightarrow> block"

text \<open>Insert node \<open>b\<close> between the head and the first buffer; unlink it from where it is.\<close>

definition link_front :: "nat \<Rightarrow> bcache \<Rightarrow> bcache" where
  "link_front b s =
     (let s = s\<lparr>nxt := (nxt s)(b := nxt s 0)\<rparr>;
          s = s\<lparr>prv := (prv s)(b := 0)\<rparr>;
          s = s\<lparr>prv := (prv s)(nxt s 0 := b)\<rparr>
      in s\<lparr>nxt := (nxt s)(0 := b)\<rparr>)"

definition unlink_buf :: "nat \<Rightarrow> bcache \<Rightarrow> bcache" where
  "unlink_buf b s =
     (let s = s\<lparr>prv := (prv s)(nxt s b := prv s b)\<rparr>
      in s\<lparr>nxt := (nxt s)(prv s b := nxt s b)\<rparr>)"

definition init_buf :: "nat \<Rightarrow> bcache \<Rightarrow> bcache" where
  "init_buf b s = link_front b (s\<lparr>buf := (buf s)(b := (buf s b)\<lparr>lock := None\<rparr>)\<rparr>)"

definition binit :: "bcache \<Rightarrow> bcache" where
  "binit s =
     (let s = s\<lparr>prv := (prv s)(0 := 0), nxt := (nxt s)(0 := 0)\<rparr>
      in fold init_buf [1..<NBUF + 1] s)"

primrec bget_cached :: "nat \<Rightarrow> nat \<Rightarrow> nat \<Rightarrow> nat \<Rightarrow> bcache \<Rightarrow> fault + nat option" where
  "bget_cached 0 b d n s = Inl (Undefined ''buffer ring'')"
| "bget_cached (Suc k) b d n s =
     (if b = 0 then Inr None
      else if dev (buf s b) = d \<and> bno (buf s b) = n then Inr (Some b)
      else bget_cached k (nxt s b) d n s)"

primrec bget_unused :: "nat \<Rightarrow> nat \<Rightarrow> bcache \<Rightarrow> fault + nat" where
  "bget_unused 0 b s = Inl (Undefined ''buffer ring'')"
| "bget_unused (Suc k) b s =
     (if b = 0 then Inl (Panic ''bget: no buffers'')
      else if refcnt (buf s b) = 0 then Inr b
      else bget_unused k (prv s b) s)"

definition acquire_buf :: "nat \<Rightarrow> nat \<Rightarrow> bcache \<Rightarrow> fault + bcache" where
  "acquire_buf p b s =
     (if lock (buf s b) \<noteq> None then Inl (Sleeps ''buffer'')
      else Inr (s\<lparr>buf := (buf s)(b := (buf s b)\<lparr>lock := Some p\<rparr>)\<rparr>))"

definition bget :: "nat \<Rightarrow> nat \<Rightarrow> nat \<Rightarrow> bcache \<Rightarrow> fault + nat \<times> bcache" where
  "bget p d n s =
     bindE (bget_cached (NBUF + 1) (nxt s 0) d n s) (\<lambda>r.
     case r of
       Some b \<Rightarrow>
         bindE (acquire_buf p b (s\<lparr>buf := (buf s)(b := (buf s b)\<lparr>refcnt := refcnt (buf s b) + 1\<rparr>)\<rparr>)) (\<lambda>s. Inr (b, s))
     | None \<Rightarrow>
         bindE (bget_unused (NBUF + 1) (prv s 0) s) (\<lambda>b.
         bindE (acquire_buf p b (s\<lparr>buf := (buf s)(b := (buf s b)\<lparr>dev := d, bno := n, valid := False, refcnt := 1\<rparr>)\<rparr>))
           (\<lambda>s. Inr (b, s))))"

definition bread :: "nat \<Rightarrow> nat \<Rightarrow> nat \<Rightarrow> bcache \<Rightarrow> fault + nat \<times> bcache" where
  "bread p d n s =
     bindE (bget p d n s) (\<lambda>(b, s).
       if \<not> valid (buf s b)
       then Inr (b, s\<lparr>buf := (buf s)(b := (buf s b)\<lparr>bdata := fsdisk s (bno (buf s b)), valid := True\<rparr>)\<rparr>)
       else Inr (b, s))"

definition holdingbuf :: "nat \<Rightarrow> nat \<Rightarrow> bcache \<Rightarrow> bool" where
  "holdingbuf p b s \<longleftrightarrow> lock (buf s b) = Some p"

definition bwrite :: "nat \<Rightarrow> nat \<Rightarrow> bcache \<Rightarrow> fault + bcache" where
  "bwrite p b s =
     (if \<not> holdingbuf p b s then Inl (Panic ''bwrite'')
      else Inr (s\<lparr>fsdisk := (fsdisk s)(bno (buf s b) := bdata (buf s b))\<rparr>))"

definition brelse :: "nat \<Rightarrow> nat \<Rightarrow> bcache \<Rightarrow> fault + bcache" where
  "brelse p b s =
     (if \<not> holdingbuf p b s then Inl (Panic ''brelse'')
      else let s = s\<lparr>buf := (buf s)(b := (buf s b)\<lparr>lock := None, refcnt := refcnt (buf s b) - 1\<rparr>)\<rparr>
           in Inr (if refcnt (buf s b) = 0 then link_front b (unlink_buf b s) else s))"

definition bpin :: "nat \<Rightarrow> bcache \<Rightarrow> bcache" where
  "bpin b s = s\<lparr>buf := (buf s)(b := (buf s b)\<lparr>refcnt := refcnt (buf s b) + 1\<rparr>)\<rparr>"

definition bunpin :: "nat \<Rightarrow> bcache \<Rightarrow> bcache" where
  "bunpin b s = s\<lparr>buf := (buf s)(b := (buf s b)\<lparr>refcnt := refcnt (buf s b) - 1\<rparr>)\<rparr>"

section \<open>The ring as a list\<close>

text \<open>
  \<open>lpath f a xs b\<close>: following \<open>f\<close> from \<open>a\<close> visits \<open>xs\<close> and then \<open>b\<close>. A ring over \<open>xs\<close> is such a path from the head to
  the head in both directions.
\<close>

primrec lpath :: "(nat \<Rightarrow> nat) \<Rightarrow> nat \<Rightarrow> nat list \<Rightarrow> nat \<Rightarrow> bool" where
  "lpath f a [] b \<longleftrightarrow> f a = b"
| "lpath f a (x # xs) b \<longleftrightarrow> f a = x \<and> lpath f x xs b"

definition ring :: "bcache \<Rightarrow> nat list \<Rightarrow> bool" where
  "ring s xs \<longleftrightarrow> lpath (nxt s) 0 xs 0 \<and> lpath (prv s) 0 (rev xs) 0 \<and> distinct xs \<and> 0 \<notin> set xs"

lemma lpath_append: "lpath f a (xs @ y # ys) b \<longleftrightarrow> lpath f a xs y \<and> lpath f y ys b"
  by (induction xs arbitrary: a) auto

lemma lpath_cong: "(\<And>x. x \<in> set (a # xs) \<Longrightarrow> f x = g x) \<Longrightarrow> lpath f a xs b \<longleftrightarrow> lpath g a xs b"
  by (induction xs arbitrary: a) auto

lemma lpath_last: "lpath f a xs b \<Longrightarrow> f (last (a # xs)) = b"
  by (induction xs arbitrary: a) auto

lemma lpath_upd_last:
  assumes "lpath f a xs b" "distinct (a # xs)"
  shows "lpath (f(last (a # xs) := c)) a xs c"
  using assms
proof (induction xs arbitrary: a)
  case (Cons x xs)
  then have "lpath (f(last (x # xs) := c)) x xs c" by (intro Cons.IH) auto
  moreover have "last (x # xs) \<noteq> a" using Cons.prems(2) last_in_set [of "x # xs"] by auto
  ultimately show ?case using Cons.prems(1) by (simp only: lpath.simps last_ConsR list.distinct fun_upd_other) simp
qed simp

lemma lpath_upd_outside: "z \<notin> set (a # xs) \<Longrightarrow> lpath (f(z := c)) a xs b = lpath f a xs b"
  by (rule lpath_cong) auto

lemma lpath_start:
  "lpath f a xs c \<Longrightarrow> g b = f a \<Longrightarrow> (\<And>x. x \<in> set xs \<Longrightarrow> g x = f x) \<Longrightarrow> lpath g b xs c"
proof (cases xs)
  case (Cons y ys)
  assume "lpath f a xs c" "g b = f a" "\<And>x. x \<in> set xs \<Longrightarrow> g x = f x"
  with Cons lpath_cong [of y ys g f c] show ?thesis by auto
qed simp

lemma lpath_bypass:
  assumes "lpath f a (xs @ b # ys) c" "distinct (a # xs @ b # ys)"
  shows "lpath (f(last (a # xs) := f b)) a (xs @ ys) c"
proof -
  have p: "lpath f a xs b" "lpath f b ys c" using assms(1) by (auto simp: lpath_append)
  have l: "last (a # xs) \<in> set (a # xs)" by (rule last_in_set) simp
  show ?thesis
  proof (cases ys)
    case Nil
    with p lpath_upd_last [OF p(1), of c] assms(2) show ?thesis by simp
  next
    case (Cons y zs)
    then have y: "f b = y" using p(2) by simp
    have "lpath (f(last (a # xs) := y)) a xs y" using p(1) assms(2) by (intro lpath_upd_last) auto
    moreover have "last (a # xs) \<notin> set (y # zs)" using l assms(2) Cons by auto
    then have "lpath (f(last (a # xs) := y)) y zs c" using p(2) Cons by (simp add: lpath_upd_outside del: fun_upd_apply)
    ultimately show ?thesis unfolding Cons y lpath_append by blast
  qed
qed

lemma lpath_hd: "lpath f a xs c \<Longrightarrow> f a = hd (xs @ [c])"
  by (cases xs) auto

lemma ring_link_front:
  assumes r: "ring s xs" and b: "b \<noteq> 0" "b \<notin> set xs"
  shows "ring (link_front b s) (b # xs)"
proof -
  have p: "lpath (nxt s) 0 xs 0" "lpath (prv s) 0 (rev xs) 0" "distinct xs" "0 \<notin> set xs" using r by (auto simp: ring_def)
  let ?n = "(nxt s)(b := nxt s 0, 0 := b)" and ?p = "(prv s)(b := 0, nxt s 0 := b)"
  have s': "nxt (link_front b s) = ?n" "prv (link_front b s) = ?p"
    using b(1) by (simp_all add: link_front_def Let_def)
  have "lpath ?n b xs 0"
  proof (rule lpath_start [OF p(1)])
    show "?n b = nxt s 0" using b(1) by simp
    show "?n x = nxt s x" if "x \<in> set xs" for x using that b(2) p(4) by auto
  qed
  then have "lpath ?n 0 (b # xs) 0" by (simp only: lpath.simps fun_upd_same)
  moreover have "lpath ?p 0 (rev xs @ [b]) 0"
  proof -
    have last: "last (0 # rev xs) = nxt s 0" using lpath_hd [OF p(1)] by (cases xs) auto
    have "lpath ((prv s)(b := 0)) 0 (rev xs) 0" using p(2) b by (simp add: lpath_upd_outside del: fun_upd_apply)
    then have "lpath ?p 0 (rev xs) b"
      using lpath_upd_last [of "(prv s)(b := 0)" 0 "rev xs" 0 b] p(3,4) last by (simp del: fun_upd_apply)
    moreover have "nxt s 0 \<noteq> b" using lpath_hd [OF p(1)] b by (cases xs) auto
    ultimately show ?thesis by (simp add: lpath_append)
  qed
  ultimately show ?thesis using p(3,4) b by (simp add: ring_def s' del: lpath.simps fun_upd_apply)
qed

lemma ring_unlink:
  assumes r: "ring s (xs @ b # ys)"
  shows "ring (unlink_buf b s) (xs @ ys)"
proof -
  have p: "lpath (nxt s) 0 (xs @ b # ys) 0" "lpath (prv s) 0 (rev ys @ b # rev xs) 0"
    and d: "distinct (0 # xs @ b # ys)" using r by (auto simp: ring_def)
  have pb: "prv s b = last (0 # xs)"
    using p(2) by (auto simp: lpath_append dest!: lpath_hd) (cases xs; auto simp: hd_append hd_rev)
  have nb: "nxt s b = last (0 # rev ys)"
    using p(1) by (auto simp: lpath_append dest!: lpath_hd) (cases ys; auto)
  have ne: "nxt s b \<noteq> b"
    using d nb by (cases ys) auto
  have s': "prv (unlink_buf b s) = (prv s)(last (0 # rev ys) := prv s b)" "nxt (unlink_buf b s) = (nxt s)(last (0 # xs) := nxt s b)"
    using ne pb nb by (simp_all add: unlink_buf_def Let_def)
  have "lpath (nxt (unlink_buf b s)) 0 (xs @ ys) 0"
    unfolding s' using p(1) d by (intro lpath_bypass) auto
  moreover have "lpath (prv (unlink_buf b s)) 0 (rev ys @ rev xs) 0"
    unfolding s' using p(2) d by (intro lpath_bypass) auto
  ultimately show ?thesis using d by (simp add: ring_def)
qed

lemma bget_cached_find:
  assumes "lpath (nxt s) a xs 0" "0 \<notin> set xs" "length xs < k"
  shows "bget_cached k (nxt s a) d n s = Inr (find (\<lambda>b. dev (buf s b) = d \<and> bno (buf s b) = n) xs)"
  using assms
proof (induction xs arbitrary: a k)
  case Nil
  then show ?case by (cases k) auto
next
  case (Cons x xs)
  then show ?case by (cases k) auto
qed

lemma bget_unused_find:
  assumes "lpath (prv s) a xs 0" "0 \<notin> set xs" "length xs < k"
  shows "bget_unused k (prv s a) s =
    (case find (\<lambda>b. refcnt (buf s b) = 0) xs of None \<Rightarrow> Inl (Panic ''bget: no buffers'') | Some b \<Rightarrow> Inr b)"
  using assms
proof (induction xs arbitrary: a k)
  case Nil
  then show ?case by (cases k) auto
next
  case (Cons x xs)
  then show ?case by (cases k) auto
qed

section \<open>The invariant\<close>

definition uniq_blocks :: "bcache \<Rightarrow> nat set \<Rightarrow> bool" where
  "uniq_blocks s A \<longleftrightarrow> (\<forall>a\<in>A. \<forall>b\<in>A. dev (buf s a) = dev (buf s b) \<and> bno (buf s a) = bno (buf s b) \<and> dev (buf s a) \<noteq> 0 \<longrightarrow> a = b)"

lemma uniq_blocksD:
  "uniq_blocks s A \<Longrightarrow> a \<in> A \<Longrightarrow> b \<in> A \<Longrightarrow> dev (buf s a) = dev (buf s b) \<Longrightarrow> bno (buf s a) = bno (buf s b) \<Longrightarrow> dev (buf s a) \<noteq> 0 \<Longrightarrow> a = b"
  unfolding uniq_blocks_def by blast

definition cache_inv :: "bcache \<Rightarrow> nat list \<Rightarrow> bool" where
  "cache_inv s xs \<longleftrightarrow> ring s xs \<and> set xs = {1..NBUF} \<and>
     uniq_blocks s (set xs) \<and>
     (\<forall>b\<in>set xs. lock (buf s b) \<noteq> None \<longrightarrow> 0 < refcnt (buf s b)) \<and>
     (\<forall>b\<in>set xs. valid (buf s b) \<and> refcnt (buf s b) = 0 \<longrightarrow> bdata (buf s b) = fsdisk s (bno (buf s b)))"

abbreviation caches :: "bcache \<Rightarrow> nat \<Rightarrow> nat \<Rightarrow> nat \<Rightarrow> bool" where
  "caches s d n b \<equiv> dev (buf s b) = d \<and> bno (buf s b) = n"

lemma cache_inv_ring: "cache_inv s xs \<Longrightarrow> ring s xs" "cache_inv s xs \<Longrightarrow> length xs = NBUF" "cache_inv s xs \<Longrightarrow> set xs = {1..NBUF}"
  by (auto simp: cache_inv_def ring_def dest!: distinct_card)

lemma ring_links: "nxt s' = nxt s \<Longrightarrow> prv s' = prv s \<Longrightarrow> ring s' xs = ring s xs"
  by (simp add: ring_def)

lemma bget_scan:
  assumes "cache_inv s xs"
  shows "bget_cached (NBUF + 1) (nxt s 0) d n s = Inr (find (caches s d n) xs)"
    "bget_unused (NBUF + 1) (prv s 0) s =
      (case find (\<lambda>b. refcnt (buf s b) = 0) (rev xs) of None \<Rightarrow> Inl (Panic ''bget: no buffers'') | Some b \<Rightarrow> Inr b)"
proof -
  have r: "lpath (nxt s) 0 xs 0" "lpath (prv s) 0 (rev xs) 0" "0 \<notin> set xs" "length xs < NBUF + 1"
    using cache_inv_ring [OF assms] by (auto simp: ring_def)
  show "bget_cached (NBUF + 1) (nxt s 0) d n s = Inr (find (caches s d n) xs)"
    by (rule bget_cached_find [OF r(1,3,4)])
  show "bget_unused (NBUF + 1) (prv s 0) s =
      (case find (\<lambda>b. refcnt (buf s b) = 0) (rev xs) of None \<Rightarrow> Inl (Panic ''bget: no buffers'') | Some b \<Rightarrow> Inr b)"
    by (rule bget_unused_find [OF r(2)]) (use r in auto)
qed

text \<open>What it takes to change one buffer of a well-formed cache, with the links as they are.\<close>

lemma cache_inv_upd:
  assumes "cache_inv s xs" "b \<in> set xs" "nxt s' = nxt s" "prv s' = prv s" "buf s' = (buf s)(b := v)"
    and "\<And>e. e \<in> set xs \<Longrightarrow> e \<noteq> b \<Longrightarrow> dev v \<noteq> 0 \<Longrightarrow> \<not> caches s (dev v) (bno v) e"
    and "lock v \<noteq> None \<Longrightarrow> 0 < refcnt v"
    and "valid v \<Longrightarrow> refcnt v = 0 \<Longrightarrow> bdata v = fsdisk s' (bno v)"
    and "\<And>e. e \<in> set xs \<Longrightarrow> e \<noteq> b \<Longrightarrow> valid (buf s e) \<Longrightarrow> refcnt (buf s e) = 0 \<Longrightarrow> fsdisk s' (bno (buf s e)) = fsdisk s (bno (buf s e))"
  shows "cache_inv s' xs"
  unfolding cache_inv_def
proof (intro conjI)
  show "ring s' xs" using assms(1,3,4) ring_links cache_inv_ring(1) by blast
  show "set xs = {1..NBUF}" by (rule cache_inv_ring(3) [OF assms(1)])
  have u: "uniq_blocks s (set xs)" using assms(1) unfolding cache_inv_def by blast
  show "uniq_blocks s' (set xs)"
    unfolding uniq_blocks_def
  proof (intro ballI impI)
    fix a e
    assume "a \<in> set xs" "e \<in> set xs"
      "dev (buf s' a) = dev (buf s' e) \<and> bno (buf s' a) = bno (buf s' e) \<and> dev (buf s' a) \<noteq> 0"
    with assms(5) assms(6) [of a] assms(6) [of e] uniq_blocksD [OF u, of a e] show "a = e"
      by (cases "a = b"; cases "e = b") auto
  qed
  show "\<forall>e\<in>set xs. lock (buf s' e) \<noteq> None \<longrightarrow> 0 < refcnt (buf s' e)"
    using assms(1,5,7) by (simp add: cache_inv_def)
  show "\<forall>e\<in>set xs. valid (buf s' e) \<and> refcnt (buf s' e) = 0 \<longrightarrow> bdata (buf s' e) = fsdisk s' (bno (buf s' e))"
  proof (intro ballI impI)
    fix e
    assume "e \<in> set xs" "valid (buf s' e) \<and> refcnt (buf s' e) = 0"
    with assms(1,5,8) assms(9) [of e] show "bdata (buf s' e) = fsdisk s' (bno (buf s' e))"
      by (cases "e = b") (auto simp: cache_inv_def)
  qed
qed

lemma cache_invD:
  assumes "cache_inv s xs" "b \<in> set xs"
  shows "dev (buf s b) \<noteq> 0 \<Longrightarrow> e \<in> set xs \<Longrightarrow> caches s (dev (buf s b)) (bno (buf s b)) e \<Longrightarrow> e = b"
    and "refcnt (buf s b) = 0 \<Longrightarrow> lock (buf s b) = None"
    and "refcnt (buf s b) = 0 \<Longrightarrow> valid (buf s b) \<Longrightarrow> bdata (buf s b) = fsdisk s (bno (buf s b))"
proof -
  show "e = b" if "dev (buf s b) \<noteq> 0" "e \<in> set xs" "caches s (dev (buf s b)) (bno (buf s b)) e"
    using uniq_blocksD [of s "set xs" e b] assms that unfolding cache_inv_def by metis
  show "lock (buf s b) = None" if "refcnt (buf s b) = 0"
    using assms that by (force simp: cache_inv_def)
  show "bdata (buf s b) = fsdisk s (bno (buf s b))" if "refcnt (buf s b) = 0" "valid (buf s b)"
    using assms that by (simp add: cache_inv_def)
qed

lemma find_mem: "find P xs = Some x \<Longrightarrow> x \<in> set xs \<and> P x"
  by (auto simp: find_Some_iff)

text \<open>The buffer that \<open>bread\<close> returns: the one that caches the block, or the least recently used free one.\<close>

definition bread_choice :: "nat \<Rightarrow> nat \<Rightarrow> bcache \<Rightarrow> nat list \<Rightarrow> nat option" where
  "bread_choice d n s xs = (case find (caches s d n) xs of Some b \<Rightarrow> Some b | None \<Rightarrow> find (\<lambda>b. refcnt (buf s b) = 0) (rev xs))"

definition bread_buf :: "nat \<Rightarrow> nat \<Rightarrow> nat \<Rightarrow> nat \<Rightarrow> bcache \<Rightarrow> buf" where
  "bread_buf p d n b s =
     \<lparr>valid = True, dev = d, bno = n, lock = Some p, refcnt = (if caches s d n b then refcnt (buf s b) + 1 else 1),
      bdata = (if caches s d n b \<and> valid (buf s b) then bdata (buf s b) else fsdisk s n)\<rparr>"

lemma bread_eq:
  assumes "cache_inv s xs" "\<forall>b\<in>set xs. caches s d n b \<longrightarrow> lock (buf s b) = None"
  shows "bread p d n s = (case bread_choice d n s xs of
      None \<Rightarrow> Inl (Panic ''bget: no buffers'')
    | Some b \<Rightarrow> Inr (b, s\<lparr>buf := (buf s)(b := bread_buf p d n b s)\<rparr>))"
proof (cases "find (caches s d n) xs")
  case (Some b)
  then have b: "b \<in> set xs" "caches s d n b" by (auto dest!: find_mem)
  then have "lock (buf s b) = None" using assms(2) by blast
  with b(2) Some show ?thesis
    unfolding bread_def bget_def bget_scan(1) [OF assms(1)]
    by (cases "buf s b") (simp add: acquire_buf_def bread_choice_def bread_buf_def)
next
  case None
  show ?thesis
  proof (cases "find (\<lambda>b. refcnt (buf s b) = 0) (rev xs)")
    case (Some b)
    then have "b \<in> set xs" "refcnt (buf s b) = 0" by (auto dest!: find_mem)
    moreover from this have "lock (buf s b) = None" by (intro cache_invD(2) [OF assms(1)])
    moreover have "\<not> caches s d n b" using None \<open>b \<in> set xs\<close> by (auto simp: find_None_iff)
    ultimately show ?thesis using None Some
      unfolding bread_def bget_def bget_scan [OF assms(1)]
      by (cases "buf s b") (auto simp add: acquire_buf_def bread_choice_def bread_buf_def)
  next
    case 2: None
    with None show ?thesis
      unfolding bread_def bget_def bget_scan [OF assms(1)] by (simp add: bread_choice_def)
  qed
qed

lemma bread_choice_Some:
  assumes "bread_choice d n s xs = Some b"
  shows "b \<in> set xs" "caches s d n b \<or> refcnt (buf s b) = 0 \<and> (\<forall>e\<in>set xs. \<not> caches s d n e)"
proof -
  have *: "b \<in> set xs \<and> (caches s d n b \<or> refcnt (buf s b) = 0 \<and> (\<forall>e\<in>set xs. \<not> caches s d n e))"
  proof (cases "find (caches s d n) xs")
    case None
    with assms have "find (\<lambda>b. refcnt (buf s b) = 0) (rev xs) = Some b" by (simp add: bread_choice_def)
    with None show ?thesis by (auto simp: find_None_iff dest!: find_mem)
  next
    case (Some a)
    with assms have "a = b" by (simp add: bread_choice_def)
    with Some show ?thesis by (auto dest!: find_mem)
  qed
  from * show "b \<in> set xs" by blast
  from * show "caches s d n b \<or> refcnt (buf s b) = 0 \<and> (\<forall>e\<in>set xs. \<not> caches s d n e)" by blast
qed

lemma bread_inv:
  assumes "cache_inv s xs" "bread_choice d n s xs = Some b" "d \<noteq> 0"
  shows "cache_inv (s\<lparr>buf := (buf s)(b := bread_buf p d n b s)\<rparr>) xs"
proof (rule cache_inv_upd [where v = "bread_buf p d n b s", OF assms(1) bread_choice_Some(1) [OF assms(2)]])
  fix e
  assume e: "e \<in> set xs" "e \<noteq> b"
  show "\<not> caches s (dev (bread_buf p d n b s)) (bno (bread_buf p d n b s)) e"
  proof (cases "caches s d n b")
    case True
    with e assms(3) cache_invD(1) [OF assms(1) bread_choice_Some(1) [OF assms(2)], of e] show ?thesis
      by (auto simp: bread_buf_def)
  next
    case False
    with e bread_choice_Some(2) [OF assms(2)] show ?thesis by (auto simp: bread_buf_def)
  qed
qed (simp_all add: bread_buf_def split: if_splits)

lemma cache_inv_perm:
  "cache_inv s xs \<Longrightarrow> ring s' ys \<Longrightarrow> set ys = set xs \<Longrightarrow> buf s' = buf s \<Longrightarrow> fsdisk s' = fsdisk s \<Longrightarrow> cache_inv s' ys"
  unfolding cache_inv_def uniq_blocks_def by (simp only:) blast

lemma brelse_inv:
  assumes inv: "cache_inv s xs" and b: "b \<in> set xs" and own: "holdingbuf p b s"
    and clean: "refcnt (buf s b) = 1 \<Longrightarrow> valid (buf s b) \<Longrightarrow> bdata (buf s b) = fsdisk s (bno (buf s b))"
  shows "\<exists>s'. brelse p b s = Inr s' \<and> cache_inv s' (if refcnt (buf s b) = 1 then b # remove1 b xs else xs) \<and>
    fsdisk s' = fsdisk s \<and> buf s' = (buf s)(b := (buf s b)\<lparr>lock := None, refcnt := refcnt (buf s b) - 1\<rparr>)"
proof -
  let ?v = "(buf s b)\<lparr>lock := None, refcnt := refcnt (buf s b) - 1\<rparr>"
  let ?s = "s\<lparr>buf := (buf s)(b := ?v)\<rparr>"
  have pos: "0 < refcnt (buf s b)" using cache_invD(2) [OF inv b] own by (cases "refcnt (buf s b) = 0") (simp_all add: holdingbuf_def)
  have inv': "cache_inv ?s xs"
  proof (rule cache_inv_upd [where v = ?v, OF inv b])
    fix e
    assume "e \<in> set xs" "e \<noteq> b" "dev ?v \<noteq> 0"
    with cache_invD(1) [OF inv b, of e] show "\<not> caches s (dev ?v) (bno ?v) e" by auto
  next
    assume "valid ?v" "refcnt ?v = 0"
    with pos clean show "bdata ?v = fsdisk ?s (bno ?v)" by simp
  qed simp_all
  have eq: "brelse p b s = Inr (if refcnt (buf s b) = 1 then link_front b (unlink_buf b ?s) else ?s)"
    using own pos by (auto simp: brelse_def Let_def)
  show ?thesis
  proof (cases "refcnt (buf s b) = 1")
    case True
    obtain ys zs where xs: "xs = ys @ b # zs" using b by (meson split_list)
    have r: "ring ?s (ys @ b # zs)" using cache_inv_ring(1) [OF inv'] xs by simp
    then have d: "b \<noteq> 0" "b \<notin> set (ys @ zs)" by (auto simp: ring_def)
    have "ring (link_front b (unlink_buf b ?s)) (b # ys @ zs)"
      by (rule ring_link_front [OF ring_unlink [OF r] d])
    moreover have "remove1 b xs = ys @ zs" using d xs by (simp add: remove1_append)
    moreover have keep: "buf (link_front b (unlink_buf b t)) = buf t" "fsdisk (link_front b (unlink_buf b t)) = fsdisk t" for t
      by (simp_all add: link_front_def unlink_buf_def Let_def)
    ultimately have "cache_inv (link_front b (unlink_buf b ?s)) (b # remove1 b xs)"
      using xs by (intro cache_inv_perm [OF inv']) auto
    with True eq keep show ?thesis by simp
  qed (use inv' eq in simp)
qed

lemma init_buf_simps [simp]:
  "buf (init_buf b s) = (buf s)(b := (buf s b)\<lparr>lock := None\<rparr>)" "fsdisk (init_buf b s) = fsdisk s"
  by (simp_all add: init_buf_def link_front_def Let_def)

lemma binit_links:
  assumes "ring s xs" "distinct bs" "set bs \<inter> set xs = {}" "0 \<notin> set bs"
  shows "ring (fold init_buf bs s) (rev bs @ xs)"
  using assms
proof (induction bs arbitrary: s xs)
  case (Cons b bs)
  have "ring (s\<lparr>buf := v\<rparr>) xs" for v using Cons.prems(1) by (simp add: ring_def)
  then have "ring (init_buf b s) (b # xs)" unfolding init_buf_def using Cons.prems by (intro ring_link_front) auto
  from Cons.IH [OF this] Cons.prems show ?case by simp
qed simp

lemma binit_bufs:
  "fsdisk (fold init_buf bs s) = fsdisk s"
  "buf (fold init_buf bs s) e = (if e \<in> set bs then (buf s e)\<lparr>lock := None\<rparr> else buf s e)"
  by (induction bs arbitrary: s) auto

lemma binit_inv:
  assumes "\<And>b. \<not> valid (buf s b) \<and> dev (buf s b) = 0"
  shows "cache_inv (binit s) (rev [1..<NBUF + 1])"
proof -
  let ?s = "s\<lparr>prv := (prv s)(0 := 0), nxt := (nxt s)(0 := 0)\<rparr>"
  have eq: "binit s = fold init_buf [1..<NBUF + 1] ?s" by (simp add: binit_def)
  have "ring ?s []" by (simp add: ring_def)
  then have "ring (fold init_buf [1..<NBUF + 1] ?s) (rev [1..<NBUF + 1] @ [])"
    by (rule binit_links) auto
  then have "ring (binit s) (rev [1..<NBUF + 1])" by (simp only: eq append_Nil2)
  moreover have "set (rev [1..<NBUF + 1]) = {1..NBUF}" by auto
  moreover have b: "buf (binit s) e = (if e \<in> {1..NBUF} then (buf s e)\<lparr>lock := None\<rparr> else buf s e)" for e
    unfolding eq binit_bufs by auto
  have "uniq_blocks (binit s) A" for A
    using assms by (simp add: uniq_blocks_def b)
  ultimately show ?thesis
    using assms b by (simp add: cache_inv_def del: upt_Suc)
qed

lemma binit_buf:
  "b \<in> {1..NBUF} \<Longrightarrow> buf (binit s) b = (buf s b)\<lparr>lock := None\<rparr>" "fsdisk (binit s) = fsdisk s"
  by (simp_all add: binit_def binit_bufs del: upt_Suc)

section \<open>The properties of the cache\<close>

text \<open>On the zeroed memory the kernel boots with, \<^verbatim>\<open>binit\<close> builds a well-formed cache: the links form a ring through all \<open>NBUF\<close>
  buffers in both directions, and all buffers are unlocked.\<close>

theorem binit_builds_ring:
  assumes "\<forall>b. \<not> valid (buf s b) \<and> dev (buf s b) = 0 \<and> refcnt (buf s b) = 0"
  shows "cache_inv (binit s) (rev [1..<NBUF + 1]) \<and> (\<forall>b\<in>{1..NBUF}. lock (buf (binit s) b) = None \<and> refcnt (buf (binit s) b) = 0)"
proof
  show "cache_inv (binit s) (rev [1..<NBUF + 1])" using assms by (intro binit_inv) blast
qed (use assms in \<open>simp add: binit_buf\<close>)

definition demo_cache :: "bcache" where
  "demo_cache = \<lparr>buf = \<lambda>_. \<lparr>valid = False, dev = 0, bno = 0, lock = None, refcnt = 0, bdata = []\<rparr>, nxt = \<lambda>_. 0, prv = \<lambda>_. 0,
     fsdisk = \<lambda>n. replicate BSIZE (word_of_nat n)\<rparr>"

theorem binit_builds_ring_witness:
  "cache_inv (binit demo_cache) (rev [1..<NBUF + 1]) \<and> lock (buf (binit demo_cache) 30) = None"
  using binit_builds_ring [of demo_cache] by (simp add: demo_cache_def NBUF_def)

text \<open>C29: On a well-formed cache, \<^verbatim>\<open>bread\<close> of an unlocked block returns the buffer that caches it, or else the least recently used
  buffer without references, filled from the disk; when every buffer is referenced, \<^verbatim>\<open>bget\<close> panics. The buffer returned is locked by the
  caller, has one more reference and holds the block, the other buffers are as before, and the cache stays well formed: no block is ever
  cached twice.\<close>

theorem bread_returns_block:
  assumes "cache_inv s xs" and "d \<noteq> 0" and "\<forall>b\<in>set xs. caches s d n b \<longrightarrow> lock (buf s b) = None"
  shows "case bread_choice d n s xs of
      None \<Rightarrow> bread p d n s = Inl (Panic ''bget: no buffers'') \<and> (\<forall>b\<in>set xs. 0 < refcnt (buf s b))
    | Some b \<Rightarrow> \<exists>s'. bread p d n s = Inr (b, s') \<and> cache_inv s' xs \<and> fsdisk s' = fsdisk s \<and> caches s' d n b \<and>
        holdingbuf p b s' \<and> refcnt (buf s' b) = refcnt (buf s b) + 1 \<and> valid (buf s' b) \<and>
        bdata (buf s' b) = (if caches s d n b \<and> valid (buf s b) then bdata (buf s b) else fsdisk s n) \<and>
        (\<forall>e. e \<noteq> b \<longrightarrow> buf s' e = buf s e)"
proof (cases "bread_choice d n s xs")
  case None
  then have "find (\<lambda>b. refcnt (buf s b) = 0) (rev xs) = None" by (simp add: bread_choice_def split: option.splits)
  with None bread_eq [OF assms(1,3)] show ?thesis by (simp add: find_None_iff)
next
  case (Some b)
  with bread_choice_Some(2) [OF Some] bread_eq [OF assms(1,3), of p] bread_inv [OF assms(1) Some assms(2), of p] show ?thesis
    by (auto simp: bread_buf_def holdingbuf_def)
qed

lemma demo_cache_choice: "bread_choice 1 n (binit demo_cache) (rev [1..<NBUF + 1]) = Some 1"
proof -
  have "find (caches (binit demo_cache) 1 n) (rev [1..<NBUF + 1]) = None"
    by (auto simp: find_None_iff binit_buf demo_cache_def)
  moreover have "[1..<NBUF + 1] = 1 # [2..<NBUF + 1]" by (simp add: NBUF_def upt_conv_Cons)
  then have "find (\<lambda>b. refcnt (buf (binit demo_cache) b) = 0) [1..<NBUF + 1] = Some 1"
    by (simp add: binit_buf demo_cache_def NBUF_def del: upt_Suc)
  ultimately show ?thesis unfolding bread_choice_def rev_rev_ident by simp
qed

theorem bread_returns_block_witness:
  "\<exists>s'. bread 7 1 5 (binit demo_cache) = Inr (1, s') \<and> cache_inv s' (rev [1..<NBUF + 1]) \<and> holdingbuf 7 1 s' \<and>
    bdata (buf s' 1) = replicate BSIZE 5"
proof -
  have i: "cache_inv (binit demo_cache) (rev [1..<NBUF + 1])" by (rule binit_inv) (simp add: demo_cache_def)
  have l: "\<forall>b\<in>set (rev [1..<NBUF + 1]). caches (binit demo_cache) 1 5 b \<longrightarrow> lock (buf (binit demo_cache) b) = None"
    by (auto simp: binit_buf demo_cache_def)
  have "\<not> valid (buf (binit demo_cache) 1)" by (simp add: binit_buf demo_cache_def NBUF_def)
  then show ?thesis
    using bread_returns_block [OF i _ l, of 7] unfolding demo_cache_choice by (auto simp: demo_cache_def binit_buf)
qed

text \<open>C30: Releasing a held buffer refines the list view of the ring: \<^verbatim>\<open>brelse\<close> of the last reference moves the buffer to the front of
  the list, where it is the last to be recycled, and any other release leaves the order alone. Provided that a buffer whose last
  reference goes away agrees with the disk, the cache stays well formed.\<close>

theorem brelse_moves_to_front:
  assumes "cache_inv s xs" and "b \<in> set xs" and "holdingbuf p b s"
    and "refcnt (buf s b) = 1 \<longrightarrow> bdata (buf s b) = fsdisk s (bno (buf s b))"
  shows "\<exists>s'. brelse p b s = Inr s' \<and> cache_inv s' (if refcnt (buf s b) = 1 then b # remove1 b xs else xs) \<and>
    fsdisk s' = fsdisk s \<and> buf s' = (buf s)(b := (buf s b)\<lparr>lock := None, refcnt := refcnt (buf s b) - 1\<rparr>)"
  using assms by (intro brelse_inv) auto

definition demo_held :: bcache where
  "demo_held = (binit demo_cache)\<lparr>buf := (buf (binit demo_cache))(1 := bread_buf 7 1 5 1 (binit demo_cache))\<rparr>"

theorem brelse_moves_to_front_witness:
  "\<exists>s'. brelse 7 1 demo_held = Inr s' \<and> cache_inv s' (1 # remove1 1 (rev [1..<NBUF + 1]))"
proof -
  have "cache_inv (binit demo_cache) (rev [1..<NBUF + 1])" by (rule binit_inv) (simp add: demo_cache_def)
  then have "cache_inv demo_held (rev [1..<NBUF + 1])"
    unfolding demo_held_def by (intro bread_inv demo_cache_choice) auto
  moreover have "refcnt (buf demo_held 1) = 1" "holdingbuf 7 1 demo_held" "bdata (buf demo_held 1) = fsdisk demo_held (bno (buf demo_held 1))"
    by (simp_all add: demo_held_def bread_buf_def holdingbuf_def binit_buf demo_cache_def NBUF_def)
  moreover have "1 \<in> set (rev [1..<NBUF + 1])" by (simp add: NBUF_def)
  ultimately show ?thesis
    using brelse_moves_to_front [of demo_held "rev [1..<NBUF + 1]" 1 7] by auto
qed

section \<open>The cache as a block device\<close>

text \<open>
  How a client reads a block through the cache, and how it replaces one and writes it through. When no buffer is
  referenced, the blocks a client sees are those of the disk.
\<close>

definition cached_get :: "nat \<Rightarrow> nat \<Rightarrow> nat \<Rightarrow> bcache \<Rightarrow> fault + block \<times> bcache" where
  "cached_get p d n s =
     bindE (bread p d n s) (\<lambda>(b, s). bindE (brelse p b s) (\<lambda>s'. Inr (bdata (buf s b), s')))"

definition cached_put :: "nat \<Rightarrow> nat \<Rightarrow> nat \<Rightarrow> block \<Rightarrow> bcache \<Rightarrow> fault + bcache" where
  "cached_put p d n data s =
     bindE (bread p d n s) (\<lambda>(b, s). let s = s\<lparr>buf := (buf s)(b := (buf s b)\<lparr>bdata := data\<rparr>)\<rparr> in bindE (bwrite p b s) (brelse p b))"

definition idle_bufs :: "nat \<Rightarrow> bcache \<Rightarrow> nat set \<Rightarrow> bool" where
  "idle_bufs d s A \<longleftrightarrow> (\<forall>b\<in>A. refcnt (buf s b) = 0 \<and> (valid (buf s b) \<longrightarrow> dev (buf s b) = d))"

definition cache_idle :: "nat \<Rightarrow> bcache \<Rightarrow> bool" where
  "cache_idle d s \<longleftrightarrow> (\<exists>xs. cache_inv s xs \<and> idle_bufs d s (set xs))"

abbreviation held_buf :: "nat \<Rightarrow> nat \<Rightarrow> nat \<Rightarrow> block \<Rightarrow> buf" where
  "held_buf p d n data \<equiv> \<lparr>valid = True, dev = d, bno = n, lock = Some p, refcnt = 1, bdata = data\<rparr>"

lemma idle_bread:
  assumes "cache_inv s xs" "idle_bufs d s (set xs)" "d \<noteq> 0"
  obtains b s' where "bread p d n s = Inr (b, s')" "cache_inv s' xs" "b \<in> set xs"
    "s' = s\<lparr>buf := (buf s)(b := held_buf p d n (fsdisk s n))\<rparr>"
proof -
  have free: "refcnt (buf s e) = 0" "lock (buf s e) = None" if "e \<in> set xs" for e
    using cache_invD(2) [OF assms(1) that] assms(2) that by (simp_all add: idle_bufs_def)
  have "xs \<noteq> []" using cache_inv_ring(2) [OF assms(1)] by (auto simp: NBUF_def)
  then have "find (\<lambda>b. refcnt (buf s b) = 0) (rev xs) \<noteq> None" using free last_in_set [of xs] by (auto simp: find_None_iff)
  then obtain b where c: "bread_choice d n s xs = Some b"
    by (cases "bread_choice d n s xs") (auto simp: bread_choice_def split: option.splits)
  have b: "b \<in> set xs" by (rule bread_choice_Some(1) [OF c])
  have "bread_buf p d n b s = held_buf p d n (fsdisk s n)"
    using cache_invD(3) [OF assms(1) b] free [OF b] by (auto simp: bread_buf_def)
  with c b bread_eq [OF assms(1), of d n p] bread_inv [OF assms(1) c assms(3), of p] free show ?thesis
    by (intro that [of b "s\<lparr>buf := (buf s)(b := held_buf p d n (fsdisk s n))\<rparr>"]) simp_all
qed

lemma idle_brelse:
  assumes "cache_inv s xs" "b \<in> set xs" "buf s b = held_buf p d n (fsdisk s n)" "idle_bufs d s (set xs - {b})"
  shows "\<exists>s'. brelse p b s = Inr s' \<and> cache_idle d s' \<and> fsdisk s' = fsdisk s"
proof -
  obtain s' where s': "brelse p b s = Inr s'" "cache_inv s' (b # remove1 b xs)" "fsdisk s' = fsdisk s"
      "buf s' = (buf s)(b := (buf s b)\<lparr>lock := None, refcnt := 0\<rparr>)"
    using brelse_inv [OF assms(1,2), of p] assms(3) by (auto simp: holdingbuf_def)
  moreover have "idle_bufs d s' (set (b # remove1 b xs))"
    using assms(3,4) set_remove1_subset [of b xs] by (auto simp: idle_bufs_def s'(4))
  ultimately show ?thesis unfolding cache_idle_def by blast
qed

lemma cached_get_law:
  assumes "cache_idle d s" "d \<noteq> 0"
  shows "\<exists>s'. cached_get p d n s = Inr (fsdisk s n, s') \<and> cache_idle d s' \<and> fsdisk s' = fsdisk s"
proof -
  obtain xs where xs: "cache_inv s xs" "idle_bufs d s (set xs)" using assms(1) unfolding cache_idle_def by blast
  obtain b t where b: "bread p d n s = Inr (b, t)" "cache_inv t xs" "b \<in> set xs"
    "t = s\<lparr>buf := (buf s)(b := held_buf p d n (fsdisk s n))\<rparr>"
    by (rule idle_bread [OF xs assms(2)])
  have t: "fsdisk t = fsdisk s" "bdata (buf t b) = fsdisk s n" using b(4) by simp_all
  have "buf t b = held_buf p d n (fsdisk t n)" "idle_bufs d t (set xs - {b})"
    using xs(2) by (simp_all add: b(4) idle_bufs_def)
  from idle_brelse [OF b(2,3) this] b(1) t show ?thesis by (auto simp: cached_get_def)
qed

lemma cached_put_law:
  assumes "cache_idle d s" "d \<noteq> 0"
  shows "\<exists>s'. cached_put p d n data s = Inr s' \<and> cache_idle d s' \<and> fsdisk s' = (fsdisk s)(n := data)"
proof -
  obtain xs where xs: "cache_inv s xs" "idle_bufs d s (set xs)" using assms(1) unfolding cache_idle_def by blast
  obtain b t where b: "bread p d n s = Inr (b, t)" "cache_inv t xs" "b \<in> set xs"
    "t = s\<lparr>buf := (buf s)(b := held_buf p d n (fsdisk s n))\<rparr>"
    by (rule idle_bread [OF xs assms(2)])
  let ?v = "held_buf p d n data"
  let ?u = "t\<lparr>buf := (buf t)(b := ?v), fsdisk := (fsdisk t)(n := data)\<rparr>"
  have other: "\<not> caches t d n e" if "e \<in> set xs" "e \<noteq> b" for e
    using cache_invD(1) [OF b(2,3), of e] that assms(2) b(4) by auto
  have "cache_inv ?u xs"
  proof (rule cache_inv_upd [where v = ?v, OF b(2,3)])
    fix e
    assume e: "e \<in> set xs" "e \<noteq> b"
    show "\<not> caches t (dev ?v) (bno ?v) e" using other [OF e] by simp
    assume "valid (buf t e)"
    then have "dev (buf t e) = d" using xs(2) e b(4) by (simp add: idle_bufs_def)
    with other [OF e] show "fsdisk ?u (bno (buf t e)) = fsdisk t (bno (buf t e))" by auto
  qed simp_all
  moreover have "bwrite p b (t\<lparr>buf := (buf t)(b := (buf t b)\<lparr>bdata := data\<rparr>)\<rparr>) = Inr ?u"
    using b(4) by (simp add: bwrite_def holdingbuf_def)
  moreover have "idle_bufs d ?u (set xs - {b})" using xs(2) b(4) by (simp add: idle_bufs_def)
  moreover have "buf ?u b = held_buf p d n (fsdisk ?u n)" "fsdisk ?u = (fsdisk s)(n := data)" using b(4) by simp_all
  ultimately show ?thesis
    using idle_brelse [OF _ b(3), where s = ?u and p = p and d = d and n = n] b(1) by (simp only: cached_put_def Let_def bindE_simps prod.case)
qed

interpretation cached: block_device "cached_get p d" "cached_put p d" "\<lambda>s. cache_idle d s \<and> d \<noteq> 0" fsdisk capacity
proof
  show "\<exists>s'. cached_get p d b s = Inr (fsdisk s b, s') \<and> (cache_idle d s' \<and> d \<noteq> 0) \<and> (\<forall>e<capacity. fsdisk s' e = fsdisk s e)"
    if "cache_idle d s \<and> d \<noteq> 0" for s b
    using cached_get_law [of d s p b] that by auto
  show "\<exists>s'. cached_put p d b data s = Inr s' \<and> (cache_idle d s' \<and> d \<noteq> 0) \<and>
      (\<forall>e<capacity. fsdisk s' e = (if e = b then data else fsdisk s e))"
    if "cache_idle d s \<and> d \<noteq> 0" for s b data
    using cached_put_law [of d s p b data] that by auto
qed

text \<open>C16: The cache is transparent: whatever the cached state, a script of reads and written-through writes of one device returns exactly
  what an array with the contents of the disk returns, however often buffers are recycled on the way.\<close>

theorem cache_refines_array:
  assumes "cache_idle d s" and "d \<noteq> 0" and "list_all (op_in_range capacity) ops"
  shows "\<exists>s'. device_run (cached_get p d) (cached_put p d) ops s = Inr (array_run (fsdisk s) ops, s') \<and> cache_idle d s'"
  using cached.run_is_array_run [of d s capacity ops "fsdisk s" p] assms by auto

theorem cache_refines_array_witness:
  "\<exists>s'. device_run (cached_get 7 1) (cached_put 7 1) [Get 5, Put 5 (replicate BSIZE 1), Get 5, Get 6] (binit demo_cache) =
     Inr ([replicate BSIZE 5, replicate BSIZE 1, replicate BSIZE 6], s') \<and> cache_idle 1 s'"
proof -
  have "cache_inv (binit demo_cache) (rev [1..<NBUF + 1])" by (rule binit_inv) (simp add: demo_cache_def)
  moreover have "idle_bufs 1 (binit demo_cache) (set (rev [1..<NBUF + 1]))"
    by (auto simp: idle_bufs_def binit_buf demo_cache_def)
  ultimately have "cache_idle 1 (binit demo_cache)" unfolding cache_idle_def by blast
  from cache_refines_array [OF this, of 100 "[Get 5, Put 5 (replicate BSIZE 1), Get 5, Get 6]" 7] show ?thesis
    by (simp add: binit_buf demo_cache_def)
qed

end
