(* ===== verification/Bio_Spec.thy ===== *)
theory Bio_Spec
  imports Bio
begin

text \<open>
  What the buffer cache promises to the layers above it, without buffers and links: every block of the device \<open>d\<close> has
  contents (\<open>view\<close>: what a reader sees, which may be newer than the disk), a number of references and possibly a
  holder of its lock. \<open>cache_rel\<close> relates a cache to this view and each operation is shown to act on the view as its
  specification says. \<open>room\<close> says that a buffer is left for a block.
\<close>

record acache =
  view :: "nat \<Rightarrow> block"
  refs :: "nat \<Rightarrow> nat"
  held :: "nat \<Rightarrow> nat option"

definition buf_rel :: "nat \<Rightarrow> buf \<Rightarrow> acache \<Rightarrow> bool" where
  "buf_rel d v a \<longleftrightarrow> (valid v \<longrightarrow> dev v = d \<and> bdata v = view a (bno v) \<and> refcnt v = refs a (bno v) \<and> lock v = held a (bno v)) \<and>
     (0 < refcnt v \<longrightarrow> valid v)"

definition uncached :: "bcache \<Rightarrow> nat list \<Rightarrow> nat \<Rightarrow> bool" where
  "uncached s xs n \<longleftrightarrow> (\<forall>b\<in>set xs. valid (buf s b) \<longrightarrow> bno (buf s b) \<noteq> n)"

definition cache_rel :: "nat \<Rightarrow> bcache \<Rightarrow> nat list \<Rightarrow> acache \<Rightarrow> bool" where
  "cache_rel d s xs a \<longleftrightarrow> d \<noteq> 0 \<and> cache_inv s xs \<and> (\<forall>b\<in>set xs. buf_rel d (buf s b) a) \<and>
     (\<forall>n. uncached s xs n \<longrightarrow> refs a n = 0 \<and> held a n = None \<and> view a n = fsdisk s n)"

definition room :: "acache \<Rightarrow> nat \<Rightarrow> bool" where
  "room a n \<longleftrightarrow> 0 < refs a n \<or> card {n. 0 < refs a n} < NBUF"

definition in_buf :: "nat \<Rightarrow> bcache \<Rightarrow> nat \<Rightarrow> nat \<Rightarrow> bool" where
  "in_buf d s n b \<longleftrightarrow> b \<in> {1..NBUF} \<and> valid (buf s b) \<and> caches s d n b"

lemma cache_relD:
  assumes "cache_rel d s xs a"
  shows "cache_inv s xs" "d \<noteq> 0" "b \<in> set xs \<Longrightarrow> buf_rel d (buf s b) a"
    "uncached s xs n \<Longrightarrow> refs a n = 0 \<and> held a n = None \<and> view a n = fsdisk s n"
  using assms by (auto simp: cache_rel_def)

lemma cache_rel_set: "cache_rel d s xs a \<Longrightarrow> set xs = {1..NBUF}"
  by (rule cache_inv_ring(3) [OF cache_relD(1)])

lemma in_buf_iff: "cache_rel d s xs a \<Longrightarrow> in_buf d s n b \<longleftrightarrow> b \<in> set xs \<and> valid (buf s b) \<and> caches s d n b"
  by (simp add: in_buf_def cache_rel_set)

lemma in_bufD:
  assumes "cache_rel d s xs a" "in_buf d s n b"
  shows "bdata (buf s b) = view a n" "refcnt (buf s b) = refs a n" "lock (buf s b) = held a n" "bno (buf s b) = n" "dev (buf s b) = d"
    "valid (buf s b)" "b \<in> set xs"
  using assms cache_relD(3) [OF assms(1), of b] by (auto simp: in_buf_iff [OF assms(1)] buf_rel_def)

lemma in_buf_unique:
  assumes "cache_rel d s xs a" "in_buf d s n b" "e \<in> set xs" "caches s d n e"
  shows "e = b"
  using cache_invD(1) [OF cache_relD(1) [OF assms(1)], of b e] assms cache_relD(2) [OF assms(1)]
  by (simp add: in_buf_iff [OF assms(1)])

lemma refs_cached:
  assumes "cache_rel d s xs a" "0 < refs a n"
  shows "\<exists>b. in_buf d s n b"
proof -
  have "\<not> uncached s xs n" using cache_relD(4) [OF assms(1), of n] assms(2) by auto
  then obtain b where "b \<in> set xs" "valid (buf s b)" "bno (buf s b) = n" by (auto simp: uncached_def)
  moreover from this have "dev (buf s b) = d" using cache_relD(3) [OF assms(1), of b] by (simp add: buf_rel_def)
  ultimately show ?thesis by (auto simp: in_buf_iff [OF assms(1)])
qed

lemma clean_view:
  assumes "cache_rel d s xs a" "refs a n = 0"
  shows "view a n = fsdisk s n"
proof (cases "uncached s xs n")
  case False
  then obtain b where b: "b \<in> set xs" "valid (buf s b)" "bno (buf s b) = n" by (auto simp: uncached_def)
  with cache_relD(3) [OF assms(1) b(1)] assms(2) cache_invD(3) [OF cache_relD(1) [OF assms(1)] b(1)] show ?thesis
    by (auto simp: buf_rel_def)
qed (use cache_relD(4) [OF assms(1)] in simp)

text \<open>Changing one buffer, with the block it holds before and after.\<close>

lemma cache_rel_upd:
  assumes rel: "cache_rel d s xs a" and b: "in_buf d s n b"
    and inv: "cache_inv s' ys" "set ys = set xs" "buf s' = (buf s)(b := v)"
    and v: "bno v = n" "dev v = d" "valid v" "bdata v = view a' n" "refcnt v = refs a' n" "lock v = held a' n"
    and others: "\<And>m. m \<noteq> n \<Longrightarrow> view a' m = view a m \<and> refs a' m = refs a m \<and> held a' m = held a m \<and> fsdisk s' m = fsdisk s m"
  shows "cache_rel d s' ys a'" "in_buf d s' n b"
proof -
  have bo: "bno (buf s e) \<noteq> n" if "e \<in> set xs" "e \<noteq> b" "valid (buf s e)" for e
    using in_buf_unique [OF rel b that(1)] that cache_relD(3) [OF rel that(1)] by (auto simp: buf_rel_def)
  show "cache_rel d s' ys a'"
    unfolding cache_rel_def
  proof (intro conjI ballI allI impI)
    show "d \<noteq> 0" by (rule cache_relD(2) [OF rel])
    show "cache_inv s' ys" by fact
  next
    fix e
    assume "e \<in> set ys"
    then have e: "e \<in> set xs" using inv(2) by simp
    show "buf_rel d (buf s' e) a'"
    proof (cases "e = b")
      case True
      with v inv(3) show ?thesis by (simp add: buf_rel_def)
    next
      case False
      with cache_relD(3) [OF rel e] bo [OF e False] others [of "bno (buf s e)"] inv(3) show ?thesis by (auto simp: buf_rel_def)
    qed
  next
    fix m
    assume u: "uncached s' ys m"
    then have m: "m \<noteq> n" using b v inv by (auto simp: uncached_def in_buf_iff [OF rel])
    have "uncached s xs m"
      unfolding uncached_def
    proof (intro ballI impI)
      fix e assume "e \<in> set xs" "valid (buf s e)"
      with u m inv(2,3) b show "bno (buf s e) \<noteq> m" by (cases "e = b") (auto simp: uncached_def in_buf_iff [OF rel])
    qed
    with cache_relD(4) [OF rel, of m] others [OF m]
    show "refs a' m = 0" "held a' m = None" "view a' m = fsdisk s' m" by auto
  qed
  show "in_buf d s' n b" using b v inv by (simp add: in_buf_def)
qed

section \<open>The operations\<close>

lemma find_None_free: "find P (rev xs) = None \<longleftrightarrow> (\<forall>b\<in>set xs. \<not> P b)"
  by (auto simp: find_None_iff)

lemma room_free_buf:
  assumes rel: "cache_rel d s xs a" and "room a n" "refs a n = 0"
  shows "\<exists>b\<in>set xs. refcnt (buf s b) = 0"
proof (rule ccontr)
  assume "\<not> ?thesis"
  then have all: "valid (buf s b) \<and> dev (buf s b) = d \<and> 0 < refs a (bno (buf s b))" if "b \<in> set xs" for b
    using cache_relD(3) [OF rel that] that by (auto simp: buf_rel_def)
  have inj: "inj_on (\<lambda>b. bno (buf s b)) (set xs)"
  proof (rule inj_onI)
    fix b e
    assume "b \<in> set xs" "e \<in> set xs" "bno (buf s b) = bno (buf s e)"
    with all cache_relD(2) [OF rel] show "b = e"
      by (intro cache_invD(1) [OF cache_relD(1) [OF rel], of e b]) auto
  qed
  have "{n. 0 < refs a n} \<subseteq> (\<lambda>b. bno (buf s b)) ` set xs"
    using refs_cached [OF rel] by (auto simp: in_buf_iff [OF rel])
  then have fin: "finite {n. 0 < refs a n}" by (rule finite_subset) simp
  have "NBUF = card (set xs)" using cache_inv_ring(3) [OF cache_relD(1) [OF rel]] by simp
  also have "\<dots> = card ((\<lambda>b. bno (buf s b)) ` set xs)" using inj by (simp add: card_image)
  also have "\<dots> \<le> card {n. 0 < refs a n}" using all fin by (intro card_mono) auto
  finally show False using assms(2,3) by (simp add: room_def)
qed

lemma bread_chosen:
  assumes rel: "cache_rel d s xs a" and "held a n = None" "room a n"
  obtains b where "bread_choice d n s xs = Some b" "b \<in> set xs"
    "bread p d n s = Inr (b, s\<lparr>buf := (buf s)(b := bread_buf p d n b s)\<rparr>)"
proof -
  have free: "lock (buf s b) = None" if "b \<in> set xs" "caches s d n b" for b
  proof (cases "refcnt (buf s b) = 0")
    case True
    then show ?thesis by (rule cache_invD(2) [OF cache_relD(1) [OF rel] that(1)])
  next
    case False
    with cache_relD(3) [OF rel that(1)] that(2) assms(2) show ?thesis by (simp add: buf_rel_def)
  qed
  have "bread_choice d n s xs \<noteq> None"
  proof (cases "refs a n = 0")
    case True
    then have "find (\<lambda>b. refcnt (buf s b) = 0) (rev xs) \<noteq> None"
      unfolding find_None_free using room_free_buf [OF rel assms(3)] by blast
    then show ?thesis by (simp add: bread_choice_def split: option.splits)
  next
    case False
    then obtain b where "in_buf d s n b" using refs_cached [OF rel] by blast
    then have "find (caches s d n) xs \<noteq> None" by (auto simp: find_None_iff in_buf_iff [OF rel])
    then show ?thesis by (auto simp: bread_choice_def)
  qed
  then obtain b where b: "bread_choice d n s xs = Some b" by blast
  show ?thesis
  proof (rule that [OF b bread_choice_Some(1) [OF b]])
    show "bread p d n s = Inr (b, s\<lparr>buf := (buf s)(b := bread_buf p d n b s)\<rparr>)"
      using bread_eq [OF cache_relD(1) [OF rel], of d n p] free b by simp
  qed
qed

text \<open>A buffer without references takes another block; the block it held before is back to what the disk says.\<close>

lemma cache_rel_recycle:
  assumes rel: "cache_rel d s xs a" and b: "b \<in> set xs" "refcnt (buf s b) = 0" and n: "uncached s xs n"
    and s': "s' = s\<lparr>buf := (buf s)(b := held_buf p d n (fsdisk s n))\<rparr>" and inv: "cache_inv s' xs"
  shows "cache_rel d s' xs (a\<lparr>refs := (refs a)(n := 1), held := (held a)(n := Some p)\<rparr>)"
  unfolding cache_rel_def
proof (intro conjI ballI allI impI)
  show "d \<noteq> 0" by (rule cache_relD(2) [OF rel])
next
  fix e
  assume e: "e \<in> set xs"
  show "buf_rel d (buf s' e) (a\<lparr>refs := (refs a)(n := 1), held := (held a)(n := Some p)\<rparr>)"
    using cache_relD(3) [OF rel e] cache_relD(4) [OF rel n] e n s'
    by (cases "e = b") (auto simp: buf_rel_def uncached_def)
next
  fix m
  assume u: "uncached s' xs m"
  then have m: "m \<noteq> n" using b(1) s' by (auto simp: uncached_def)
  have "refs a m = 0 \<and> held a m = None \<and> view a m = fsdisk s m"
  proof (cases "uncached s xs m")
    case True
    then show ?thesis by (rule cache_relD(4) [OF rel])
  next
    case False
    then obtain e where e: "e \<in> set xs" "valid (buf s e)" "bno (buf s e) = m" by (auto simp: uncached_def)
    with u s' have "e = b" by (auto simp: uncached_def split: if_splits)
    with e b(2) cache_relD(3) [OF rel e(1)] cache_invD(2) [OF cache_relD(1) [OF rel] b(1,2)]
    have "refs a m = 0" "held a m = None" by (auto simp: buf_rel_def)
    with clean_view [OF rel] show ?thesis by simp
  qed
  with m s' show "refs (a\<lparr>refs := (refs a)(n := 1), held := (held a)(n := Some p)\<rparr>) m = 0"
    "held (a\<lparr>refs := (refs a)(n := 1), held := (held a)(n := Some p)\<rparr>) m = None"
    "view (a\<lparr>refs := (refs a)(n := 1), held := (held a)(n := Some p)\<rparr>) m = fsdisk s' m" by auto
qed (rule inv)

lemma bread_rel:
  assumes rel: "cache_rel d s xs a" and free: "held a n = None" "room a n"
  obtains b s' where "bread p d n s = Inr (b, s')" "fsdisk s' = fsdisk s" "in_buf d s' n b"
    "cache_rel d s' xs (a\<lparr>refs := (refs a)(n := refs a n + 1), held := (held a)(n := Some p)\<rparr>)"
    "\<And>m e. 0 < refs a m \<Longrightarrow> in_buf d s m e \<Longrightarrow> in_buf d s' m e"
proof -
  obtain b where b: "bread_choice d n s xs = Some b" "b \<in> set xs"
    "bread p d n s = Inr (b, s\<lparr>buf := (buf s)(b := bread_buf p d n b s)\<rparr>)" by (rule bread_chosen [OF assms])
  let ?s = "s\<lparr>buf := (buf s)(b := bread_buf p d n b s)\<rparr>"
  let ?a = "a\<lparr>refs := (refs a)(n := refs a n + 1), held := (held a)(n := Some p)\<rparr>"
  have inv: "cache_inv ?s xs" by (rule bread_inv [OF cache_relD(1) [OF rel] b(1) cache_relD(2) [OF rel]])
  have "cache_rel d ?s xs ?a \<and> in_buf d ?s n b"
  proof (cases "caches s d n b \<and> valid (buf s b)")
    case True
    then have i: "in_buf d s n b" using b(2) by (simp add: in_buf_iff [OF rel])
    show ?thesis
      by (intro conjI cache_rel_upd [OF rel i inv, where v = "bread_buf p d n b s" and a' = ?a])
        (use True in_bufD [OF rel i] in \<open>simp_all add: bread_buf_def\<close>)
  next
    case False
    have u: "uncached s xs n"
      unfolding uncached_def
    proof (intro ballI impI notI)
      fix e
      assume e: "e \<in> set xs" "valid (buf s e)" "bno (buf s e) = n"
      then have i: "in_buf d s n e" using cache_relD(3) [OF rel e(1)] by (simp add: in_buf_iff [OF rel] buf_rel_def)
      with bread_choice_Some [OF b(1)] in_buf_unique [OF rel i b(2)] False e show False by (auto simp: in_buf_iff [OF rel])
    qed
    have r: "refcnt (buf s b) = 0"
      using False bread_choice_Some(2) [OF b(1)] cache_relD(3) [OF rel b(2)] by (auto simp: buf_rel_def)
    have v: "bread_buf p d n b s = held_buf p d n (fsdisk s n)" using False r by (auto simp: bread_buf_def)
    have "?a = a\<lparr>refs := (refs a)(n := 1), held := (held a)(n := Some p)\<rparr>" using cache_relD(4) [OF rel u] by simp
    with cache_rel_recycle [OF rel b(2) r u, of ?s p] inv b(2) v cache_rel_set [OF rel] show ?thesis by (simp add: in_buf_def)
  qed
  moreover have "in_buf d ?s m e" if m: "0 < refs a m" "in_buf d s m e" for m e
  proof (cases "e = b")
    case True
    with in_bufD [OF rel m(2)] m(1) bread_choice_Some(2) [OF b(1)] have "m = n" by auto
    with True m(2) show ?thesis by (simp add: in_buf_def bread_buf_def)
  qed (use m(2) in \<open>simp add: in_buf_def\<close>)
  ultimately show ?thesis using b(3) by (intro that [of b ?s]) auto
qed

lemma modify_rel:
  assumes rel: "cache_rel d s xs a" and b: "in_buf d s n b" "0 < refs a n"
  shows "cache_rel d (s\<lparr>buf := (buf s)(b := (buf s b)\<lparr>bdata := x\<rparr>)\<rparr>) xs (a\<lparr>view := (view a)(n := x)\<rparr>)"
    "in_buf d (s\<lparr>buf := (buf s)(b := (buf s b)\<lparr>bdata := x\<rparr>)\<rparr>) n b"
proof -
  let ?v = "(buf s b)\<lparr>bdata := x\<rparr>"
  let ?s = "s\<lparr>buf := (buf s)(b := ?v)\<rparr>"
  have i: "cache_inv ?s xs"
  proof (rule cache_inv_upd [where v = ?v, OF cache_relD(1) [OF rel] in_bufD(7) [OF rel b(1)]])
    fix e
    assume "e \<in> set xs" "e \<noteq> b"
    with in_buf_unique [OF rel b(1), of e] in_bufD [OF rel b(1)] show "\<not> caches s (dev ?v) (bno ?v) e" by auto
  next
    assume "lock ?v \<noteq> None"
    with in_bufD [OF rel b(1)] b(2) show "0 < refcnt ?v" by simp
  qed (use b(2) in_bufD [OF rel b(1)] in simp_all)
  show "cache_rel d ?s xs (a\<lparr>view := (view a)(n := x)\<rparr>)" "in_buf d ?s n b"
    by (rule cache_rel_upd [OF rel b(1) i, where v = ?v and a' = "a\<lparr>view := (view a)(n := x)\<rparr>"]; use in_bufD [OF rel b(1)] in simp)+
qed

lemma bwrite_rel:
  assumes rel: "cache_rel d s xs a" and b: "in_buf d s n b" "held a n = Some p"
  shows "\<exists>s'. bwrite p b s = Inr s' \<and> cache_rel d s' xs a \<and> fsdisk s' = (fsdisk s)(n := view a n) \<and> buf s' = buf s"
proof -
  let ?s = "s\<lparr>fsdisk := (fsdisk s)(n := view a n)\<rparr>"
  have eq: "bwrite p b s = Inr ?s" using in_bufD [OF rel b(1)] b(2) by (simp add: bwrite_def holdingbuf_def)
  have i: "cache_inv ?s xs"
  proof (rule cache_inv_upd [where v = "buf s b", OF cache_relD(1) [OF rel] in_bufD(7) [OF rel b(1)]])
    fix e
    assume e: "e \<in> set xs" "e \<noteq> b"
    with in_buf_unique [OF rel b(1), of e] in_bufD [OF rel b(1)] show "\<not> caches s (dev (buf s b)) (bno (buf s b)) e" by auto
    assume "valid (buf s e)"
    with e in_buf_unique [OF rel b(1) e(1)] cache_relD(3) [OF rel e(1)]
    show "fsdisk ?s (bno (buf s e)) = fsdisk s (bno (buf s e))" by (auto simp: buf_rel_def)
  next
    assume "lock (buf s b) \<noteq> None"
    with cache_invD(2) [OF cache_relD(1) [OF rel] in_bufD(7) [OF rel b(1)]] show "0 < refcnt (buf s b)"
      by (cases "refcnt (buf s b) = 0") simp_all
  qed (use in_bufD [OF rel b(1)] in simp_all)
  have "cache_rel d ?s xs a"
    by (rule cache_rel_upd(1) [OF rel b(1) i, where v = "buf s b"]) (use in_bufD [OF rel b(1)] in simp_all)
  with eq show ?thesis by simp
qed

lemma brelse_rel:
  assumes rel: "cache_rel d s xs a" and b: "in_buf d s n b" "held a n = Some p"
    and clean: "refs a n = 1 \<Longrightarrow> view a n = fsdisk s n"
  shows "\<exists>s' ys. brelse p b s = Inr s' \<and> fsdisk s' = fsdisk s \<and> (\<forall>m e. in_buf d s m e \<longrightarrow> in_buf d s' m e) \<and>
    cache_rel d s' ys (a\<lparr>refs := (refs a)(n := refs a n - 1), held := (held a)(n := None)\<rparr>)"
proof -
  let ?ys = "if refcnt (buf s b) = 1 then b # remove1 b xs else xs"
  have "holdingbuf p b s" using in_bufD [OF rel b(1)] b(2) by (simp add: holdingbuf_def)
  then obtain s' where s': "brelse p b s = Inr s'" "cache_inv s' ?ys" "fsdisk s' = fsdisk s"
      "buf s' = (buf s)(b := (buf s b)\<lparr>lock := None, refcnt := refcnt (buf s b) - 1\<rparr>)"
    using brelse_inv [OF cache_relD(1) [OF rel] in_bufD(7) [OF rel b(1)], of p] in_bufD [OF rel b(1)] clean by auto
  have ys: "set ?ys = set xs"
    using cache_inv_ring(3) [OF s'(2)] cache_inv_ring(3) [OF cache_relD(1) [OF rel]] by simp
  have "cache_rel d s' ?ys (a\<lparr>refs := (refs a)(n := refs a n - 1), held := (held a)(n := None)\<rparr>)"
    by (rule cache_rel_upd(1) [OF rel b(1) s'(2) ys s'(4)]) (use in_bufD [OF rel b(1)] s'(3) in simp_all)
  moreover have "\<forall>m e. in_buf d s m e \<longrightarrow> in_buf d s' m e" by (simp add: in_buf_def s'(4))
  ultimately show ?thesis using s' by blast
qed

text \<open>Pinning and unpinning a block.\<close>

lemma refs_rel:
  assumes rel: "cache_rel d s xs a" and b: "in_buf d s n b"
    and r: "held a n \<noteq> None \<Longrightarrow> 0 < k" "k = 0 \<Longrightarrow> view a n = fsdisk s n"
  shows "cache_rel d (s\<lparr>buf := (buf s)(b := (buf s b)\<lparr>refcnt := k\<rparr>)\<rparr>) xs (a\<lparr>refs := (refs a)(n := k)\<rparr>)"
proof -
  let ?v = "(buf s b)\<lparr>refcnt := k\<rparr>"
  let ?s = "s\<lparr>buf := (buf s)(b := ?v)\<rparr>"
  have i: "cache_inv ?s xs"
  proof (rule cache_inv_upd [where v = ?v, OF cache_relD(1) [OF rel] in_bufD(7) [OF rel b]])
    fix e
    assume "e \<in> set xs" "e \<noteq> b"
    with in_buf_unique [OF rel b, of e] in_bufD [OF rel b] show "\<not> caches s (dev ?v) (bno ?v) e" by auto
  next
    assume "lock ?v \<noteq> None"
    with in_bufD [OF rel b] r show "0 < refcnt ?v" by simp
  qed (use in_bufD [OF rel b] r in simp_all)
  show ?thesis
    by (rule cache_rel_upd(1) [OF rel b i, where v = ?v and a' = "a\<lparr>refs := (refs a)(n := k)\<rparr>"]) (use in_bufD [OF rel b] in simp_all)
qed

section \<open>The rules for clients\<close>

definition cache_ok :: "nat \<Rightarrow> bcache \<Rightarrow> acache \<Rightarrow> bool" where
  "cache_ok d s a \<longleftrightarrow> (\<exists>xs. cache_rel d s xs a)"

definition got :: "nat \<Rightarrow> nat \<Rightarrow> acache \<Rightarrow> acache" where
  "got p n a = a\<lparr>refs := (refs a)(n := refs a n + 1), held := (held a)(n := Some p)\<rparr>"

definition dropped :: "nat \<Rightarrow> acache \<Rightarrow> acache" where
  "dropped n a = a\<lparr>refs := (refs a)(n := refs a n - 1), held := (held a)(n := None)\<rparr>"

definition set_data :: "nat \<Rightarrow> block \<Rightarrow> bcache \<Rightarrow> bcache" where
  "set_data b x s = s\<lparr>buf := (buf s)(b := (buf s b)\<lparr>bdata := x\<rparr>)\<rparr>"

lemma set_data_simps [simp]: "fsdisk (set_data b x s) = fsdisk s" "in_buf d (set_data b x s) m e = in_buf d s m e"
  by (simp_all add: set_data_def in_buf_def)

lemma acache_simps [simp]:
  "view (got p n a) = view a" "refs (got p n a) = (refs a)(n := refs a n + 1)" "held (got p n a) = (held a)(n := Some p)"
  "view (dropped n a) = view a" "refs (dropped n a) = (refs a)(n := refs a n - 1)" "held (dropped n a) = (held a)(n := None)"
  by (simp_all add: got_def dropped_def)

lemma bread_ok:
  assumes "cache_ok d s a" "held a n = None" "room a n"
  obtains b s' where "bread p d n s = Inr (b, s')" "fsdisk s' = fsdisk s" "in_buf d s' n b" "cache_ok d s' (got p n a)"
    "\<And>m e. 0 < refs a m \<Longrightarrow> in_buf d s m e \<Longrightarrow> in_buf d s' m e"
proof -
  obtain xs where rel: "cache_rel d s xs a" using assms(1) by (auto simp: cache_ok_def)
  obtain b s' where b: "bread p d n s = Inr (b, s')" "fsdisk s' = fsdisk s" "in_buf d s' n b"
    "cache_rel d s' xs (a\<lparr>refs := (refs a)(n := refs a n + 1), held := (held a)(n := Some p)\<rparr>)"
    and keep: "\<And>m e. 0 < refs a m \<Longrightarrow> in_buf d s m e \<Longrightarrow> in_buf d s' m e"
    using bread_rel [OF rel assms(2,3), of p] by metis
  from b(4) have "cache_ok d s' (got p n a)" unfolding cache_ok_def got_def by blast
  with b(1-3) keep show ?thesis by (intro that [of b s'])
qed

lemma in_buf_data: "cache_ok d s a \<Longrightarrow> in_buf d s n b \<Longrightarrow> bdata (buf s b) = view a n \<and> bno (buf s b) = n"
  using in_bufD by (auto simp: cache_ok_def)

lemma set_data_ok:
  "cache_ok d s a \<Longrightarrow> in_buf d s n b \<Longrightarrow> 0 < refs a n \<Longrightarrow> cache_ok d (set_data b x s) (a\<lparr>view := (view a)(n := x)\<rparr>)"
  unfolding cache_ok_def set_data_def using modify_rel(1) by blast

lemma bwrite_ok:
  assumes "cache_ok d s a" "in_buf d s n b" "held a n = Some p"
  obtains s' where "bwrite p b s = Inr s'" "cache_ok d s' a" "fsdisk s' = (fsdisk s)(n := view a n)" "\<And>m e. in_buf d s' m e = in_buf d s m e"
  using assms bwrite_rel [OF _ assms(2,3)] that unfolding cache_ok_def in_buf_def by (metis (no_types, lifting))

lemma brelse_ok:
  assumes "cache_ok d s a" "in_buf d s n b" "held a n = Some p" "refs a n = 1 \<longrightarrow> view a n = fsdisk s n"
  obtains s' where "brelse p b s = Inr s'" "cache_ok d s' (dropped n a)" "fsdisk s' = fsdisk s" "\<And>m e. in_buf d s m e \<Longrightarrow> in_buf d s' m e"
proof -
  obtain xs where rel: "cache_rel d s xs a" using assms(1) by (auto simp: cache_ok_def)
  show ?thesis using brelse_rel [OF rel assms(2,3)] assms(4) that by (auto simp: cache_ok_def dropped_def)
qed

lemma bpin_ok:
  assumes "cache_ok d s a" "in_buf d s n b"
  shows "cache_ok d (bpin b s) (a\<lparr>refs := (refs a)(n := refs a n + 1)\<rparr>)" "fsdisk (bpin b s) = fsdisk s" "in_buf d (bpin b s) m e = in_buf d s m e"
proof -
  obtain xs where rel: "cache_rel d s xs a" using assms(1) by (auto simp: cache_ok_def)
  show "cache_ok d (bpin b s) (a\<lparr>refs := (refs a)(n := refs a n + 1)\<rparr>)"
    using refs_rel [OF rel assms(2), of "refs a n + 1"] in_bufD(2) [OF rel assms(2)] by (auto simp: cache_ok_def bpin_def)
qed (simp_all add: bpin_def in_buf_def)

lemma bunpin_ok:
  assumes "cache_ok d s a" "in_buf d s n b" "1 < refs a n"
  shows "cache_ok d (bunpin b s) (a\<lparr>refs := (refs a)(n := refs a n - 1)\<rparr>)" "fsdisk (bunpin b s) = fsdisk s" "in_buf d (bunpin b s) m e = in_buf d s m e"
proof -
  obtain xs where rel: "cache_rel d s xs a" using assms(1) by (auto simp: cache_ok_def)
  show "cache_ok d (bunpin b s) (a\<lparr>refs := (refs a)(n := refs a n - 1)\<rparr>)"
    using refs_rel [OF rel assms(2), of "refs a n - 1"] in_bufD(2) [OF rel assms(2)] assms(3) by (auto simp: cache_ok_def bunpin_def)
qed (simp_all add: bunpin_def in_buf_def)

end
