(* ===== verification/Log.thy ===== *)
theory Log
  imports Bio_Spec
begin

text \<open>
  The write-ahead log, \<^verbatim>\<open>kernel/log.c\<close>, on the buffer cache of \<^verbatim>\<open>Bio\<close>. The in-memory header \<^verbatim>\<open>log.lh\<close> is the list of its
  \<^verbatim>\<open>n\<close> block numbers. \<open>written\<close> is not part of the program: it records the blocks that reach the disk in their order, so
  that the disk a crash leaves behind is a prefix of it. \<^verbatim>\<open>commit\<close> runs while no system call is inside a transaction;
  readers outside of transactions, which may hold buffers for a moment, are not modelled.
\<close>

section \<open>Data and operations\<close>

definition MAXOPBLOCKS :: nat where "MAXOPBLOCKS = 10"
definition LOGSIZE :: nat where "LOGSIZE = MAXOPBLOCKS * 3"

record logsys =
  cache :: bcache
  log_start :: nat
  log_size :: nat
  outstanding :: int
  committing :: bool
  log_dev :: nat
  lh :: "nat list"
  written :: "(nat \<times> block) list"

definition lbread :: "nat \<Rightarrow> nat \<Rightarrow> logsys \<Rightarrow> fault + nat \<times> logsys" where
  "lbread p n s = bindE (bread p (log_dev s) n (cache s)) (\<lambda>(b, c). Inr (b, s\<lparr>cache := c\<rparr>))"

definition lbwrite :: "nat \<Rightarrow> nat \<Rightarrow> logsys \<Rightarrow> fault + logsys" where
  "lbwrite p b s = bindE (bwrite p b (cache s)) (\<lambda>c.
     Inr (s\<lparr>cache := c, written := written s @ [(bno (buf (cache s) b), bdata (buf (cache s) b))]\<rparr>))"

definition lbrelse :: "nat \<Rightarrow> nat \<Rightarrow> logsys \<Rightarrow> fault + logsys" where
  "lbrelse p b s = bindE (brelse p b (cache s)) (\<lambda>c. Inr (s\<lparr>cache := c\<rparr>))"

definition lput :: "nat \<Rightarrow> block \<Rightarrow> logsys \<Rightarrow> logsys" where
  "lput b x s = s\<lparr>cache := set_data b x (cache s)\<rparr>"

definition ldata :: "nat \<Rightarrow> logsys \<Rightarrow> block" where
  "ldata b s = bdata (buf (cache s) b)"

text \<open>The on-disk header: \<^verbatim>\<open>n\<close> and then the block numbers, four bytes each.\<close>

definition head_n :: "block \<Rightarrow> int" where
  "head_n data = sint (word_of_nat (le_nat (take 4 data)) :: u32)"

definition head_block :: "block \<Rightarrow> nat \<Rightarrow> nat" where
  "head_block data i = le_nat (take 4 (drop (4 + 4 * i) data))"

definition put_head :: "nat list \<Rightarrow> block \<Rightarrow> block" where
  "put_head bs data = bytes_le 4 (length bs) @ concat (map (bytes_le 4) bs) @ drop (4 + 4 * length bs) data"

definition read_head :: "nat \<Rightarrow> logsys \<Rightarrow> fault + logsys" where
  "read_head p s =
     bindE (lbread p (log_start s) s) (\<lambda>(b, s).
     let n = head_n (ldata b s) in
     if n > int LOGSIZE then Inl (Undefined ''log.lh.block index'')
     else lbrelse p b (s\<lparr>lh := map (head_block (ldata b s)) [0..<nat n]\<rparr>))"

definition write_head :: "nat \<Rightarrow> logsys \<Rightarrow> fault + logsys" where
  "write_head p s =
     bindE (lbread p (log_start s) s) (\<lambda>(b, s).
     bindE (lbwrite p b (lput b (put_head (lh s) (ldata b s)) s)) (lbrelse p b))"

definition install_block :: "nat \<Rightarrow> bool \<Rightarrow> nat \<Rightarrow> nat \<Rightarrow> logsys \<Rightarrow> fault + logsys" where
  "install_block p recovering l m s =
     bindE (lbread p l s) (\<lambda>(lbuf, s).
     bindE (lbread p m s) (\<lambda>(dbuf, s).
     bindE (lbwrite p dbuf (lput dbuf (ldata lbuf s) s)) (\<lambda>s.
     let s = (if \<not> recovering then s\<lparr>cache := bunpin dbuf (cache s)\<rparr> else s) in
     bindE (lbrelse p lbuf s) (lbrelse p dbuf))))"

definition install_trans :: "nat \<Rightarrow> bool \<Rightarrow> logsys \<Rightarrow> fault + logsys" where
  "install_trans p recovering s =
     forE [0..<length (lh s)] (\<lambda>tail s. install_block p recovering (log_start s + tail + 1) (lh s ! tail) s) s"

definition recover_from_log :: "nat \<Rightarrow> logsys \<Rightarrow> fault + logsys" where
  "recover_from_log p s =
     bindE (read_head p s) (\<lambda>s.
     bindE (install_trans p True s) (\<lambda>s.
     write_head p (s\<lparr>lh := []\<rparr>)))"

definition initlog :: "nat \<Rightarrow> nat \<Rightarrow> nat \<Rightarrow> nat \<Rightarrow> logsys \<Rightarrow> fault + logsys" where
  "initlog p d logstart nlog s =
     (if 4 + 4 * LOGSIZE \<ge> BSIZE then Inl (Panic ''initlog: too big logheader'')
      else recover_from_log p (s\<lparr>log_start := logstart, log_size := nlog, log_dev := d\<rparr>))"

definition begin_op :: "logsys \<Rightarrow> fault + logsys" where
  "begin_op s =
     (if committing s then Inl (Sleeps ''log'')
      else if int (length (lh s)) + (outstanding s + 1) * int MAXOPBLOCKS > int LOGSIZE then Inl (Sleeps ''log'')
      else Inr (s\<lparr>outstanding := outstanding s + 1\<rparr>))"

definition write_log_block :: "nat \<Rightarrow> nat \<Rightarrow> nat \<Rightarrow> logsys \<Rightarrow> fault + logsys" where
  "write_log_block p m n s =
     bindE (lbread p m s) (\<lambda>(to, s).
     bindE (lbread p n s) (\<lambda>(frm, s).
     bindE (lbwrite p to (lput to (ldata frm s) s)) (\<lambda>s.
     bindE (lbrelse p frm s) (lbrelse p to))))"

definition write_log :: "nat \<Rightarrow> logsys \<Rightarrow> fault + logsys" where
  "write_log p s = forE [0..<length (lh s)] (\<lambda>tail s. write_log_block p (log_start s + tail + 1) (lh s ! tail) s) s"

definition commit :: "nat \<Rightarrow> logsys \<Rightarrow> fault + logsys" where
  "commit p s =
     (if length (lh s) > 0 then
        bindE (write_log p s) (\<lambda>s.
        bindE (write_head p s) (\<lambda>s.
        bindE (install_trans p False s) (\<lambda>s.
        write_head p (s\<lparr>lh := []\<rparr>))))
      else Inr s)"

definition end_op :: "nat \<Rightarrow> logsys \<Rightarrow> fault + logsys" where
  "end_op p s =
     (let s = s\<lparr>outstanding := outstanding s - 1\<rparr> in
      if committing s then Inl (Panic ''log.committing'')
      else if outstanding s = 0 then
        bindE (commit p (s\<lparr>committing := True\<rparr>)) (\<lambda>s. Inr (s\<lparr>committing := False\<rparr>))
      else Inr s)"

definition log_write :: "nat \<Rightarrow> logsys \<Rightarrow> fault + logsys" where
  "log_write b s =
     (if length (lh s) \<ge> LOGSIZE \<or> int (length (lh s)) \<ge> int (log_size s) - 1 then Inl (Panic ''too big a transaction'')
      else if outstanding s < 1 then Inl (Panic ''log_write outside of trans'')
      else let n = bno (buf (cache s) b) in
        if n \<in> set (lh s) then Inr s
        else Inr (s\<lparr>cache := bpin b (cache s), lh := lh s @ [n]\<rparr>))"

section \<open>The header on disk\<close>

lemma length_concat_words [simp]: "length (concat (map (bytes_le 4) bs)) = 4 * length bs"
  by (induction bs) simp_all

lemma length_put_head [simp]:
  "4 + 4 * length bs \<le> length data \<Longrightarrow> length (put_head bs data) = length data"
  by (simp add: put_head_def)

lemma drop_words: "i < length bs \<Longrightarrow> take 4 (drop (4 * i) (concat (map (bytes_le 4) bs) @ zs)) = bytes_le 4 (bs ! i)"
proof (induction bs arbitrary: i)
  case (Cons b bs)
  show ?case
  proof (cases i)
    case (Suc j)
    then have "drop (4 * i) (concat (map (bytes_le 4) (b # bs)) @ zs) = drop (4 * j) (concat (map (bytes_le 4) bs) @ zs)"
      by simp
    with Cons Suc show ?thesis by simp
  qed simp
qed simp

lemma head_n_put: "length bs \<le> LOGSIZE \<Longrightarrow> head_n (put_head bs data) = int (length bs)"
proof -
  assume "length bs \<le> LOGSIZE"
  then have l: "length bs < 2 ^ 31" by (simp add: LOGSIZE_def MAXOPBLOCKS_def)
  have "le_nat (take 4 (put_head bs data)) = length bs" using l by (simp add: put_head_def le_nat_bytes_le)
  with l show ?thesis
    by (simp add: head_n_def sint_uint unsigned_of_nat signed_take_bit_int_eq_self take_bit_nat_eq_self)
qed

lemma head_block_put:
  assumes "i < length bs" "bs ! i < 2 ^ 32"
  shows "head_block (put_head bs data) i = bs ! i"
proof -
  have "drop (4 + 4 * i) (put_head bs data) = drop (4 * i) (concat (map (bytes_le 4) bs) @ drop (4 + 4 * length bs) data)"
    by (simp add: put_head_def)
  with assms show ?thesis unfolding head_block_def by (simp only: drop_words) (simp add: le_nat_bytes_le)
qed

lemma head_roundtrip:
  assumes "length bs \<le> LOGSIZE" "\<forall>n\<in>set bs. n < 2 ^ 32"
  shows "map (head_block (put_head bs data)) [0..<nat (head_n (put_head bs data))] = bs"
  using assms by (intro nth_equalityI) (simp_all add: head_n_put head_block_put)

section \<open>Steps of the loops\<close>

text \<open>
  \<open>logged s a\<close>: no buffer is locked, and exactly the blocks of the log are referenced. \<open>apply_writes\<close> is the effect of a
  sequence of disk writes.
\<close>

definition apply_writes :: "(nat \<times> block) list \<Rightarrow> (nat \<Rightarrow> block) \<Rightarrow> nat \<Rightarrow> block" where
  "apply_writes ws D = fold (\<lambda>(n, x) D. D(n := x)) ws D"

lemma apply_writes_simps [simp]:
  "apply_writes [] D = D" "apply_writes ((n, x) # ws) D = apply_writes ws (D(n := x))"
  "apply_writes (ws @ vs) D = apply_writes vs (apply_writes ws D)"
  by (simp_all add: apply_writes_def)

lemma apply_writes_other: "n \<notin> fst ` set ws \<Longrightarrow> apply_writes ws D n = D n"
  by (induction ws arbitrary: D) auto

abbreviation ldisk :: "logsys \<Rightarrow> nat \<Rightarrow> block" where
  "ldisk s \<equiv> fsdisk (cache s)"

definition quiet_cache :: "acache \<Rightarrow> bool" where
  "quiet_cache a \<longleftrightarrow> (\<forall>n. held a n = None)"

definition same_log :: "logsys \<Rightarrow> logsys \<Rightarrow> bool" where
  "same_log s s' \<longleftrightarrow> log_start s' = log_start s \<and> log_size s' = log_size s \<and> outstanding s' = outstanding s \<and>
     committing s' = committing s \<and> log_dev s' = log_dev s"

lemma same_log_refl [simp]: "same_log s s" by (simp add: same_log_def)

lemma same_log_trans: "same_log s t \<Longrightarrow> same_log t u \<Longrightarrow> same_log s u" by (simp add: same_log_def)

text \<open>\<open>did ws s s'\<close>: the step from \<open>s\<close> to \<open>s'\<close> wrote \<open>ws\<close> to the disk.\<close>

definition did :: "(nat \<times> block) list \<Rightarrow> logsys \<Rightarrow> logsys \<Rightarrow> bool" where
  "did ws s s' \<longleftrightarrow> same_log s s' \<and> lh s' = lh s \<and> written s' = written s @ ws \<and> ldisk s' = apply_writes ws (ldisk s)"

lemma did_refl [simp]: "did [] s s" by (simp add: did_def)

lemma did_trans: "did ws s t \<Longrightarrow> did vs t u \<Longrightarrow> did (ws @ vs) s u"
  by (auto simp: did_def intro: same_log_trans)

text \<open>A buffer that holds a referenced block keeps holding it.\<close>

definition keeps :: "nat \<Rightarrow> acache \<Rightarrow> logsys \<Rightarrow> logsys \<Rightarrow> bool" where
  "keeps d a s s' \<longleftrightarrow> (\<forall>m e. 0 < refs a m \<longrightarrow> in_buf d (cache s) m e \<longrightarrow> in_buf d (cache s') m e)"

lemma keepsD: "keeps d a s s' \<Longrightarrow> in_buf d (cache s) m e \<Longrightarrow> 0 < refs a m \<Longrightarrow> in_buf d (cache s') m e"
  by (simp add: keeps_def)

lemma lbread_step:
  assumes "cache_ok d (cache s) a" "log_dev s = d" "held a n = None" "room a n"
  obtains b s' where "lbread p n s = Inr (b, s')" "did [] s s'" "in_buf d (cache s') n b"
    "cache_ok d (cache s') (got p n a)" "ldata b s' = view a n" "keeps d a s s'"
proof -
  obtain b c where b: "bread p d n (cache s) = Inr (b, c)" "fsdisk c = fsdisk (cache s)" "in_buf d c n b"
    "cache_ok d c (got p n a)" "\<And>m e. 0 < refs a m \<Longrightarrow> in_buf d (cache s) m e \<Longrightarrow> in_buf d c m e"
    by (rule bread_ok [OF assms(1,3,4)]) (rule that)
  show ?thesis
  proof (rule that [of b "s\<lparr>cache := c\<rparr>"])
    show "ldata b (s\<lparr>cache := c\<rparr>) = view a n" using in_buf_data [OF b(4,3)] by (simp add: ldata_def)
  qed (use b assms(2) in \<open>simp_all add: lbread_def did_def same_log_def keeps_def\<close>)
qed

lemma lput_step:
  assumes "cache_ok d (cache s) a" "in_buf d (cache s) n b" "0 < refs a n"
  shows "cache_ok d (cache (lput b x s)) (a\<lparr>view := (view a)(n := x)\<rparr>)" "did [] s (lput b x s)" "keeps d a s (lput b x s)"
  using set_data_ok [OF assms] by (simp_all add: lput_def did_def same_log_def keeps_def)

lemma lbwrite_step:
  assumes "cache_ok d (cache s) a" "in_buf d (cache s) n b" "held a n = Some p"
  obtains s' where "lbwrite p b s = Inr s'" "did [(n, view a n)] s s'" "cache_ok d (cache s') a" "keeps d a s s'"
proof -
  obtain c where c: "bwrite p b (cache s) = Inr c" "cache_ok d c a" "fsdisk c = (fsdisk (cache s))(n := view a n)"
    "\<And>m e. in_buf d c m e = in_buf d (cache s) m e"
    by (rule bwrite_ok [OF assms]) (rule that)
  show ?thesis
    by (rule that [of "s\<lparr>cache := c, written := written s @ [(bno (buf (cache s) b), bdata (buf (cache s) b))]\<rparr>"])
      (use c in_buf_data [OF assms(1,2)] in \<open>simp_all add: lbwrite_def did_def same_log_def keeps_def\<close>)
qed

lemma lbrelse_step:
  assumes "cache_ok d (cache s) a" "in_buf d (cache s) n b" "held a n = Some p" "refs a n = 1 \<longrightarrow> view a n = ldisk s n"
  obtains s' where "lbrelse p b s = Inr s'" "did [] s s'" "cache_ok d (cache s') (dropped n a)" "keeps d a s s'"
proof -
  obtain c where c: "brelse p b (cache s) = Inr c" "cache_ok d c (dropped n a)" "fsdisk c = fsdisk (cache s)"
    "\<And>m e. in_buf d (cache s) m e \<Longrightarrow> in_buf d c m e"
    by (rule brelse_ok [OF assms]) (rule that)
  show ?thesis
    by (rule that [of "s\<lparr>cache := c\<rparr>"]) (use c in \<open>simp_all add: lbrelse_def did_def same_log_def keeps_def\<close>)
qed

lemma cache_ok_clean: "cache_ok d c a \<Longrightarrow> refs a n = 0 \<Longrightarrow> view a n = fsdisk c n"
  using clean_view by (auto simp: cache_ok_def)

lemma did_dev: "did ws s s' \<Longrightarrow> log_dev s' = log_dev s" by (simp add: did_def same_log_def)

lemma did_disk: "did ws s s' \<Longrightarrow> ldisk s' = apply_writes ws (ldisk s)" by (simp add: did_def)

text \<open>The parts the two loops share: reading two blocks, and overwriting a block and writing it to the disk.\<close>

lemma read_two:
  assumes ok: "cache_ok d (cache s) a" "log_dev s = d" and mn: "m \<noteq> n" "held a m = None" "held a n = None"
    and room: "room a m" "room (got p m a) n"
  obtains b1 s1 b2 s2 where "lbread p m s = Inr (b1, s1)" "lbread p n s1 = Inr (b2, s2)" "did [] s s1" "did [] s s2"
    "in_buf d (cache s2) m b1" "in_buf d (cache s2) n b2" "cache_ok d (cache s2) (got p n (got p m a))"
    "ldata b1 s2 = view a m" "ldata b2 s2 = view a n"
proof -
  obtain b1 s1 where 1: "lbread p m s = Inr (b1, s1)" "did [] s s1" "in_buf d (cache s1) m b1" "cache_ok d (cache s1) (got p m a)"
    by (rule lbread_step [OF ok mn(2) room(1)])
  have d1: "log_dev s1 = d" "held (got p m a) n = None" using did_dev [OF 1(2)] ok(2) mn by simp_all
  obtain b2 s2 where 2: "lbread p n s1 = Inr (b2, s2)" "did [] s1 s2" "in_buf d (cache s2) n b2" "cache_ok d (cache s2) (got p n (got p m a))"
      "ldata b2 s2 = view (got p m a) n" "keeps d (got p m a) s1 s2"
    by (rule lbread_step [OF 1(4) d1 room(2)])
  have b1: "in_buf d (cache s2) m b1" by (rule keepsD [OF 2(6) 1(3)]) simp
  have "ldata b1 s2 = view a m" using in_buf_data [OF 2(4) b1] by (simp add: ldata_def)
  with 1 2 b1 did_trans [OF 1(2) 2(2)] show ?thesis by (intro that [of b1 s1 b2 s2]) simp_all
qed

lemma put_write:
  assumes "cache_ok d (cache s) a" "in_buf d (cache s) n b" "held a n = Some p" "0 < refs a n"
  obtains s' where "lbwrite p b (lput b x s) = Inr s'" "did [(n, x)] s s'" "cache_ok d (cache s') (a\<lparr>view := (view a)(n := x)\<rparr>)" "keeps d a s s'"
proof -
  let ?a = "a\<lparr>view := (view a)(n := x)\<rparr>"
  note 1 = lput_step [OF assms(1,2,4), of x]
  have h: "held ?a n = Some p" using assms(3) by simp
  obtain s' where 2: "lbwrite p b (lput b x s) = Inr s'" "did [(n, view ?a n)] (lput b x s) s'" "cache_ok d (cache s') ?a" "keeps d ?a (lput b x s) s'"
    by (rule lbwrite_step [OF 1(1) keepsD [OF 1(3) assms(2,4)] h])
  have "keeps d a s s'" using 1(3) 2(4) by (simp add: keeps_def)
  with 2 did_trans [OF 1(2) 2(2)] show ?thesis by (intro that [of s']) simp_all
qed

lemma unpin_step:
  assumes "cache_ok d (cache s) a" "in_buf d (cache s) n b" "1 < refs a n"
  shows "cache_ok d (cache (s\<lparr>cache := bunpin b (cache s)\<rparr>)) (a\<lparr>refs := (refs a)(n := refs a n - 1)\<rparr>)"
    "did [] s (s\<lparr>cache := bunpin b (cache s)\<rparr>)" "keeps d a s (s\<lparr>cache := bunpin b (cache s)\<rparr>)"
  using bunpin_ok [OF assms] by (simp_all add: did_def same_log_def keeps_def)

lemma wl_step:
  assumes ok: "cache_ok d (cache s) a" "log_dev s = d" and mn: "m \<noteq> n" "held a m = None" "held a n = None"
    and room: "room a m" "room (got p m a) n"
  obtains s' where "write_log_block p m n s = Inr s'" "did [(m, view a n)] s s'" "cache_ok d (cache s') (a\<lparr>view := (view a)(m := view a n)\<rparr>)"
proof -
  obtain b1 s1 b2 s2 where 1: "lbread p m s = Inr (b1, s1)" "lbread p n s1 = Inr (b2, s2)" "did [] s s1" "did [] s s2"
    "in_buf d (cache s2) m b1" "in_buf d (cache s2) n b2" "cache_ok d (cache s2) (got p n (got p m a))"
    "ldata b1 s2 = view a m" "ldata b2 s2 = view a n"
    by (rule read_two [OF ok mn room])
  let ?x = "view a n" and ?a2 = "got p n (got p m a)"
  let ?a3 = "?a2\<lparr>view := (view ?a2)(m := ?x)\<rparr>"
  have r: "held ?a2 m = Some p" "0 < refs ?a2 m" "0 < refs ?a2 n" "held ?a3 n = Some p" using mn(1) by auto
  obtain s4 where 4: "lbwrite p b1 (lput b1 ?x s2) = Inr s4" "did [(m, ?x)] s2 s4" "cache_ok d (cache s4) ?a3" "keeps d ?a2 s2 s4"
    by (rule put_write [OF 1(7) 1(5) r(1,2)])
  note b4 = keepsD [OF 4(4) 1(5) r(2)] keepsD [OF 4(4) 1(6) r(3)]
  have D: "ldisk s4 = (ldisk s)(m := ?x)" using did_disk [OF 4(2)] did_disk [OF 1(4)] by simp
  have c: "refs ?a3 n = 1 \<longrightarrow> view ?a3 n = ldisk s4 n"
    using cache_ok_clean [OF ok(1), of n] mn(1) D by auto
  obtain s5 where 5: "lbrelse p b2 s4 = Inr s5" "did [] s4 s5" "cache_ok d (cache s5) (dropped n ?a3)" "keeps d ?a3 s4 s5"
    by (rule lbrelse_step [OF 4(3) b4(2) r(4) c])
  have b5: "in_buf d (cache s5) m b1" by (rule keepsD [OF 5(4) b4(1)]) simp
  have h: "held (dropped n ?a3) m = Some p" "refs (dropped n ?a3) m = 1 \<longrightarrow> view (dropped n ?a3) m = ldisk s5 m"
    using mn(1) D did_disk [OF 5(2)] by auto
  obtain s6 where 6: "lbrelse p b1 s5 = Inr s6" "did [] s5 s6" "cache_ok d (cache s6) (dropped m (dropped n ?a3))"
    by (rule lbrelse_step [OF 5(3) b5 h])
  have "dropped m (dropped n ?a3) = a\<lparr>view := (view a)(m := view a n)\<rparr>"
    using mn by (intro acache.equality) auto
  moreover have "did [(m, ?x)] s s6"
    using did_trans [OF 1(4) did_trans [OF 4(2) did_trans [OF 5(2) 6(2)]]] by simp
  moreover have "write_log_block p m n s = Inr s6" using 1(1,2,9) 4(1) 5(1) 6(1) by (simp add: write_log_block_def)
  ultimately show ?thesis using 6(3) by (intro that [of s6]) simp_all
qed

lemma it_step:
  assumes ok: "cache_ok d (cache s) a" "log_dev s = d" and lm: "l \<noteq> m" "held a l = None" "held a m = None"
    and room: "room a l" "room (got p l a) m" and pin: "recovering \<or> refs a m = 1"
  obtains s' where "install_block p recovering l m s = Inr s'" "did [(m, view a l)] s s'"
    "cache_ok d (cache s') (a\<lparr>view := (view a)(m := view a l), refs := (if recovering then refs a else (refs a)(m := 0))\<rparr>)"
proof -
  obtain b1 s1 b2 s2 where 1: "lbread p l s = Inr (b1, s1)" "lbread p m s1 = Inr (b2, s2)" "did [] s s1" "did [] s s2"
    "in_buf d (cache s2) l b1" "in_buf d (cache s2) m b2" "cache_ok d (cache s2) (got p m (got p l a))"
    "ldata b1 s2 = view a l" "ldata b2 s2 = view a m"
    by (rule read_two [OF ok lm room])
  let ?x = "view a l" and ?a2 = "got p m (got p l a)"
  let ?a3 = "?a2\<lparr>view := (view ?a2)(m := ?x)\<rparr>"
  let ?a4 = "if recovering then ?a3 else ?a3\<lparr>refs := (refs ?a3)(m := refs ?a3 m - 1)\<rparr>"
  have r: "held ?a2 m = Some p" "0 < refs ?a2 m" "0 < refs ?a2 l" using lm(1) by auto
  obtain s3 where 3: "lbwrite p b2 (lput b2 ?x s2) = Inr s3" "did [(m, ?x)] s2 s3" "cache_ok d (cache s3) ?a3" "keeps d ?a2 s2 s3"
    by (rule put_write [OF 1(7) 1(6) r(1,2)])
  note b3 = keepsD [OF 3(4) 1(5) r(3)] keepsD [OF 3(4) 1(6) r(2)]
  let ?s4 = "if \<not> recovering then s3\<lparr>cache := bunpin b2 (cache s3)\<rparr> else s3"
  have u: "\<not> recovering \<Longrightarrow> 1 < refs ?a3 m" using pin lm(1) by simp
  have 4: "cache_ok d (cache ?s4) ?a4" "did [] s3 ?s4" "keeps d ?a3 s3 ?s4"
    using unpin_step [OF 3(3) b3(2)] u 3(3) by (cases recovering; simp add: keeps_def)+
  have r3: "0 < refs ?a3 l" "0 < refs ?a3 m" using lm(1) by simp_all
  note b4 = keepsD [OF 4(3) b3(1) r3(1)] keepsD [OF 4(3) b3(2) r3(2)]
  have D: "ldisk ?s4 = (ldisk s)(m := ?x)" using did_disk [OF 1(4)] did_disk [OF 3(2)] did_disk [OF 4(2)] by simp
  have c: "held ?a4 l = Some p" "refs ?a4 l = 1 \<longrightarrow> view ?a4 l = ldisk ?s4 l"
    using cache_ok_clean [OF ok(1), of l] lm(1) unfolding D by (cases recovering; auto)+
  obtain s5 where 5: "lbrelse p b1 ?s4 = Inr s5" "did [] ?s4 s5" "cache_ok d (cache s5) (dropped l ?a4)" "keeps d ?a4 ?s4 s5"
    by (rule lbrelse_step [OF 4(1) b4(1) c])
  have b5: "in_buf d (cache s5) m b2" by (rule keepsD [OF 5(4) b4(2)]) (use u lm(1) in simp)
  have h: "held (dropped l ?a4) m = Some p" "refs (dropped l ?a4) m = 1 \<longrightarrow> view (dropped l ?a4) m = ldisk s5 m"
    using lm(1) D did_disk [OF 5(2)] by auto
  obtain s6 where 6: "lbrelse p b2 s5 = Inr s6" "did [] s5 s6" "cache_ok d (cache s6) (dropped m (dropped l ?a4))"
    by (rule lbrelse_step [OF 5(3) b5 h])
  have "dropped m (dropped l ?a4) = a\<lparr>view := (view a)(m := view a l), refs := (if recovering then refs a else (refs a)(m := 0))\<rparr>"
    using lm pin by (intro acache.equality) (auto simp: fun_eq_iff)
  moreover have "did [(m, ?x)] s s6"
    using did_trans [OF 1(4) did_trans [OF 3(2) did_trans [OF 4(2) did_trans [OF 5(2) 6(2)]]]] by simp
  moreover have "install_block p recovering l m s = Inr s6" using 1(1,2,8) 3(1) 5(1) 6(1) by (simp add: install_block_def Let_def)
  ultimately show ?thesis using 6(3) by (intro that [of s6]) simp_all
qed

end
