(* ===== verification/Log_Crash.thy ===== *)
theory Log_Crash
  imports Log
begin

text \<open>
  Crash safety of the log. The loops of \<^verbatim>\<open>commit\<close> and \<^verbatim>\<open>recover_from_log\<close> are reduced to the sequence of disk writes they
  perform. \<open>recoverable\<close> describes the disks from which recovery yields given contents: the header is empty and the home
  blocks have them, or the header names the logged blocks and the log has their new contents. Every prefix of the
  writes of a commit leaves a disk recoverable to the old or to the new contents, and every prefix of the writes of a
  recovery keeps a disk recoverable to the same contents, so crashes during recovery do no harm.
\<close>

section \<open>The loops as sequences of disk writes\<close>

definition log_writes :: "nat \<Rightarrow> nat list \<Rightarrow> (nat \<Rightarrow> block) \<Rightarrow> nat list \<Rightarrow> (nat \<times> block) list" where
  "log_writes st bs V is = map (\<lambda>i. (st + i + 1, V (bs ! i))) is"

definition home_writes :: "nat \<Rightarrow> nat list \<Rightarrow> (nat \<Rightarrow> block) \<Rightarrow> nat list \<Rightarrow> (nat \<times> block) list" where
  "home_writes st bs V is = map (\<lambda>i. (bs ! i, V (st + i + 1))) is"

lemma log_writes_simps [simp]:
  "log_writes st bs V [] = []" "log_writes st bs V (is @ js) = log_writes st bs V is @ log_writes st bs V js"
  "log_writes st bs V [i] = [(st + i + 1, V (bs ! i))]" "length (log_writes st bs V is) = length is"
  by (simp_all add: log_writes_def)

lemma home_writes_simps [simp]:
  "home_writes st bs V [] = []" "home_writes st bs V (is @ js) = home_writes st bs V is @ home_writes st bs V js"
  "home_writes st bs V [i] = [(bs ! i, V (st + i + 1))]" "length (home_writes st bs V is) = length is"
  by (simp_all add: home_writes_def)

definition in_log :: "nat \<Rightarrow> nat \<Rightarrow> nat \<Rightarrow> bool" where
  "in_log st sz n \<longleftrightarrow> st \<le> n \<and> n < st + sz"

definition outside_log :: "nat \<Rightarrow> nat \<Rightarrow> nat list \<Rightarrow> bool" where
  "outside_log st sz bs \<longleftrightarrow> length bs < sz \<and> (\<forall>n\<in>set bs. \<not> in_log st sz n)"

lemma log_writes_other:
  "\<not> in_log st sz n \<Longrightarrow> length bs < sz \<Longrightarrow> set is \<subseteq> {0..<length bs} \<Longrightarrow> apply_writes (log_writes st bs V is) D n = D n"
  by (rule apply_writes_other) (auto simp: log_writes_def in_log_def)

lemma log_writes_header: "apply_writes (log_writes st bs V is) D st = D st"
  by (rule apply_writes_other) (auto simp: log_writes_def)

lemma home_writes_log:
  "in_log st sz n \<Longrightarrow> outside_log st sz bs \<Longrightarrow> set is \<subseteq> {0..<length bs} \<Longrightarrow> apply_writes (home_writes st bs V is) D n = D n"
  by (rule apply_writes_other) (auto simp: home_writes_def outside_log_def dest!: nth_mem)

lemma log_writes_value:
  assumes "i < k"
  shows "apply_writes (log_writes st bs V [0..<k]) D (st + i + 1) = V (bs ! i)"
  using assms
proof (induction k)
  case (Suc k)
  then show ?case by (cases "i = k") (auto simp: less_Suc_eq)
qed simp

lemma room_refs: "refs a' = refs a \<Longrightarrow> room a' n = room a n"
  by (simp add: room_def)

lemma write_log_writes:
  assumes ok: "cache_ok d (cache s) a" "log_dev s = d" and quiet: "\<And>n. held a n = None"
    and refs: "\<And>n. refs a n = (if n \<in> set (lh s) then 1 else 0)" and few: "length (lh s) < NBUF"
    and out: "outside_log (log_start s) sz (lh s)"
  obtains s' where "write_log p s = Inr s'" "did (log_writes (log_start s) (lh s) (view a) [0..<length (lh s)]) s s'"
    "cache_ok d (cache s') (a\<lparr>view := apply_writes (log_writes (log_start s) (lh s) (view a) [0..<length (lh s)]) (view a)\<rparr>)"
proof -
  let ?ws = "log_writes (log_start s) (lh s) (view a)"
  let ?a = "\<lambda>is. a\<lparr>view := apply_writes (?ws is) (view a)\<rparr>"
  have "card {n. 0 < refs a n} \<le> length (lh s)" using card_length [of "lh s"] by (simp add: refs Collect_conv_if)
  then have room: "room (?a is) m" for "is" m using few by (simp add: room_def)
  have "\<exists>t. forE [0..<length (lh s)] (\<lambda>t s. write_log_block p (log_start s + t + 1) (lh s ! t) s) s = Inr t \<and>
      (did (?ws [0..<length (lh s)]) s t \<and> cache_ok d (cache t) (?a [0..<length (lh s)]))"
  proof (rule forE_rule [where P = "\<lambda>is t. did (?ws is) s t \<and> cache_ok d (cache t) (?a is)"])
    show "did (?ws []) s s \<and> cache_ok d (cache s) (?a [])" using ok by simp
  next
    fix "done" i rest t
    assume split: "[0..<length (lh s)] = done @ i # rest" and P: "did (?ws done) s t \<and> cache_ok d (cache t) (?a done)"
    from arg_cong [OF split, of set] have i: "i < length (lh s)" and d: "set done \<subseteq> {0..<length (lh s)}" by auto
    have t: "log_start t = log_start s" "lh t = lh s" "log_dev t = d" using P ok(2) by (simp_all add: did_def same_log_def)
    let ?m = "log_start s + i + 1" and ?n = "lh s ! i"
    have n: "\<not> in_log (log_start s) sz ?n" "length (lh s) < sz" using out i by (auto simp: outside_log_def)
    have ne: "?m \<noteq> ?n" using n i by (auto simp: in_log_def)
    have "0 < refs (got p ?m (?a done)) ?n" using i by (simp add: refs)
    then have r2: "room (got p ?m (?a done)) ?n" by (simp add: room_def)
    have v: "view (?a done) ?n = view a ?n" using log_writes_other [OF n d] by simp
    obtain t' where "write_log_block p ?m ?n t = Inr t'" "did [(?m, view (?a done) ?n)] t t'"
        "cache_ok d (cache t') ((?a done)\<lparr>view := (view (?a done))(?m := view (?a done) ?n)\<rparr>)"
      by (rule wl_step [OF _ t(3) ne _ _ room r2]) (use P quiet in auto)
    with P v t show "\<exists>t'. write_log_block p (log_start t + i + 1) (lh t ! i) t = Inr t' \<and>
        did (?ws (done @ [i])) s t' \<and> cache_ok d (cache t') (?a (done @ [i]))"
      using did_trans [of "?ws done" s t] by auto
  qed
  with that show ?thesis unfolding write_log_def by blast
qed

definition install_refs :: "bool \<Rightarrow> nat list \<Rightarrow> nat list \<Rightarrow> (nat \<Rightarrow> nat) \<Rightarrow> nat \<Rightarrow> nat" where
  "install_refs recovering bs is r = (if recovering then r else (\<lambda>n. if n \<in> (!) bs ` set is then 0 else r n))"

lemma card_le_bound: "finite B \<Longrightarrow> {n. 0 < f n} \<subseteq> B \<Longrightarrow> card B < k \<Longrightarrow> card {n. 0 < (f n :: nat)} < k"
  using card_mono [of B "{n. 0 < f n}"] by simp

lemma install_trans_writes:
  assumes ok: "cache_ok d (cache s) a" "log_dev s = d" and quiet: "\<And>n. held a n = None"
    and refs: "\<And>n. refs a n = (if \<not> recovering \<and> n \<in> set (lh s) then 1 else 0)"
    and few: "\<not> recovering \<Longrightarrow> length (lh s) < NBUF \<and> distinct (lh s)"
    and out: "outside_log (log_start s) sz (lh s)"
  obtains s' where "install_trans p recovering s = Inr s'" "did (home_writes (log_start s) (lh s) (view a) [0..<length (lh s)]) s s'"
    "cache_ok d (cache s') (a\<lparr>view := apply_writes (home_writes (log_start s) (lh s) (view a) [0..<length (lh s)]) (view a), refs := \<lambda>_. 0\<rparr>)"
proof -
  let ?ws = "home_writes (log_start s) (lh s) (view a)"
  let ?a = "\<lambda>is. a\<lparr>view := apply_writes (?ws is) (view a), refs := install_refs recovering (lh s) is (refs a)\<rparr>"
  have refs0: "refs (?a is) n \<le> refs a n" for "is" n by (simp add: install_refs_def)
  have room: "room (?a is) m" for "is" m
  proof -
    have "card {n. 0 < refs (?a is) n} < NBUF"
    proof (cases recovering)
      case True
      then show ?thesis by (simp add: install_refs_def refs NBUF_def)
    next
      case False
      with few have "card (set (lh s)) < NBUF" using card_length [of "lh s"] by simp
      then show ?thesis
        by (rule card_le_bound [rotated 2]) (auto simp: install_refs_def refs split: if_splits)
    qed
    then show ?thesis by (simp add: room_def)
  qed
  have "\<exists>t. forE [0..<length (lh s)] (\<lambda>t s. install_block p recovering (log_start s + t + 1) (lh s ! t) s) s = Inr t \<and>
      (did (?ws [0..<length (lh s)]) s t \<and> cache_ok d (cache t) (?a [0..<length (lh s)]))"
  proof (rule forE_rule [where P = "\<lambda>is t. did (?ws is) s t \<and> cache_ok d (cache t) (?a is)"])
    have "install_refs recovering (lh s) [] (refs a) = refs a" by (simp add: install_refs_def)
    then show "did (?ws []) s s \<and> cache_ok d (cache s) (?a [])" using ok by simp
  next
    fix "done" i rest t
    assume split: "[0..<length (lh s)] = done @ i # rest" and P: "did (?ws done) s t \<and> cache_ok d (cache t) (?a done)"
    from arg_cong [OF split, of set] arg_cong [OF split, of distinct]
    have i: "i < length (lh s)" "i \<notin> set done" and d: "set done \<subseteq> {0..<length (lh s)}" by auto
    have t: "log_start t = log_start s" "lh t = lh s" "log_dev t = d" using P ok(2) by (simp_all add: did_def same_log_def)
    let ?l = "log_start s + i + 1" and ?m = "lh s ! i"
    have l: "in_log (log_start s) sz ?l" using out i by (auto simp: outside_log_def in_log_def)
    have ne: "?l \<noteq> ?m" using out i l by (auto simp: outside_log_def dest!: nth_mem)
    have "?m \<notin> (!) (lh s) ` set done" if "\<not> recovering"
    proof
      assume "?m \<in> (!) (lh s) ` set done"
      then obtain j where "j \<in> set done" "lh s ! i = lh s ! j" by auto
      with few that i d nth_eq_iff_index_eq [of "lh s" i j] show False by auto
    qed
    then have pin: "recovering \<or> refs (?a done) ?m = 1"
      using i by (auto simp: install_refs_def refs)
    have r2: "room (got p ?l (?a done)) ?m"
    proof (cases recovering)
      case True
      have "{n. 0 < refs (got p ?l (?a done)) n} = {?l}" using True by (auto simp: install_refs_def refs)
      then show ?thesis by (simp add: room_def NBUF_def)
    next
      case False
      with pin ne show ?thesis by (simp add: room_def)
    qed
    have v: "view (?a done) ?l = view a ?l" using home_writes_log [OF l out d] by simp
    obtain t' where t': "install_block p recovering ?l ?m t = Inr t'" "did [(?m, view (?a done) ?l)] t t'"
        "cache_ok d (cache t') ((?a done)\<lparr>view := (view (?a done))(?m := view (?a done) ?l),
           refs := (if recovering then refs (?a done) else (refs (?a done))(?m := 0))\<rparr>)"
      by (rule it_step [OF _ t(3) ne _ _ room r2 pin]) (use P quiet in auto)
    have "(if recovering then refs (?a done) else (refs (?a done))(?m := 0)) = install_refs recovering (lh s) (done @ [i]) (refs a)"
      by (auto simp: install_refs_def)
    with t' P v t show "\<exists>t'. install_block p recovering (log_start t + i + 1) (lh t ! i) t = Inr t' \<and>
        did (?ws (done @ [i])) s t' \<and> cache_ok d (cache t') (?a (done @ [i]))"
      using did_trans [of "?ws done" s t] by auto
  qed
  moreover have "install_refs recovering (lh s) [0..<length (lh s)] (refs a) = (\<lambda>_. 0)"
    by (rule ext) (auto simp: install_refs_def refs image_def in_set_conv_nth)
  ultimately show ?thesis using that unfolding install_trans_def by auto
qed

lemma write_head_writes:
  assumes ok: "cache_ok d (cache s) a" "log_dev s = d" and quiet: "\<And>n. held a n = None" and room: "room a (log_start s)"
  obtains s' where "write_head p s = Inr s'" "did [(log_start s, put_head (lh s) (view a (log_start s)))] s s'"
    "cache_ok d (cache s') (a\<lparr>view := (view a)(log_start s := put_head (lh s) (view a (log_start s)))\<rparr>)"
proof -
  let ?n = "log_start s"
  let ?x = "put_head (lh s) (view a ?n)"
  obtain b s1 where 1: "lbread p ?n s = Inr (b, s1)" "did [] s s1" "in_buf d (cache s1) ?n b" "cache_ok d (cache s1) (got p ?n a)"
    "ldata b s1 = view a ?n"
    by (rule lbread_step [OF ok quiet room])
  let ?a2 = "(got p ?n a)\<lparr>view := (view (got p ?n a))(?n := ?x)\<rparr>"
  obtain s2 where 2: "lbwrite p b (lput b ?x s1) = Inr s2" "did [(?n, ?x)] s1 s2" "cache_ok d (cache s2) ?a2" "keeps d (got p ?n a) s1 s2"
    by (rule put_write [OF 1(4,3)]) simp_all
  have b: "in_buf d (cache s2) ?n b" by (rule keepsD [OF 2(4) 1(3)]) simp
  have h: "held ?a2 ?n = Some p" "refs ?a2 ?n = 1 \<longrightarrow> view ?a2 ?n = ldisk s2 ?n"
    using did_disk [OF 2(2)] by simp_all
  obtain s3 where 3: "lbrelse p b s2 = Inr s3" "did [] s2 s3" "cache_ok d (cache s3) (dropped ?n ?a2)"
    by (rule lbrelse_step [OF 2(3) b h])
  have "dropped ?n ?a2 = a\<lparr>view := (view a)(?n := ?x)\<rparr>" using quiet by (intro acache.equality) auto
  moreover have "did [(?n, ?x)] s s3" using did_trans [OF 1(2) did_trans [OF 2(2) 3(2)]] by simp
  moreover have "lh s1 = lh s" using 1(2) by (simp add: did_def)
  ultimately show ?thesis using 1(1,5) 2(1) 3(1,3) by (intro that [of s3]) (simp_all add: write_head_def)
qed

text \<open>The same with the header named, for use in sequence.\<close>

lemma write_head_does:
  assumes "cache_ok d (cache s) a" "log_dev s = d" "log_start s = st" "lh s = bs" "\<forall>n. held a n = None" "room a st"
  obtains s' where "write_head p s = Inr s'" "did [(st, put_head bs (view a st))] s s'"
    "cache_ok d (cache s') (a\<lparr>view := (view a)(st := put_head bs (view a st))\<rparr>)"
proof (rule write_head_writes [OF assms(1,2), of p])
  show "held a n = None" for n using assms(5) by blast
  show "room a (log_start s)" using assms(3,6) by simp
qed (unfold assms(3,4), rule that)

lemma install_trans_does:
  assumes "cache_ok d (cache s) a" "log_dev s = d" "log_start s = st" "lh s = bs" "\<forall>n. held a n = None"
    "\<forall>n. refs a n = (if \<not> recovering \<and> n \<in> set bs then 1 else 0)" "recovering \<or> length bs < NBUF \<and> distinct bs" "outside_log st sz bs"
  obtains s' where "install_trans p recovering s = Inr s'" "did (home_writes st bs (view a) [0..<length bs]) s s'"
    "cache_ok d (cache s') (a\<lparr>view := apply_writes (home_writes st bs (view a) [0..<length bs]) (view a), refs := \<lambda>_. 0\<rparr>)"
proof (rule install_trans_writes [OF assms(1,2), of recovering sz p])
  show "held a n = None" "refs a n = (if \<not> recovering \<and> n \<in> set (lh s) then 1 else 0)" for n using assms(4-6) by simp_all
  show "length (lh s) < NBUF \<and> distinct (lh s)" if "\<not> recovering" using assms(4,7) that by simp
  show "outside_log (log_start s) sz (lh s)" using assms(3,4,8) by simp
qed (unfold assms(3,4), rule that)

section \<open>Disks that can be recovered\<close>

definition log_head :: "nat \<Rightarrow> (nat \<Rightarrow> block) \<Rightarrow> nat list \<Rightarrow> bool" where
  "log_head st D bs \<longleftrightarrow> head_n (D st) \<le> int LOGSIZE \<and> map (head_block (D st)) [0..<nat (head_n (D st))] = bs"

definition settled :: "nat \<Rightarrow> nat \<Rightarrow> (nat \<Rightarrow> block) \<Rightarrow> (nat \<Rightarrow> block) \<Rightarrow> bool" where
  "settled st sz F D \<longleftrightarrow> 0 < sz \<and> log_head st D [] \<and> (\<forall>n. \<not> in_log st sz n \<longrightarrow> D n = F n)"

definition committed :: "nat \<Rightarrow> nat \<Rightarrow> nat list \<Rightarrow> (nat \<Rightarrow> block) \<Rightarrow> (nat \<Rightarrow> block) \<Rightarrow> bool" where
  "committed st sz bs F D \<longleftrightarrow> log_head st D bs \<and> outside_log st sz bs \<and> (\<forall>i<length bs. D (st + i + 1) = F (bs ! i)) \<and>
     (\<forall>n. \<not> in_log st sz n \<longrightarrow> n \<notin> set bs \<longrightarrow> D n = F n)"

definition recoverable :: "nat \<Rightarrow> nat \<Rightarrow> (nat \<Rightarrow> block) \<Rightarrow> (nat \<Rightarrow> block) \<Rightarrow> bool" where
  "recoverable st sz F D \<longleftrightarrow> settled st sz F D \<or> (\<exists>bs. committed st sz bs F D)"

definition recovery_writes :: "nat \<Rightarrow> nat list \<Rightarrow> (nat \<Rightarrow> block) \<Rightarrow> (nat \<times> block) list" where
  "recovery_writes st bs D = home_writes st bs D [0..<length bs] @ [(st, put_head [] (D st))]"

lemma log_head_put: "length bs \<le> LOGSIZE \<Longrightarrow> \<forall>n\<in>set bs. n < 2 ^ 32 \<Longrightarrow> D st = put_head bs x \<Longrightarrow> log_head st D bs"
  using head_roundtrip [of bs x] head_n_put [of bs x] by (simp add: log_head_def)

lemma log_head_cong: "D st = E st \<Longrightarrow> log_head st D bs = log_head st E bs"
  by (simp add: log_head_def)

lemma apply_writes_agree:
  "\<forall>(m, x)\<in>set ws. x = F m \<Longrightarrow> apply_writes ws D n = (if n \<in> fst ` set ws then F n else D n)"
proof (induction ws arbitrary: D)
  case (Cons w ws)
  obtain m x where "w = (m, x)" by (cases w)
  with Cons show ?case by auto
qed simp

lemma home_writes_agree:
  assumes "\<forall>i<length bs. D (st + i + 1) = F (bs ! i)" "set is \<subseteq> {0..<length bs}"
  shows "apply_writes (home_writes st bs D is) E n = (if n \<in> (!) bs ` set is then F n else E n)"
proof -
  have "\<forall>(m, x)\<in>set (home_writes st bs D is). x = F m" using assms by (auto simp: home_writes_def subset_iff)
  from apply_writes_agree [OF this, of E n] show ?thesis by (simp add: home_writes_def image_image)
qed

lemma take_home_writes: "k \<le> n \<Longrightarrow> take k (home_writes st bs D [0..<n]) = home_writes st bs D [0..<k]"
  by (simp add: home_writes_def take_map)

lemma take_log_writes: "k \<le> n \<Longrightarrow> take k (log_writes st bs D [0..<n]) = log_writes st bs D [0..<k]"
  by (simp add: log_writes_def take_map)

lemma set_nth_upt: "(!) bs ` {0..<length bs} = set bs"
  by (force simp: in_set_conv_nth image_def)

lemma committed_install:
  assumes c: "committed st sz bs F D" and k: "k \<le> length bs"
    and V: "\<forall>i<length bs. V (st + i + 1) = F (bs ! i)"
  shows "committed st sz bs F (apply_writes (home_writes st bs V [0..<k]) D)"
proof -
  let ?E = "apply_writes (home_writes st bs V [0..<k]) D"
  have out: "outside_log st sz bs" using c by (simp add: committed_def)
  have "set [0..<k] \<subseteq> {0..<length bs}" using k by auto
  note log = home_writes_log [OF _ out this] and agree = home_writes_agree [OF V this]
  have "?E st = D st" using out by (intro log) (simp add: in_log_def outside_log_def)
  moreover have "?E (st + i + 1) = D (st + i + 1)" if "i < length bs" for i
    using out that by (intro log) (simp add: in_log_def outside_log_def)
  ultimately show ?thesis using c log_head_cong [of ?E st D bs] k by (auto simp: committed_def agree)
qed

lemma committed_install_all:
  assumes c: "committed st sz bs F D" and V: "\<forall>i<length bs. V (st + i + 1) = F (bs ! i)"
  shows "settled st sz F ((apply_writes (home_writes st bs V [0..<length bs]) D)(st := put_head [] x))"
proof -
  let ?E = "apply_writes (home_writes st bs V [0..<length bs]) D"
  have "?E n = F n" if "\<not> in_log st sz n" for n
    using c that set_nth_upt [of bs] by (simp add: home_writes_agree [OF V] committed_def)
  moreover have "0 < sz" using c by (auto simp: committed_def outside_log_def)
  ultimately show ?thesis by (auto simp: settled_def in_log_def intro!: log_head_put)
qed

text \<open>Every prefix of the writes of a recovery keeps the disk recoverable, and all of them settle it.\<close>

lemma recovery_prefix:
  assumes "recoverable st sz F D" "log_head st D bs"
  shows "recoverable st sz F (apply_writes (take k (recovery_writes st bs D)) D)"
    and "settled st sz F (apply_writes (recovery_writes st bs D) D)" and "outside_log st sz bs"
proof -
  have "recoverable st sz F (apply_writes (take k (recovery_writes st bs D)) D) \<and>
    settled st sz F (apply_writes (recovery_writes st bs D) D) \<and> outside_log st sz bs"
  proof (cases "settled st sz F D")
    case True
    then have bs: "bs = []" using assms(2) by (auto simp: settled_def log_head_def)
    from True have s: "settled st sz F (D(st := put_head [] (D st)))" by (auto simp: settled_def in_log_def intro!: log_head_put)
    with True show ?thesis by (cases k) (auto simp: recovery_writes_def bs recoverable_def outside_log_def settled_def)
  next
    case False
    with assms have c: "committed st sz bs F D" by (auto simp: recoverable_def committed_def log_head_def)
    then have V: "\<forall>i<length bs. D (st + i + 1) = F (bs ! i)" by (simp add: committed_def)
    have s: "settled st sz F (apply_writes (recovery_writes st bs D) D)"
      using committed_install_all [OF c V] by (simp add: recovery_writes_def)
    have "recoverable st sz F (apply_writes (take k (recovery_writes st bs D)) D)"
    proof (cases "k \<le> length bs")
      case True
      with committed_install [OF c True V] show ?thesis
        by (auto simp: recovery_writes_def take_home_writes recoverable_def)
    next
      case False
      then have "take k (recovery_writes st bs D) = recovery_writes st bs D" by (simp add: recovery_writes_def)
      with s show ?thesis by (simp add: recoverable_def)
    qed
    with s c show ?thesis by (simp add: committed_def)
  qed
  then show "recoverable st sz F (apply_writes (take k (recovery_writes st bs D)) D)"
    "settled st sz F (apply_writes (recovery_writes st bs D) D)" "outside_log st sz bs" by auto
qed

section \<open>Recovery\<close>

definition fresh :: "acache \<Rightarrow> bool" where
  "fresh a \<longleftrightarrow> (\<forall>n. held a n = None \<and> refs a n = 0)"

lemma fresh_room: "fresh a \<Longrightarrow> room a n"
  by (simp add: fresh_def room_def NBUF_def)

lemma fresh_view: "fresh a \<Longrightarrow> cache_ok d c a \<Longrightarrow> view a = fsdisk c"
  using cache_ok_clean by (auto simp: fresh_def)

lemma read_head_reads:
  assumes ok: "cache_ok d (cache s) a" "log_dev s = d" "fresh a" and head: "log_head (log_start s) (ldisk s) bs"
  obtains s' where "read_head p s = Inr s'" "same_log s s'" "lh s' = bs" "written s' = written s" "ldisk s' = ldisk s" "cache_ok d (cache s') a"
proof -
  let ?n = "log_start s"
  have h: "held a ?n = None" using ok(3) by (simp add: fresh_def)
  obtain b s1 where 1: "lbread p ?n s = Inr (b, s1)" "did [] s s1" "in_buf d (cache s1) ?n b" "cache_ok d (cache s1) (got p ?n a)"
    "ldata b s1 = view a ?n"
    by (rule lbread_step [OF ok(1,2) h fresh_room [OF ok(3)]])
  let ?s2 = "s1\<lparr>lh := bs\<rparr>"
  have v: "view a ?n = ldisk s ?n" using fresh_view [OF ok(3,1)] by simp
  have g: "cache_ok d (cache ?s2) (got p ?n a)" "in_buf d (cache ?s2) ?n b" "held (got p ?n a) ?n = Some p"
      "refs (got p ?n a) ?n = 1 \<longrightarrow> view (got p ?n a) ?n = ldisk ?s2 ?n"
    using 1(3,4) v did_disk [OF 1(2)] by simp_all
  obtain s3 where 3: "lbrelse p b ?s2 = Inr s3" "did [] ?s2 s3" "cache_ok d (cache s3) (dropped ?n (got p ?n a))"
    by (rule lbrelse_step [OF g])
  have "dropped ?n (got p ?n a) = a" using h by (intro acache.equality) auto
  moreover have "read_head p s = Inr s3"
    using 1(1,5) 3(1) head v by (simp add: read_head_def log_head_def)
  ultimately show ?thesis
    using 1(2) 3(2,3) by (intro that [of s3]) (auto simp: did_def same_log_def)
qed

lemma recover_writes:
  assumes ok: "cache_ok d (cache s) a" "log_dev s = d" "fresh a" and head: "log_head (log_start s) (ldisk s) bs"
    and out: "outside_log (log_start s) sz bs"
  obtains s' a' where "recover_from_log p s = Inr s'" "same_log s s'" "lh s' = []"
    "written s' = written s @ recovery_writes (log_start s) bs (ldisk s)"
    "ldisk s' = apply_writes (recovery_writes (log_start s) bs (ldisk s)) (ldisk s)" "cache_ok d (cache s') a'" "fresh a'"
proof -
  let ?st = "log_start s"
  obtain s1 where 1: "read_head p s = Inr s1" "same_log s s1" "lh s1 = bs" "written s1 = written s" "ldisk s1 = ldisk s" "cache_ok d (cache s1) a"
    by (rule read_head_reads [OF ok head])
  have l: "log_start s1 = ?st" "log_dev s1 = d" using 1(2) ok(2) by (simp_all add: same_log_def)
  have fa: "\<forall>n. held a n = None" "\<forall>n. refs a n = 0" using ok(3) by (simp_all add: fresh_def)
  obtain s2 where 2: "install_trans p True s1 = Inr s2" "did (home_writes ?st bs (view a) [0..<length bs]) s1 s2"
      "cache_ok d (cache s2) (a\<lparr>view := apply_writes (home_writes ?st bs (view a) [0..<length bs]) (view a), refs := \<lambda>_. 0\<rparr>)"
    by (rule install_trans_does [OF 1(6) l(2,1) 1(3) fa(1), of True sz p]) (use out fa in auto)
  let ?a = "a\<lparr>view := apply_writes (home_writes ?st bs (view a) [0..<length bs]) (view a), refs := \<lambda>_. 0\<rparr>"
  let ?s2 = "s2\<lparr>lh := []\<rparr>"
  have f: "fresh ?a" using fa by (simp add: fresh_def)
  have l2: "cache_ok d (cache ?s2) ?a" "log_dev ?s2 = d" "log_start ?s2 = ?st" "lh ?s2 = []" "\<forall>n. held ?a n = None"
    using 2(2,3) l fa by (simp_all add: did_def same_log_def)
  obtain s3 where 3: "write_head p ?s2 = Inr s3" "did [(?st, put_head [] (view ?a ?st))] ?s2 s3"
      "cache_ok d (cache s3) (?a\<lparr>view := (view ?a)(?st := put_head [] (view ?a ?st))\<rparr>)"
    by (rule write_head_does [OF l2 fresh_room [OF f], of p])
  have v: "view a = ldisk s" using fresh_view [OF ok(3,1)] .
  have st: "view ?a ?st = ldisk s ?st"
    using home_writes_log [of ?st sz ?st bs "[0..<length bs]"] out v by (simp add: in_log_def outside_log_def)
  show ?thesis
  proof (rule that [of s3 "?a\<lparr>view := (view ?a)(?st := put_head [] (view ?a ?st))\<rparr>"])
    show "recover_from_log p s = Inr s3" using 1(1) 2(1) 3(1) by (simp add: recover_from_log_def)
    show "same_log s s3" "lh s3 = []" "written s3 = written s @ recovery_writes ?st bs (ldisk s)"
      "ldisk s3 = apply_writes (recovery_writes ?st bs (ldisk s)) (ldisk s)"
      using 1 2(2) 3(2) v st by (auto simp: did_def same_log_def recovery_writes_def)
    show "fresh (?a\<lparr>view := (view ?a)(?st := put_head [] (view ?a ?st))\<rparr>)" using f by (simp add: fresh_def)
  qed (rule 3(3))
qed

section \<open>Commit\<close>

text \<open>
  The state between two steps of the file system: nobody holds a buffer lock, exactly the logged blocks are pinned, they lie
  outside of the log, and the header on disk is empty.
\<close>

definition log_inv :: "logsys \<Rightarrow> acache \<Rightarrow> bool" where
  "log_inv s a \<longleftrightarrow> cache_ok (log_dev s) (cache s) a \<and> (\<forall>n. held a n = None) \<and>
     (\<forall>n. refs a n = (if n \<in> set (lh s) then 1 else 0)) \<and> distinct (lh s) \<and> length (lh s) \<le> LOGSIZE \<and>
     (\<forall>n\<in>set (lh s). n < 2 ^ 32) \<and> outside_log (log_start s) (log_size s) (lh s) \<and> log_head (log_start s) (ldisk s) []"

lemma log_invD:
  assumes "log_inv s a"
  shows "cache_ok (log_dev s) (cache s) a" "held a n = None" "refs a n = (if n \<in> set (lh s) then 1 else 0)"
    "distinct (lh s)" "length (lh s) \<le> LOGSIZE" "\<forall>n\<in>set (lh s). n < 2 ^ 32" "outside_log (log_start s) (log_size s) (lh s)"
    "log_head (log_start s) (ldisk s) []" "n \<notin> set (lh s) \<Longrightarrow> view a n = ldisk s n"
proof -
  show "n \<notin> set (lh s) \<Longrightarrow> view a n = ldisk s n"
    using assms cache_ok_clean [of "log_dev s" "cache s" a n] by (simp add: log_inv_def)
qed (use assms in \<open>simp_all add: log_inv_def\<close>)

definition commit_writes :: "nat \<Rightarrow> nat list \<Rightarrow> (nat \<Rightarrow> block) \<Rightarrow> block \<Rightarrow> block \<Rightarrow> (nat \<times> block) list" where
  "commit_writes st bs V h1 h0 =
     log_writes st bs V [0..<length bs] @ [(st, put_head bs h1)] @
     map (\<lambda>i. (bs ! i, V (bs ! i))) [0..<length bs] @ [(st, put_head [] h0)]"

lemma commit_does_writes:
  assumes inv: "log_inv s a" and few: "0 < length (lh s)" "length (lh s) < NBUF"
  obtains s' a' h1 h0 where "commit p s = Inr s'" "same_log s s'" "lh s' = []"
    "written s' = written s @ commit_writes (log_start s) (lh s) (view a) h1 h0"
    "ldisk s' = apply_writes (commit_writes (log_start s) (lh s) (view a) h1 h0) (ldisk s)"
    "cache_ok (log_dev s) (cache s') a'" "fresh a'"
proof -
  let ?st = "log_start s" and ?bs = "lh s" and ?d = "log_dev s" and ?n = "length (lh s)"
  note D = log_invD [OF inv]
  have room: "room a' ?st" if "refs a' = refs a" for a'
  proof -
    have "card {n. 0 < refs a' n} < NBUF"
      by (rule card_le_bound [of "set ?bs"]) (use that D(3) few(2) card_length [of ?bs] in \<open>auto split: if_splits\<close>)
    then show ?thesis by (simp add: room_def)
  qed
  obtain s1 where 1: "write_log p s = Inr s1" "did (log_writes ?st ?bs (view a) [0..<?n]) s s1"
      "cache_ok ?d (cache s1) (a\<lparr>view := apply_writes (log_writes ?st ?bs (view a) [0..<?n]) (view a)\<rparr>)"
    by (rule write_log_writes [OF D(1) refl D(2,3) few(2) D(7)])
  let ?a1 = "a\<lparr>view := apply_writes (log_writes ?st ?bs (view a) [0..<?n]) (view a)\<rparr>"
  have l1: "log_dev s1 = ?d" "log_start s1 = ?st" "lh s1 = ?bs" "\<forall>n. held ?a1 n = None" using 1(2) D(2) by (simp_all add: did_def same_log_def)
  obtain s2 where 2: "write_head p s1 = Inr s2" "did [(?st, put_head ?bs (view ?a1 ?st))] s1 s2"
      "cache_ok ?d (cache s2) (?a1\<lparr>view := (view ?a1)(?st := put_head ?bs (view ?a1 ?st))\<rparr>)"
    by (rule write_head_does [OF 1(3) l1 room, of p]) simp_all
  let ?a2 = "?a1\<lparr>view := (view ?a1)(?st := put_head ?bs (view ?a1 ?st))\<rparr>"
  have l2: "log_dev s2 = ?d" "log_start s2 = ?st" "lh s2 = ?bs" "\<forall>n. held ?a2 n = None" using 2(2) l1 by (simp_all add: did_def same_log_def)
  obtain s3 where 3: "install_trans p False s2 = Inr s3" "did (home_writes ?st ?bs (view ?a2) [0..<?n]) s2 s3"
      "cache_ok ?d (cache s3) (?a2\<lparr>view := apply_writes (home_writes ?st ?bs (view ?a2) [0..<?n]) (view ?a2), refs := \<lambda>_. 0\<rparr>)"
    by (rule install_trans_does [OF 2(3) l2, of False "log_size s" p]) (use D(3,4,7) few in simp_all)
  let ?a3 = "?a2\<lparr>view := apply_writes (home_writes ?st ?bs (view ?a2) [0..<?n]) (view ?a2), refs := \<lambda>_. 0\<rparr>"
  have f: "fresh ?a3" using D(2) by (simp add: fresh_def)
  let ?s3 = "s3\<lparr>lh := []\<rparr>"
  have l3: "cache_ok ?d (cache ?s3) ?a3" "log_dev ?s3 = ?d" "log_start ?s3 = ?st" "lh ?s3 = []" "\<forall>n. held ?a3 n = None"
    using 3(2,3) l2 by (simp_all add: did_def same_log_def)
  obtain s4 where 4: "write_head p ?s3 = Inr s4" "did [(?st, put_head [] (view ?a3 ?st))] ?s3 s4"
      "cache_ok ?d (cache s4) (?a3\<lparr>view := (view ?a3)(?st := put_head [] (view ?a3 ?st))\<rparr>)"
    by (rule write_head_does [OF l3 fresh_room [OF f], of p])
  have "home_writes ?st ?bs (view ?a2) [0..<?n] = map (\<lambda>i. (?bs ! i, view a (?bs ! i))) [0..<?n]"
    using log_writes_value [of _ ?n ?st ?bs "view a" "view a"] by (auto simp: home_writes_def)
  then have ws: "log_writes ?st ?bs (view a) [0..<?n] @ [(?st, put_head ?bs (view ?a1 ?st))] @ home_writes ?st ?bs (view ?a2) [0..<?n] @
      [(?st, put_head [] (view ?a3 ?st))] = commit_writes ?st ?bs (view a) (view ?a1 ?st) (view ?a3 ?st)"
    by (simp add: commit_writes_def)
  show ?thesis
  proof (rule that [of s4 "view ?a1 ?st" "view ?a3 ?st" "?a3\<lparr>view := (view ?a3)(?st := put_head [] (view ?a3 ?st))\<rparr>"])
    show "commit p s = Inr s4" using 1(1) 2(1) 3(1) 4(1) few(1) by (simp add: commit_def)
    show "same_log s s4" "lh s4 = []" using 1(2) 2(2) 3(2) 4(2) by (auto simp: did_def same_log_def)
    show "written s4 = written s @ commit_writes ?st ?bs (view a) (view ?a1 ?st) (view ?a3 ?st)"
      "ldisk s4 = apply_writes (commit_writes ?st ?bs (view a) (view ?a1 ?st) (view ?a3 ?st)) (ldisk s)"
      unfolding ws [symmetric] using 1(2) 2(2) 3(2) 4(2) by (simp_all add: did_def)
    show "fresh (?a3\<lparr>view := (view ?a3)(?st := put_head [] (view ?a3 ?st))\<rparr>)" using f by (simp add: fresh_def)
  qed (rule 4(3))
qed

lemma commit_empty: "lh s = [] \<Longrightarrow> commit p s = Inr s"
  by (simp add: commit_def)

lemma apply_new_values:
  assumes "set is \<subseteq> {0..<length bs}"
  shows "apply_writes (map (\<lambda>i. (bs ! i, V (bs ! i))) is) D n = (if n \<in> (!) bs ` set is then V n else D n)"
  using apply_writes_agree [of "map (\<lambda>i. (bs ! i, V (bs ! i))) is" V D n] by (auto simp: image_image)

lemma split_take:
  assumes "k \<le> length (A @ [h] @ B @ [g])"
  obtains "k \<le> length A" "take k (A @ [h] @ B @ [g]) = take k A"
  | j where "j \<le> length B" "take k (A @ [h] @ B @ [g]) = A @ [h] @ take j B"
  | "take k (A @ [h] @ B @ [g]) = A @ [h] @ B @ [g]"
proof -
  consider "k \<le> length A" | j where "k = length A + 1 + j" "j \<le> length B" | "k = length (A @ [h] @ B @ [g])"
  proof (cases "k \<le> length A")
    case False
    then have k: "k = length A + 1 + (k - length A - 1)" by simp
    then show ?thesis using that(2) [OF k] that(3) assms by (cases "k - length A - 1 \<le> length B") auto
  qed (use that in blast)
  then show ?thesis by cases (use that in auto)
qed

text \<open>The new contents: the logged blocks have changed.\<close>

lemma commit_prefix:
  assumes inv: "log_inv s a" and k: "k \<le> length (commit_writes (log_start s) (lh s) (view a) h1 h0)"
  defines "D \<equiv> apply_writes (take k (commit_writes (log_start s) (lh s) (view a) h1 h0)) (ldisk s)"
  shows "recoverable (log_start s) (log_size s) (ldisk s) D \<or> recoverable (log_start s) (log_size s) (view a) D"
proof -
  let ?st = "log_start s" and ?sz = "log_size s" and ?bs = "lh s" and ?n = "length (lh s)" and ?V = "view a"
  let ?A = "log_writes ?st ?bs ?V [0..<?n]" and ?h = "(?st, put_head ?bs h1)"
  let ?B = "map (\<lambda>i. (?bs ! i, ?V (?bs ! i))) [0..<?n]" and ?g = "(?st, put_head [] h0)"
  note I = log_invD [OF inv]
  have len: "?n < ?sz" "0 < ?sz" using I(7) by (auto simp: outside_log_def)
  have B: "take j ?B = map (\<lambda>i. (?bs ! i, ?V (?bs ! i))) [0..<j]" if "j \<le> ?n" for j using that by (simp add: take_map)
  let ?D1 = "apply_writes (?A @ [?h]) (ldisk s)"
  have c: "committed ?st ?sz ?bs ?V ?D1"
  proof -
    have "\<not> in_log ?st ?sz n \<Longrightarrow> n \<notin> set ?bs \<Longrightarrow> ?D1 n = ?V n" for n
      using log_writes_other [of ?st ?sz n ?bs "[0..<?n]" ?V "ldisk s"] len I(9) by (auto simp: in_log_def)
    moreover have "?D1 (?st + i + 1) = ?V (?bs ! i)" if "i < ?n" for i
      using log_writes_value [OF that, of ?st ?bs ?V "ldisk s"] by simp
    moreover have "log_head ?st ?D1 ?bs" using I(5,6) by (intro log_head_put) simp_all
    ultimately show ?thesis using I(7) by (simp add: committed_def)
  qed
  have V: "\<forall>i<?n. ?D1 (?st + i + 1) = ?V (?bs ! i)" using c by (simp add: committed_def)
  have home: "home_writes ?st ?bs ?D1 [0..<j] = take j ?B" if "j \<le> ?n" for j
    using V that by (simp add: home_writes_def B)
  from k [unfolded commit_writes_def] show ?thesis
  proof (cases rule: split_take)
    case 1
    then have eq: "D = apply_writes (log_writes ?st ?bs ?V [0..<k]) (ldisk s)"
      by (simp add: D_def commit_writes_def take_log_writes)
    have "D ?st = ldisk s ?st" by (simp only: eq log_writes_header)
    moreover have "D n = ldisk s n" if "\<not> in_log ?st ?sz n" for n
      unfolding eq using 1 that len by (intro log_writes_other) auto
    ultimately have "settled ?st ?sz (ldisk s) D" using I(8) log_head_cong [of D ?st "ldisk s"] len by (simp add: settled_def)
    then show ?thesis by (simp add: recoverable_def)
  next
    case (2 j)
    then have j: "j \<le> ?n" by simp
    have "D = apply_writes (take j ?B) ?D1" unfolding D_def commit_writes_def 2(2) by simp
    with committed_install [OF c j V] show ?thesis unfolding home [OF j] by (auto simp: recoverable_def)
  next
    case 3
    have "D = (apply_writes (take ?n ?B) ?D1)(?st := put_head [] h0)" unfolding D_def commit_writes_def 3 by simp
    with committed_install_all [OF c V] show ?thesis unfolding home [OF order_refl] by (simp add: recoverable_def)
  qed
qed

section \<open>Booting\<close>

definition boot_log :: "(nat \<Rightarrow> block) \<Rightarrow> logsys" where
  "boot_log D = \<lparr>cache = binit \<lparr>buf = \<lambda>_. \<lparr>valid = False, dev = 0, bno = 0, lock = None, refcnt = 0, bdata = []\<rparr>, nxt = \<lambda>_. 0, prv = \<lambda>_. 0, fsdisk = D\<rparr>,
     log_start = 0, log_size = 0, outstanding = 0, committing = False, log_dev = 0, lh = [], written = []\<rparr>"

text \<open>\<open>crashes D E\<close>: from the disk \<open>D\<close>, any number of reboots whose recovery is cut off leaves the disk \<open>E\<close>.\<close>

inductive crashes :: "nat \<Rightarrow> nat \<Rightarrow> nat \<Rightarrow> nat \<Rightarrow> (nat \<Rightarrow> block) \<Rightarrow> (nat \<Rightarrow> block) \<Rightarrow> bool" for p d st sz D where
  none: "crashes p d st sz D D"
| again: "crashes p d st sz D E \<Longrightarrow> initlog p d st sz (boot_log E) = Inr r \<Longrightarrow>
    crashes p d st sz D (apply_writes (take k (written r)) E)"

lemma boot_ok:
  assumes "d \<noteq> 0"
  shows "cache_ok d (cache (boot_log D)) \<lparr>view = D, refs = \<lambda>_. 0, held = \<lambda>_. None\<rparr>" "ldisk (boot_log D) = D"
proof -
  let ?c = "\<lparr>buf = \<lambda>_. \<lparr>valid = False, dev = 0, bno = 0, lock = None, refcnt = 0, bdata = []\<rparr>, nxt = \<lambda>_. 0, prv = \<lambda>_. 0, fsdisk = D\<rparr>"
  have "cache_inv (binit ?c) (rev [1..<NBUF + 1])" by (rule binit_inv) simp
  moreover have "buf_rel d (buf (binit ?c) b) a" if "b \<in> set (rev [1..<NBUF + 1])" for a b
    using that by (auto simp: buf_rel_def binit_buf)
  ultimately have "cache_rel d (binit ?c) (rev [1..<NBUF + 1]) \<lparr>view = D, refs = \<lambda>_. 0, held = \<lambda>_. None\<rparr>"
    using assms by (simp add: cache_rel_def binit_buf(2))
  then show "cache_ok d (cache (boot_log D)) \<lparr>view = D, refs = \<lambda>_. 0, held = \<lambda>_. None\<rparr>"
    by (auto simp: cache_ok_def boot_log_def)
qed (simp add: boot_log_def binit_buf(2))

lemma boot_recovers:
  assumes "recoverable st sz F D" "d \<noteq> 0"
  obtains r a where "initlog p d st sz (boot_log D) = Inr r" "lh r = []" "settled st sz F (ldisk r)"
    "cache_ok d (cache r) a" "fresh a" "log_dev r = d" "log_start r = st" "log_size r = sz"
    "\<forall>k. recoverable st sz F (apply_writes (take k (written r)) D)"
proof -
  let ?s = "(boot_log D)\<lparr>log_start := st, log_size := sz, log_dev := d\<rparr>"
  let ?a = "\<lparr>view = D, refs = \<lambda>_. 0, held = \<lambda>_. None\<rparr>"
  have ok: "cache_ok d (cache ?s) ?a" "log_dev ?s = d" "fresh ?a" using boot_ok(1) [OF assms(2)] by (simp_all add: fresh_def)
  obtain bs where bs: "log_head st D bs" using assms(1) by (auto simp: recoverable_def settled_def committed_def)
  then have h: "log_head (log_start ?s) (ldisk ?s) bs" using boot_ok(2) [OF assms(2)] by simp
  note P = recovery_prefix [OF assms(1) bs]
  have out: "outside_log (log_start ?s) sz bs" using P(3) by simp
  obtain r a' where r: "recover_from_log p ?s = Inr r" "same_log ?s r" "lh r = []"
    "written r = written ?s @ recovery_writes (log_start ?s) bs (ldisk ?s)"
    "ldisk r = apply_writes (recovery_writes (log_start ?s) bs (ldisk ?s)) (ldisk ?s)" "cache_ok d (cache r) a'" "fresh a'"
    by (rule recover_writes [OF ok h out])
  have "initlog p d st sz (boot_log D) = Inr r" using r(1) by (simp add: initlog_def LOGSIZE_def MAXOPBLOCKS_def BSIZE_def)
  moreover have "written ?s = []" "ldisk ?s = D" "log_start ?s = st" using boot_ok(2) [OF assms(2)] by (simp_all add: boot_log_def)
  ultimately show ?thesis using r P by (intro that [of r a']) (auto simp: same_log_def)
qed

lemma crashes_recoverable:
  assumes "crashes p d st sz D E" "recoverable st sz F D" "d \<noteq> 0"
  shows "recoverable st sz F E"
  using assms
proof (induction rule: crashes.induct)
  case (again E r k)
  then have "recoverable st sz F E" by blast
  from boot_recovers [OF this again.prems(2), of p] again.hyps(2) show ?case by auto
qed

end
