(* ===== verification/Log_Properties.thy ===== *)
theory Log_Properties
  imports Log_Crash
begin

text \<open>
  What the log promises to the file system: an update inside a transaction is visible at once and reaches the disk only
  with the commit, a commit is atomic under crashes, and operations that stay within their reservation never
  overflow the log.
\<close>

section \<open>Updates inside a transaction\<close>

text \<open>How the file system changes a block: \<^verbatim>\<open>bread\<close>, change the data, \<^verbatim>\<open>log_write\<close>, \<^verbatim>\<open>brelse\<close>.\<close>

definition log_update :: "nat \<Rightarrow> nat \<Rightarrow> block \<Rightarrow> logsys \<Rightarrow> fault + logsys" where
  "log_update p n x s =
     bindE (lbread p n s) (\<lambda>(b, s).
     bindE (log_write b (lput b x s)) (lbrelse p b))"

lemma log_write_eq:
  assumes "cache_ok d (cache s) a" "in_buf d (cache s) n b" "length (lh s) < LOGSIZE" "int (length (lh s)) < int (log_size s) - 1" "0 < outstanding s"
  shows "log_write b s = Inr (if n \<in> set (lh s) then s else s\<lparr>cache := bpin b (cache s), lh := lh s @ [n]\<rparr>)"
  using in_buf_data [OF assms(1,2)] assms(3-5) by (auto simp: log_write_def)

lemma log_update_ok:
  assumes inv: "log_inv s a" and tr: "0 < outstanding s" and n: "\<not> in_log (log_start s) (log_size s) n" "n < 2 ^ 32"
    and space: "length (lh s) < LOGSIZE" "int (length (lh s)) < int (log_size s) - 1"
  shows "\<exists>s'. log_update p n x s = Inr s' \<and> same_log s s' \<and> ldisk s' = ldisk s \<and> written s' = written s \<and>
    lh s' = (if n \<in> set (lh s) then lh s else lh s @ [n]) \<and>
    log_inv s' (a\<lparr>view := (view a)(n := x), refs := (refs a)(n := 1)\<rparr>)"
proof -
  let ?d = "log_dev s"
  note I = log_invD [OF inv]
  have "card {m. 0 < refs a m} < NBUF"
    by (rule card_le_bound [of "set (lh s)"]) (use I(3) space(1) card_length [of "lh s"] in \<open>auto simp: NBUF_def LOGSIZE_def MAXOPBLOCKS_def split: if_splits\<close>)
  then have room: "room a n" by (simp add: room_def)
  obtain b s1 where 1: "lbread p n s = Inr (b, s1)" "did [] s s1" "in_buf ?d (cache s1) n b" "cache_ok ?d (cache s1) (got p n a)"
    by (rule lbread_step [OF I(1) refl I(2) room])
  let ?s2 = "lput b x s1" and ?a2 = "(got p n a)\<lparr>view := (view (got p n a))(n := x)\<rparr>"
  have g: "0 < refs (got p n a) n" by simp
  note 2 = lput_step [OF 1(4,3) g, of x]
  note b2 = keepsD [OF 2(3) 1(3) g]
  have l2: "lh ?s2 = lh s" "log_size ?s2 = log_size s" "outstanding ?s2 = outstanding s" using 1(2) 2(2) by (simp_all add: did_def same_log_def)
  let ?s3 = "if n \<in> set (lh s) then ?s2 else ?s2\<lparr>cache := bpin b (cache ?s2), lh := lh s @ [n]\<rparr>"
  let ?a3 = "?a2\<lparr>refs := (refs a)(n := 2)\<rparr>"
  have 3: "log_write b ?s2 = Inr ?s3" using log_write_eq [OF 2(1) b2] l2 space tr by simp
  have ok3: "cache_ok ?d (cache ?s3) ?a3" "in_buf ?d (cache ?s3) n b"
  proof -
    have eq: "?a2 = ?a3" if "n \<in> set (lh s)" using I(3) [of n] that by (intro acache.equality) auto
    have eq': "?a2\<lparr>refs := (refs ?a2)(n := refs ?a2 n + 1)\<rparr> = ?a3" if "n \<notin> set (lh s)"
      using I(3) [of n] that by (intro acache.equality) (auto simp: numeral_2_eq_2)
    show "cache_ok ?d (cache ?s3) ?a3"
    proof (cases "n \<in> set (lh s)")
      case True
      with 2(1) show ?thesis unfolding eq [OF True, symmetric] by simp
    next
      case False
      with bpin_ok(1) [OF 2(1) b2] show ?thesis unfolding eq' [OF False, symmetric] by simp
    qed
    show "in_buf ?d (cache ?s3) n b" using bpin_ok(3) [OF 2(1) b2] b2 by simp
  qed
  have h3: "held ?a3 n = Some p" "refs ?a3 n = 1 \<longrightarrow> view ?a3 n = ldisk ?s3 n" by simp_all
  obtain s4 where 4: "lbrelse p b ?s3 = Inr s4" "did [] ?s3 s4" "cache_ok ?d (cache s4) (dropped n ?a3)"
    by (rule lbrelse_step [OF ok3 h3])
  have a: "dropped n ?a3 = a\<lparr>view := (view a)(n := x), refs := (refs a)(n := 1)\<rparr>" using I(2) by (intro acache.equality) auto
  have disk: "ldisk ?s3 = ldisk s" using did_disk [OF 1(2)] did_disk [OF 2(2)] bpin_ok(2) [OF 2(1) b2] by simp
  have log: "same_log s s4" "ldisk s4 = ldisk s" "written s4 = written s" "lh s4 = (if n \<in> set (lh s) then lh s else lh s @ [n])"
    using 1(2) 2(2) 4(2) disk by (auto simp: did_def same_log_def)
  have "log_inv s4 (a\<lparr>view := (view a)(n := x), refs := (refs a)(n := 1)\<rparr>)"
    using 4(3) a log I n space unfolding log_inv_def by (auto simp: same_log_def outside_log_def)
  with 1(1) 3 4(1) log show ?thesis by (simp add: log_update_def)
qed

section \<open>The properties\<close>

text \<open>A small file system for examples: the log has 40 blocks from block 2 and all blocks are zero.\<close>

lemma zero_head: "log_head st (\<lambda>_. replicate BSIZE 0) []"
proof -
  have "le_nat (replicate k 0) = 0" for k by (induction k) simp_all
  then have "head_n (replicate BSIZE 0) = 0" by (simp add: head_n_def)
  then show ?thesis by (simp add: log_head_def)
qed

lemma demo_log:
  obtains s a where "log_inv s a" "outstanding s = 1" "lh s = []" "log_dev s = 1" "log_start s = 2" "log_size s = 40" "\<forall>n. \<not> in_log 2 40 n \<longrightarrow> ldisk s n = replicate BSIZE 0"
proof -
  let ?D = "\<lambda>_. replicate BSIZE 0"
  have "recoverable 2 40 ?D ?D" using zero_head by (simp add: recoverable_def settled_def)
  then obtain r a where r: "lh r = []" "settled 2 40 ?D (ldisk r)" "cache_ok 1 (cache r) a" "fresh a" "log_dev r = 1" "log_start r = 2" "log_size r = 40"
    by (rule boot_recovers [of 2 40 ?D ?D 1 0]) auto
  show ?thesis
    by (rule that [of "r\<lparr>outstanding := 1\<rparr>" a]) (use r in \<open>simp_all add: log_inv_def fresh_def settled_def outside_log_def\<close>)
qed

text \<open>C21: An update inside a transaction is visible to later reads at once, is remembered in the log exactly once however often the block is
  changed (absorption), pins the buffer, and does not touch the disk.\<close>

theorem log_update_defers_to_commit:
  assumes "log_inv s a" and "0 < outstanding s" and "\<not> in_log (log_start s) (log_size s) n" and "n < 2 ^ 32"
    and "length (lh s) < LOGSIZE" and "int (length (lh s)) < int (log_size s) - 1"
  shows "\<exists>s'. log_update p n x s = Inr s' \<and> ldisk s' = ldisk s \<and> written s' = written s \<and>
    lh s' = (if n \<in> set (lh s) then lh s else lh s @ [n]) \<and>
    log_inv s' (a\<lparr>view := (view a)(n := x), refs := (refs a)(n := 1)\<rparr>)"
  using log_update_ok [OF assms] by blast

theorem log_update_defers_to_commit_witness:
  "\<exists>s a s'. log_update 7 50 (replicate BSIZE 9) s = Inr s' \<and> ldisk s' = ldisk s \<and> lh s' = [50] \<and> log_inv s' a \<and> view a 50 = replicate BSIZE 9"
proof -
  obtain s a where d: "log_inv s a" "outstanding s = 1" "lh s = []" "log_start s = 2" "log_size s = 40" by (rule demo_log)
  then have "\<exists>s'. log_update 7 50 (replicate BSIZE 9) s = Inr s' \<and> ldisk s' = ldisk s \<and> written s' = written s \<and>
    lh s' = (if 50 \<in> set (lh s) then lh s else lh s @ [50]) \<and>
    log_inv s' (a\<lparr>view := (view a)(50 := replicate BSIZE 9), refs := (refs a)(50 := 1)\<rparr>)"
    by (intro log_update_defers_to_commit) (simp_all add: in_log_def LOGSIZE_def MAXOPBLOCKS_def)
  with d show ?thesis by force
qed

text \<open>C20: Commit writes the transaction home: it succeeds whenever one buffer is left unpinned, afterwards every block outside of the log has on disk
  the contents the transaction gave it, the log is empty in memory and on disk, and no buffer is pinned any more.\<close>

theorem commit_installs_transaction:
  assumes "log_inv s a" and "length (lh s) < NBUF"
  shows "\<exists>s' a'. commit p s = Inr s' \<and> lh s' = [] \<and> log_inv s' a' \<and>
    (\<forall>n. in_log (log_start s) (log_size s) n \<or> ldisk s' n = view a n)"
proof (cases "lh s = []")
  case True
  with commit_empty [OF True] log_invD(9) [OF assms(1)] assms(1) show ?thesis by auto
next
  case False
  then have "0 < length (lh s)" by simp
  then obtain s' a' h1 h0 where c: "commit p s = Inr s'" "same_log s s'" "lh s' = []"
    "ldisk s' = apply_writes (commit_writes (log_start s) (lh s) (view a) h1 h0) (ldisk s)" "cache_ok (log_dev s) (cache s') a'" "fresh a'"
    by (rule commit_does_writes [OF assms(1) _ assms(2)])
  let ?st = "log_start s" and ?sz = "log_size s" and ?n = "length (lh s)"
  have len: "?n < ?sz" using log_invD(7) [OF assms(1)] by (simp add: outside_log_def)
  have "ldisk s' n = view a n" if "\<not> in_log ?st ?sz n" for n
    using that len log_writes_other [OF that len, of "[0..<?n]" "view a" "ldisk s"] log_invD(9) [OF assms(1), of n] set_nth_upt [of "lh s"]
    by (auto simp: c(4) commit_writes_def apply_new_values in_log_def)
  moreover have "log_head ?st (ldisk s') []" by (rule log_head_put) (simp_all add: c(4) commit_writes_def)
  then have "log_inv s' a'" using c len by (simp add: log_inv_def fresh_def same_log_def outside_log_def)
  ultimately show ?thesis using c(1,3) by blast
qed

lemma demo_updated:
  obtains s a where "log_inv s a" "lh s = [50]" "log_dev s = 1" "log_start s = 2" "log_size s = 40" "view a 50 = replicate BSIZE 9"
    "ldisk s 50 = replicate BSIZE 0"
proof -
  obtain s a where d: "log_inv s a" "outstanding s = 1" "lh s = []" "log_dev s = 1" "log_start s = 2" "log_size s = 40"
      "\<forall>n. \<not> in_log 2 40 n \<longrightarrow> ldisk s n = replicate BSIZE 0" by (rule demo_log)
  then have "\<exists>s'. log_update 7 50 (replicate BSIZE 9) s = Inr s' \<and> same_log s s' \<and> ldisk s' = ldisk s \<and> written s' = written s \<and>
    lh s' = (if 50 \<in> set (lh s) then lh s else lh s @ [50]) \<and>
    log_inv s' (a\<lparr>view := (view a)(50 := replicate BSIZE 9), refs := (refs a)(50 := 1)\<rparr>)"
    by (intro log_update_ok) (simp_all add: in_log_def LOGSIZE_def MAXOPBLOCKS_def)
  then obtain s' where "same_log s s'" "ldisk s' = ldisk s" "lh s' = [50]"
      "log_inv s' (a\<lparr>view := (view a)(50 := replicate BSIZE 9), refs := (refs a)(50 := 1)\<rparr>)" using d(3) by auto
  with d show ?thesis
    by (intro that [of s' "a\<lparr>view := (view a)(50 := replicate BSIZE 9), refs := (refs a)(50 := 1)\<rparr>"]) (simp_all add: same_log_def in_log_def)
qed

theorem commit_installs_transaction_witness:
  "\<exists>s s'. lh s = [50] \<and> commit 7 s = Inr s' \<and> lh s' = [] \<and> ldisk s' 50 = replicate BSIZE 9"
proof -
  obtain s a where d: "log_inv s a" "lh s = [50]" "log_start s = 2" "log_size s = 40" "view a 50 = replicate BSIZE 9" by (rule demo_updated)
  with commit_installs_transaction [OF d(1), of 7] have "\<exists>s'. commit 7 s = Inr s' \<and> lh s' = [] \<and> (in_log 2 40 50 \<or> ldisk s' 50 = view a 50)"
    by (auto simp: NBUF_def)
  with d show ?thesis by (auto simp: in_log_def)
qed

text \<open>C2: Commit is atomic under crashes. Cut the writes of a commit off after any number \<open>k\<close> of them, then let any number of reboots
  crash while they recover: the next boot recovers without a fault to a disk that has, outside of the log, either all the old blocks or
  all the new ones.\<close>

theorem commit_is_crash_atomic:
  assumes "log_inv s a" and "length (lh s) < NBUF" and "log_dev s \<noteq> 0"
  shows "\<exists>s' ws. commit p s = Inr s' \<and> written s' = written s @ ws \<and>
    (\<forall>k E. crashes q (log_dev s) (log_start s) (log_size s) (apply_writes (take k ws) (ldisk s)) E \<longrightarrow>
      (\<exists>r. initlog q (log_dev s) (log_start s) (log_size s) (boot_log E) = Inr r \<and> lh r = [] \<and>
         ((\<forall>n. in_log (log_start s) (log_size s) n \<or> ldisk r n = ldisk s n) \<or>
          (\<forall>n. in_log (log_start s) (log_size s) n \<or> ldisk r n = view a n))))"
proof -
  let ?st = "log_start s" and ?sz = "log_size s" and ?d = "log_dev s"
  let ?rec = "\<lambda>D. recoverable ?st ?sz (ldisk s) D \<or> recoverable ?st ?sz (view a) D"
  have "\<exists>s' ws. commit p s = Inr s' \<and> written s' = written s @ ws \<and> (\<forall>k. ?rec (apply_writes (take k ws) (ldisk s)))"
  proof (cases "lh s = []")
    case True
    have "settled ?st ?sz (ldisk s) (ldisk s)" using log_invD(7,8) [OF assms(1)] by (simp add: settled_def outside_log_def)
    with commit_empty [OF True] show ?thesis by (auto simp: recoverable_def)
  next
    case False
    then have "0 < length (lh s)" by simp
    then obtain s' a' h1 h0 where c: "commit p s = Inr s'" "written s' = written s @ commit_writes ?st (lh s) (view a) h1 h0"
      by (rule commit_does_writes [OF assms(1) _ assms(2)])
    have "?rec (apply_writes (take k (commit_writes ?st (lh s) (view a) h1 h0)) (ldisk s))" for k
    proof (cases "k \<le> length (commit_writes ?st (lh s) (view a) h1 h0)")
      case False
      with commit_prefix [OF assms(1) order_refl, of h1 h0] show ?thesis by simp
    qed (rule commit_prefix [OF assms(1)])
    with c show ?thesis by blast
  qed
  then obtain s' ws where c: "commit p s = Inr s'" "written s' = written s @ ws" and k: "\<And>k. ?rec (apply_writes (take k ws) (ldisk s))"
    by blast
  have "\<exists>r. initlog q ?d ?st ?sz (boot_log E) = Inr r \<and> lh r = [] \<and>
      ((\<forall>n. in_log ?st ?sz n \<or> ldisk r n = ldisk s n) \<or> (\<forall>n. in_log ?st ?sz n \<or> ldisk r n = view a n))"
    if "crashes q ?d ?st ?sz (apply_writes (take k ws) (ldisk s)) E" for k E
  proof -
    have rec: "\<exists>r. initlog q ?d ?st ?sz (boot_log E) = Inr r \<and> lh r = [] \<and> (\<forall>n. in_log ?st ?sz n \<or> ldisk r n = F n)"
      if "recoverable ?st ?sz F E" for F
      by (rule boot_recovers [OF that assms(3), of q]) (auto simp: settled_def)
    show ?thesis using k [of k] crashes_recoverable [OF that _ assms(3)] rec by blast
  qed
  with c show ?thesis by blast
qed

theorem commit_is_crash_atomic_witness:
  "\<exists>s s' ws r. lh s = [50] \<and> commit 7 s = Inr s' \<and> written s' = written s @ ws \<and>
    initlog 3 1 2 40 (boot_log (apply_writes (take 1 ws) (ldisk s))) = Inr r \<and>
    (ldisk r 50 = replicate BSIZE 0 \<or> ldisk r 50 = replicate BSIZE 9)"
proof -
  obtain s a where d: "log_inv s a" "lh s = [50]" "log_dev s = 1" "log_start s = 2" "log_size s = 40" "view a 50 = replicate BSIZE 9"
    "ldisk s 50 = replicate BSIZE 0" by (rule demo_updated)
  have n: "length (lh s) < NBUF" "log_dev s \<noteq> 0" "\<not> in_log 2 40 50" using d by (simp_all add: NBUF_def in_log_def)
  obtain s' ws where c: "commit 7 s = Inr s'" "written s' = written s @ ws" and
    r: "\<And>k E. crashes 3 1 2 40 (apply_writes (take k ws) (ldisk s)) E \<Longrightarrow> \<exists>r. initlog 3 1 2 40 (boot_log E) = Inr r \<and> lh r = [] \<and>
         ((\<forall>n. in_log 2 40 n \<or> ldisk r n = ldisk s n) \<or> (\<forall>n. in_log 2 40 n \<or> ldisk r n = view a n))"
    using commit_is_crash_atomic [OF d(1) n(1,2), of 7 3] unfolding d(3-5) by blast
  from r [OF crashes.none, of 1] obtain r where "initlog 3 1 2 40 (boot_log (apply_writes (take 1 ws) (ldisk s))) = Inr r"
      "ldisk r 50 = ldisk s 50 \<or> ldisk r 50 = view a 50" using n(3) by blast
  with c d show ?thesis by auto
qed

section \<open>Reservation of log space\<close>

text \<open>
  File-system operations in any interleaving: \<open>budgets\<close> lists, for every operation between its \<^verbatim>\<open>begin_op\<close> and \<^verbatim>\<open>end_op\<close>, how many
  blocks it may still write, of the \<^verbatim>\<open>MAXOPBLOCKS\<close> an operation is allowed.
\<close>

inductive log_run :: "logsys \<Rightarrow> nat list \<Rightarrow> bool" where
  idle_log: "lh s = [] \<Longrightarrow> outstanding s = 0 \<Longrightarrow> \<not> committing s \<Longrightarrow> log_run s []"
| begins: "log_run s budgets \<Longrightarrow> begin_op s = Inr s' \<Longrightarrow> log_run s' (MAXOPBLOCKS # budgets)"
| logs: "log_run s budgets \<Longrightarrow> i < length budgets \<Longrightarrow> 0 < budgets ! i \<Longrightarrow> log_write b s = Inr s' \<Longrightarrow>
    log_run s' (budgets[i := budgets ! i - 1])"
| ends: "log_run s budgets \<Longrightarrow> i < length budgets \<Longrightarrow> end_op p s = Inr s' \<Longrightarrow> log_run s' (take i budgets @ drop (Suc i) budgets)"

lemma lb_fields:
  "lbread p n s = Inr (b, s') \<Longrightarrow> lh s' = lh s \<and> outstanding s' = outstanding s \<and> committing s' = committing s \<and> log_size s' = log_size s"
  "lbwrite p b s = Inr s' \<Longrightarrow> lh s' = lh s \<and> outstanding s' = outstanding s \<and> committing s' = committing s \<and> log_size s' = log_size s"
  "lbrelse p b s = Inr s' \<Longrightarrow> lh s' = lh s \<and> outstanding s' = outstanding s \<and> committing s' = committing s \<and> log_size s' = log_size s"
  "lh (lput b x s) = lh s \<and> outstanding (lput b x s) = outstanding s \<and> committing (lput b x s) = committing s \<and> log_size (lput b x s) = log_size s"
  by (auto simp: lbread_def lbwrite_def lbrelse_def lput_def bindE_Inr_iff)

definition same_counts :: "logsys \<Rightarrow> logsys \<Rightarrow> bool" where
  "same_counts s s' \<longleftrightarrow> lh s' = lh s \<and> outstanding s' = outstanding s \<and> committing s' = committing s \<and> log_size s' = log_size s"

lemma forE_keeps:
  assumes "forE is f s = Inr s'" "\<And>i s s'. f i s = Inr s' \<Longrightarrow> same_counts s s'"
  shows "same_counts s s'"
  using assms(1)
proof (induction "is" arbitrary: s)
  case (Cons i "is")
  then obtain t where "f i s = Inr t" "forE is f t = Inr s'" by (auto simp: bindE_Inr_iff)
  with Cons.IH [of t] assms(2) [of i s t] show ?case by (simp add: same_counts_def)
qed (simp add: same_counts_def)

lemma write_head_counts: "write_head p s = Inr s' \<Longrightarrow> same_counts s s'"
  by (auto simp: write_head_def bindE_Inr_iff same_counts_def lb_fields(4) dest!: lb_fields(1-3))

lemma write_log_counts: "write_log p s = Inr s' \<Longrightarrow> same_counts s s'"
  unfolding write_log_def
  by (erule forE_keeps) (auto simp: write_log_block_def bindE_Inr_iff same_counts_def lb_fields(4) dest!: lb_fields(1-3))

lemma install_trans_counts: "install_trans p r s = Inr s' \<Longrightarrow> same_counts s s'"
  unfolding install_trans_def
  by (erule forE_keeps) (auto simp: install_block_def Let_def bindE_Inr_iff same_counts_def lb_fields(4) split: if_splits dest!: lb_fields(1-3))

lemma commit_counts:
  "commit p s = Inr s' \<Longrightarrow> lh s' = [] \<and> outstanding s' = outstanding s \<and> committing s' = committing s \<and> log_size s' = log_size s"
  by (auto simp: commit_def bindE_Inr_iff same_counts_def split: if_splits
      dest!: write_head_counts write_log_counts install_trans_counts)

lemma sum_list_update_pred:
  "i < length xs \<Longrightarrow> 0 < xs ! i \<Longrightarrow> sum_list (xs[i := xs ! i - 1]) + 1 = (sum_list xs :: nat)"
  using member_le_sum_list [OF nth_mem, of i xs] by (simp add: sum_list_update)

lemma sum_list_remove: "sum_list (take i xs @ drop (Suc i) xs) \<le> (sum_list xs :: nat)"
proof (induction xs arbitrary: i)
  case (Cons x xs)
  then show ?case by (cases i) auto
qed simp

lemma positive_budget:
  assumes "0 < sum_list (xs :: nat list)"
  obtains i where "i < length xs" "0 < xs ! i"
  using assms by (metis gr0I in_set_conv_nth sum_list_eq_0_iff)

lemma log_run_inv:
  "log_run s budgets \<Longrightarrow> outstanding s = int (length budgets) \<and> length (lh s) + sum_list budgets \<le> LOGSIZE \<and>
     (\<forall>n\<in>set budgets. n \<le> MAXOPBLOCKS) \<and> \<not> committing s"
proof (induction rule: log_run.induct)
  case (idle_log s)
  then show ?case by simp
next
  case (begins s budgets s')
  have "sum_list budgets \<le> length budgets * MAXOPBLOCKS"
    using begins.IH sum_list_mono [of budgets "\<lambda>x. x" "\<lambda>_. MAXOPBLOCKS"] by (simp add: sum_list_triv)
  with begins show ?case by (auto simp: begin_op_def MAXOPBLOCKS_def LOGSIZE_def split: if_splits)
next
  case (logs s budgets i b s')
  from logs.IH logs.hyps(2,3) sum_list_update_pred [OF logs.hyps(2,3)] set_update_subset_insert [of budgets i "budgets ! i - 1"] nth_mem [OF logs.hyps(2)]
  show ?case using logs.hyps(4) by (fastforce simp: log_write_def Let_def bpin_def split: if_splits)
next
  case (ends s budgets i p s')
  have m: "\<forall>n\<in>set (take i budgets @ drop (Suc i) budgets). n \<le> MAXOPBLOCKS"
    using ends.IH by (auto dest: in_set_takeD in_set_dropD)
  have o: "outstanding s' = outstanding s - 1 \<and> length (lh s') \<le> length (lh s) \<and> \<not> committing s'"
    using ends.hyps(3) ends.IH by (auto simp: end_op_def Let_def bindE_Inr_iff split: if_splits dest!: commit_counts)
  have "int (length (take i budgets @ drop (Suc i) budgets)) = int (length budgets) - 1" using ends.hyps(2) by auto
  with m o ends.IH sum_list_remove [of i budgets] show ?case by linarith
qed

text \<open>C22: The reservation of \<^verbatim>\<open>begin_op\<close> suffices: when the on-disk log is larger than \<^verbatim>\<open>LOGSIZE\<close> blocks, an operation that has written fewer than
  \<^verbatim>\<open>MAXOPBLOCKS\<close> blocks can always log another one; \<^verbatim>\<open>log_write\<close> never panics, whatever the other operations have written.\<close>

theorem log_space_suffices:
  assumes "log_run s budgets" and "i < length budgets" and "0 < budgets ! i" and "LOGSIZE < log_size s"
  shows "\<exists>s'. log_write b s = Inr s'"
proof -
  from log_run_inv [OF assms(1)] have "outstanding s = int (length budgets)" "length (lh s) + sum_list budgets \<le> LOGSIZE" by auto
  moreover have "budgets ! i \<le> sum_list budgets" using assms(2) by (simp add: member_le_sum_list)
  ultimately show ?thesis using assms(2-4) by (auto simp: log_write_def Let_def)
qed

text \<open>A log of exactly \<^verbatim>\<open>LOGSIZE\<close> blocks and buffers that hold different blocks.\<close>

definition tight_log :: logsys where
  "tight_log = \<lparr>cache = \<lparr>buf = \<lambda>b. \<lparr>valid = True, dev = 1, bno = 100 + b, lock = None, refcnt = 0, bdata = []\<rparr>, nxt = \<lambda>_. 0, prv = \<lambda>_. 0, fsdisk = \<lambda>_. []\<rparr>,
     log_start = 2, log_size = LOGSIZE, outstanding = 0, committing = False, log_dev = 1, lh = [], written = []\<rparr>"

lemma tight_begin:
  "log_run (tight_log\<lparr>outstanding := 3\<rparr>) [MAXOPBLOCKS, MAXOPBLOCKS, MAXOPBLOCKS]"
proof -
  have "log_run (tight_log\<lparr>outstanding := int k\<rparr>) (replicate k MAXOPBLOCKS)" if "k \<le> 3" for k
    using that
  proof (induction k)
    case 0
    show ?case by (auto intro!: log_run.idle_log simp: tight_log_def)
  next
    case (Suc k)
    then have "begin_op (tight_log\<lparr>outstanding := int k\<rparr>) = Inr (tight_log\<lparr>outstanding := int (Suc k)\<rparr>)"
      by (simp add: begin_op_def tight_log_def LOGSIZE_def MAXOPBLOCKS_def)
    from log_run.begins [OF Suc.IH this] Suc.prems show ?case by simp
  qed
  from this [of 3] show ?thesis by (simp add: numeral_3_eq_3)
qed

lemma tight_fill:
  "k < LOGSIZE \<Longrightarrow> \<exists>s budgets. log_run s budgets \<and> sum_list budgets + k = LOGSIZE \<and> lh s = map (\<lambda>b. 100 + b) [1..<k + 1] \<and>
     log_size s = LOGSIZE \<and> 0 < outstanding s \<and> (\<forall>b. bno (buf (cache s) b) = 100 + b)"
proof (induction k)
  case 0
  from tight_begin show ?case
    by (intro exI [of _ "tight_log\<lparr>outstanding := 3\<rparr>"] exI [of _ "[MAXOPBLOCKS, MAXOPBLOCKS, MAXOPBLOCKS]"] conjI)
      (simp_all add: tight_log_def LOGSIZE_def)
next
  case (Suc k)
  then obtain s budgets where s: "log_run s budgets" "sum_list budgets + k = LOGSIZE" "lh s = map (\<lambda>b. 100 + b) [1..<k + 1]"
    "log_size s = LOGSIZE" "0 < outstanding s" "\<And>b. bno (buf (cache s) b) = 100 + b" by auto
  have "sum_list budgets > 0" using s(2) Suc.prems by linarith
  then obtain i where i: "i < length budgets" "0 < budgets ! i" by (rule positive_budget)
  let ?s = "s\<lparr>cache := bpin (k + 1) (cache s), lh := lh s @ [100 + (k + 1)]\<rparr>"
  have "log_write (k + 1) s = Inr ?s"
    using s(3-6) Suc.prems by (auto simp: log_write_def Let_def)
  note run = log_run.logs [OF s(1) i this]
  have "lh ?s = map (\<lambda>b. 100 + b) [1..<Suc k + 1]" using s(3) by simp
  with run sum_list_update_pred [OF i] s show ?case
    by (intro exI [of _ ?s] exI [of _ "budgets[i := budgets ! i - 1]"]) (auto simp: bpin_def)
qed

text \<open>C23: The reservation is against \<^verbatim>\<open>LOGSIZE\<close>, but \<^verbatim>\<open>log_write\<close> also panics when the header block leaves no room: with an on-disk log of
  exactly \<^verbatim>\<open>LOGSIZE\<close> blocks there is a run in which \<^verbatim>\<open>begin_op\<close> admitted three operations, none of which exceeds its \<^verbatim>\<open>MAXOPBLOCKS\<close>, and
  the next block one of them logs stops the kernel.\<close>

theorem log_of_LOGSIZE_blocks_overflows:
  "\<exists>s budgets i. log_run s budgets \<and> i < length budgets \<and> 0 < budgets ! i \<and> log_size s = LOGSIZE \<and>
     log_write 30 s = Inl (Panic ''too big a transaction'')"
proof -
  have "LOGSIZE - 1 < LOGSIZE" by (simp add: LOGSIZE_def MAXOPBLOCKS_def)
  from tight_fill [OF this] obtain s budgets where s: "log_run s budgets" "sum_list budgets + (LOGSIZE - 1) = LOGSIZE"
    "lh s = map (\<lambda>b. 100 + b) [1..<LOGSIZE - 1 + 1]" "log_size s = LOGSIZE" by auto
  have "sum_list budgets > 0" using s(2) \<open>LOGSIZE - 1 < LOGSIZE\<close> by linarith
  then obtain i where "i < length budgets" "0 < budgets ! i" by (rule positive_budget)
  moreover have "log_write 30 s = Inl (Panic ''too big a transaction'')" using s(3,4) by (simp add: log_write_def LOGSIZE_def MAXOPBLOCKS_def)
  ultimately show ?thesis using s(1,4) by blast
qed

theorem log_space_suffices_witness:
  "\<exists>s'. log_write 5 (tight_log\<lparr>log_size := 31, outstanding := 1\<rparr>) = Inr s'"
proof -
  let ?s = "tight_log\<lparr>log_size := 31\<rparr>"
  have "log_run ?s []" by (rule log_run.idle_log) (simp_all add: tight_log_def)
  moreover have "begin_op ?s = Inr (tight_log\<lparr>log_size := 31, outstanding := 1\<rparr>)"
    by (simp add: begin_op_def tight_log_def LOGSIZE_def MAXOPBLOCKS_def)
  ultimately have "log_run (tight_log\<lparr>log_size := 31, outstanding := 1\<rparr>) [MAXOPBLOCKS]" by (rule log_run.begins)
  then show ?thesis by (rule log_space_suffices [of _ _ 0]) (simp_all add: tight_log_def LOGSIZE_def MAXOPBLOCKS_def)
qed

end
