(* ===== verification/Fs.thy ===== *)
theory Fs
  imports Log
begin

text \<open>
  The file system, \<^verbatim>\<open>kernel/fs.c\<close> with the on-disk layout of \<^verbatim>\<open>kernel/fs.h\<close>, on the block view that the log provides inside a transaction
  (\<^verbatim>\<open>Log_Properties\<close>): \<open>dsk\<close> is what \<^verbatim>\<open>bread\<close> returns, that is the cached contents of every block, \<open>bheld\<close> the blocks whose buffers
  the caller holds (a second \<^verbatim>\<open>bread\<close> of one of them would wait for itself), and \<open>tx\<close> the blocks of the transaction, \<^verbatim>\<open>log.lh\<close>. Changing the
  data of a buffer and \<^verbatim>\<open>log_write\<close> are separate steps, as in the code. \<open>itable\<close> is the table of in-memory inodes, indexed by slot; the sleep lock
  of an inode is the process that holds it. C strings are lists of bytes without the final NUL.
\<close>

section \<open>On-disk layout\<close>

definition ROOTINO :: nat where "ROOTINO = 1"
definition ROOTDEV :: nat where "ROOTDEV = 1"
definition FSMAGIC :: nat where "FSMAGIC = 0x10203040"
definition NDIRECT :: nat where "NDIRECT = 12"
definition NINDIRECT :: nat where "NINDIRECT = BSIZE div 4"
definition MAXFILE :: nat where "MAXFILE = NDIRECT + NINDIRECT"
definition IPB :: nat where "IPB = BSIZE div 64"
definition BPB :: nat where "BPB = BSIZE * 8"
definition DIRSIZ :: nat where "DIRSIZ = 14"
definition NINODE :: nat where "NINODE = 50"
definition T_DIR :: u16 where "T_DIR = 1"
definition T_FILE :: u16 where "T_FILE = 2"
definition T_DEVICE :: u16 where "T_DEVICE = 3"

record superblock =
  sb_magic :: nat
  sb_size :: nat
  sb_nblocks :: nat
  sb_ninodes :: nat
  sb_nlog :: nat
  sb_logstart :: nat
  sb_inodestart :: nat
  sb_bmapstart :: nat

definition IBLOCK :: "nat \<Rightarrow> superblock \<Rightarrow> nat" where
  "IBLOCK i sb = i div IPB + sb_inodestart sb"

definition BBLOCK :: "nat \<Rightarrow> superblock \<Rightarrow> nat" where
  "BBLOCK b sb = b div BPB + sb_bmapstart sb"

record dinode =
  di_type :: u16
  di_major :: u16
  di_minor :: u16
  di_nlink :: u16
  di_size :: u32
  di_addrs :: "nat list"

record inode =
  idev :: nat
  inum :: nat
  ref :: int
  ilk :: "nat option"
  ivalid :: bool
  ityp :: u16
  imajor :: u16
  iminor :: u16
  nlink :: u16
  isize :: u32
  addrs :: "nat list"

record stat =
  st_dev :: nat
  st_ino :: nat
  st_type :: u16
  st_nlink :: u16
  st_size :: nat

definition word_at32 :: "block \<Rightarrow> nat \<Rightarrow> nat" where
  "word_at32 data i = le_nat (take 4 (drop (4 * i) data))"

definition put32 :: "block \<Rightarrow> nat \<Rightarrow> nat \<Rightarrow> block" where
  "put32 data i v = take (4 * i) data @ bytes_le 4 v @ drop (4 * i + 4) data"

definition bytes_of_dinode :: "dinode \<Rightarrow> byte list" where
  "bytes_of_dinode d =
     bytes_le 2 (unat (di_type d)) @ bytes_le 2 (unat (di_major d)) @ bytes_le 2 (unat (di_minor d)) @
     bytes_le 2 (unat (di_nlink d)) @ bytes_le 4 (unat (di_size d)) @ concat (map (bytes_le 4) (di_addrs d))"

definition dinode_of_bytes :: "byte list \<Rightarrow> dinode" where
  "dinode_of_bytes bs =
     \<lparr>di_type = word_of_nat (le_nat (take 2 bs)), di_major = word_of_nat (le_nat (take 2 (drop 2 bs))),
      di_minor = word_of_nat (le_nat (take 2 (drop 4 bs))), di_nlink = word_of_nat (le_nat (take 2 (drop 6 bs))),
      di_size = word_of_nat (le_nat (take 4 (drop 8 bs))),
      di_addrs = map (\<lambda>i. le_nat (take 4 (drop (12 + 4 * i) bs))) [0..<NDIRECT + 1]\<rparr>"

definition get_dinode :: "block \<Rightarrow> nat \<Rightarrow> dinode" where
  "get_dinode data i = dinode_of_bytes (take 64 (drop (64 * i) data))"

definition put_dinode :: "block \<Rightarrow> nat \<Rightarrow> dinode \<Rightarrow> block" where
  "put_dinode data i d = take (64 * i) data @ bytes_of_dinode d @ drop (64 * i + 64) data"

definition superblock_of :: "block \<Rightarrow> superblock" where
  "superblock_of data =
     \<lparr>sb_magic = word_at32 data 0, sb_size = word_at32 data 1, sb_nblocks = word_at32 data 2, sb_ninodes = word_at32 data 3,
      sb_nlog = word_at32 data 4, sb_logstart = word_at32 data 5, sb_inodestart = word_at32 data 6, sb_bmapstart = word_at32 data 7\<rparr>"

section \<open>State and block operations\<close>

record fs =
  dsk :: "nat \<Rightarrow> block"
  bheld :: "nat list"
  tx :: "nat list"
  fsb :: superblock
  itable :: "nat \<Rightarrow> inode"

definition fbread :: "nat \<Rightarrow> fs \<Rightarrow> fault + fs" where
  "fbread n s = (if n \<in> set (bheld s) then Inl (Sleeps ''buffer'') else Inr (s\<lparr>bheld := n # bheld s\<rparr>))"

definition fbrelse :: "nat \<Rightarrow> fs \<Rightarrow> fault + fs" where
  "fbrelse n s = (if n \<notin> set (bheld s) then Inl (Panic ''brelse'') else Inr (s\<lparr>bheld := remove1 n (bheld s)\<rparr>))"

definition fput :: "nat \<Rightarrow> block \<Rightarrow> fs \<Rightarrow> fs" where
  "fput n x s = s\<lparr>dsk := (dsk s)(n := x)\<rparr>"

definition flog_write :: "nat \<Rightarrow> fs \<Rightarrow> fault + fs" where
  "flog_write n s =
     (if length (tx s) \<ge> LOGSIZE \<or> int (length (tx s)) \<ge> int (sb_nlog (fsb s)) - 1 then Inl (Panic ''too big a transaction'')
      else if n \<in> set (tx s) then Inr s else Inr (s\<lparr>tx := tx s @ [n]\<rparr>))"

definition fupdate :: "nat \<Rightarrow> block \<Rightarrow> fs \<Rightarrow> fault + fs" where
  "fupdate n x s = bindE (flog_write n (fput n x s)) (fbrelse n)"

definition readsb :: "fs \<Rightarrow> fault + fs" where
  "readsb s = bindE (fbread 1 s) (\<lambda>s. fbrelse 1 (s\<lparr>fsb := superblock_of (dsk s 1)\<rparr>))"

definition fsinit :: "(superblock \<Rightarrow> fs \<Rightarrow> fault + fs) \<Rightarrow> fs \<Rightarrow> fault + fs" where
  "fsinit init_log s =
     bindE (readsb s) (\<lambda>s.
     if sb_magic (fsb s) \<noteq> FSMAGIC then Inl (Panic ''invalid file system'')
     else init_log (fsb s) s)"

definition bzero :: "nat \<Rightarrow> fs \<Rightarrow> fault + fs" where
  "bzero n s = bindE (fbread n s) (\<lambda>s. fupdate n (replicate BSIZE 0) s)"

section \<open>Blocks\<close>

definition bit_of :: "block \<Rightarrow> nat \<Rightarrow> bool" where
  "bit_of data bi = (data ! (bi div 8) AND push_bit (bi mod 8) 1 \<noteq> 0)"

definition set_bit_of :: "block \<Rightarrow> nat \<Rightarrow> block" where
  "set_bit_of data bi = data[bi div 8 := data ! (bi div 8) OR push_bit (bi mod 8) 1]"

definition clear_bit_of :: "block \<Rightarrow> nat \<Rightarrow> block" where
  "clear_bit_of data bi = data[bi div 8 := data ! (bi div 8) AND NOT (push_bit (bi mod 8) 1)]"

text \<open>The inner loop of \<^verbatim>\<open>balloc\<close>: the first clear bit of a bitmap block.\<close>

definition first_clear :: "block \<Rightarrow> nat \<Rightarrow> nat \<Rightarrow> nat option" where
  "first_clear data b limit = find (\<lambda>bi. \<not> bit_of data bi) [0..<min BPB (limit - b)]"

function balloc_loop :: "nat \<Rightarrow> fs \<Rightarrow> fault + nat \<times> fs" where
  "balloc_loop b s =
     (if b \<ge> sb_size (fsb s) then Inr (0, s)
      else let n = BBLOCK b (fsb s) in
        bindE (fbread n s) (\<lambda>s.
        case first_clear (dsk s n) b (sb_size (fsb s)) of
          Some bi \<Rightarrow>
            bindE (fupdate n (set_bit_of (dsk s n) bi) s) (\<lambda>s.
            bindE (bzero (b + bi) s) (\<lambda>s. Inr (b + bi, s)))
        | None \<Rightarrow> bindE (fbrelse n s) (balloc_loop (b + BPB))))"
  by pat_completeness auto
termination
  by (relation "measure (\<lambda>(b, s). sb_size (fsb s) - b)") (auto simp: fbread_def fbrelse_def BPB_def BSIZE_def split: if_splits)

declare balloc_loop.simps [simp del]

definition balloc :: "fs \<Rightarrow> fault + nat \<times> fs" where
  "balloc s = balloc_loop 0 s"

definition bfree :: "nat \<Rightarrow> fs \<Rightarrow> fault + fs" where
  "bfree b s =
     (let n = BBLOCK b (fsb s); bi = b mod BPB in
      bindE (fbread n s) (\<lambda>s.
      if \<not> bit_of (dsk s n) bi then Inl (Panic ''freeing free block'')
      else fupdate n (clear_bit_of (dsk s n) bi) s))"

section \<open>Inodes\<close>

definition iinit :: "fs \<Rightarrow> fs" where
  "iinit s = s\<lparr>itable := (\<lambda>i. if i < NINODE then (itable s i)\<lparr>ilk := None\<rparr> else itable s i)\<rparr>"

definition upd_inode :: "nat \<Rightarrow> (inode \<Rightarrow> inode) \<Rightarrow> fs \<Rightarrow> fs" where
  "upd_inode ip f s = s\<lparr>itable := (itable s)(ip := f (itable s ip))\<rparr>"

definition iget :: "nat \<Rightarrow> nat \<Rightarrow> fs \<Rightarrow> fault + nat \<times> fs" where
  "iget d n s =
     (case find (\<lambda>i. ref (itable s i) > 0 \<and> idev (itable s i) = d \<and> inum (itable s i) = n) [0..<NINODE] of
        Some i \<Rightarrow> Inr (i, upd_inode i (\<lambda>v. v\<lparr>ref := ref v + 1\<rparr>) s)
      | None \<Rightarrow>
          (case find (\<lambda>i. ref (itable s i) = 0) [0..<NINODE] of
             None \<Rightarrow> Inl (Panic ''iget: no inodes'')
           | Some i \<Rightarrow> Inr (i, upd_inode i (\<lambda>v. v\<lparr>idev := d, inum := n, ref := 1, ivalid := False\<rparr>) s)))"

definition zero_dinode :: dinode where
  "zero_dinode = \<lparr>di_type = 0, di_major = 0, di_minor = 0, di_nlink = 0, di_size = 0, di_addrs = replicate (NDIRECT + 1) 0\<rparr>"

primrec ialloc_loop :: "nat list \<Rightarrow> nat \<Rightarrow> u16 \<Rightarrow> fs \<Rightarrow> fault + nat option \<times> fs" where
  "ialloc_loop [] d t s = Inr (None, s)"
| "ialloc_loop (i # is) d t s =
     (let n = IBLOCK i (fsb s) in
      bindE (fbread n s) (\<lambda>s.
      if di_type (get_dinode (dsk s n) (i mod IPB)) = 0 then
        bindE (fupdate n (put_dinode (dsk s n) (i mod IPB) (zero_dinode\<lparr>di_type := t\<rparr>)) s) (\<lambda>s.
        bindE (iget d i s) (\<lambda>(ip, s). Inr (Some ip, s)))
      else bindE (fbrelse n s) (ialloc_loop is d t)))"

definition ialloc :: "nat \<Rightarrow> u16 \<Rightarrow> fs \<Rightarrow> fault + nat option \<times> fs" where
  "ialloc d t s = ialloc_loop [1..<sb_ninodes (fsb s)] d t s"

definition dinode_of_inode :: "inode \<Rightarrow> dinode" where
  "dinode_of_inode v = \<lparr>di_type = ityp v, di_major = imajor v, di_minor = iminor v, di_nlink = nlink v, di_size = isize v, di_addrs = addrs v\<rparr>"

definition iupdate :: "nat \<Rightarrow> fs \<Rightarrow> fault + fs" where
  "iupdate ip s =
     (let v = itable s ip; n = IBLOCK (inum v) (fsb s) in
      bindE (fbread n s) (\<lambda>s. fupdate n (put_dinode (dsk s n) (inum v mod IPB) (dinode_of_inode v)) s))"

definition idup :: "nat \<Rightarrow> fs \<Rightarrow> fs" where
  "idup ip s = upd_inode ip (\<lambda>v. v\<lparr>ref := ref v + 1\<rparr>) s"

definition load_dinode :: "dinode \<Rightarrow> inode \<Rightarrow> inode" where
  "load_dinode d v = v\<lparr>ityp := di_type d, imajor := di_major d, iminor := di_minor d, nlink := di_nlink d, isize := di_size d,
     addrs := di_addrs d, ivalid := True\<rparr>"

definition ilock :: "nat \<Rightarrow> nat \<Rightarrow> fs \<Rightarrow> fault + fs" where
  "ilock p ip s =
     (if ref (itable s ip) < 1 then Inl (Panic ''ilock'')
      else if ilk (itable s ip) \<noteq> None then Inl (Sleeps ''inode'')
      else let s = upd_inode ip (\<lambda>v. v\<lparr>ilk := Some p\<rparr>) s in
        if \<not> ivalid (itable s ip) then
          let n = IBLOCK (inum (itable s ip)) (fsb s) in
          bindE (fbread n s) (\<lambda>s.
          bindE (fbrelse n (upd_inode ip (load_dinode (get_dinode (dsk s n) (inum (itable s ip) mod IPB))) s)) (\<lambda>s.
          if ityp (itable s ip) = 0 then Inl (Panic ''ilock: no type'') else Inr s))
        else Inr s)"

definition iunlock :: "nat \<Rightarrow> nat \<Rightarrow> fs \<Rightarrow> fault + fs" where
  "iunlock p ip s =
     (if ilk (itable s ip) \<noteq> Some p \<or> ref (itable s ip) < 1 then Inl (Panic ''iunlock'')
      else Inr (upd_inode ip (\<lambda>v. v\<lparr>ilk := None\<rparr>) s))"

section \<open>Inode content\<close>

definition bmap :: "nat \<Rightarrow> nat \<Rightarrow> fs \<Rightarrow> fault + nat \<times> fs" where
  "bmap ip bn s =
     (if bn < NDIRECT then
        let a = addrs (itable s ip) ! bn in
        if a = 0 then
          bindE (balloc s) (\<lambda>(a, s).
          if a = 0 then Inr (0, s) else Inr (a, upd_inode ip (\<lambda>v. v\<lparr>addrs := (addrs v)[bn := a]\<rparr>) s))
        else Inr (a, s)
      else let bn = bn - NDIRECT in
        if bn < NINDIRECT then
          bindE (let a = addrs (itable s ip) ! NDIRECT in
                 if a = 0 then
                   bindE (balloc s) (\<lambda>(a, s).
                   if a = 0 then Inr (0, s) else Inr (a, upd_inode ip (\<lambda>v. v\<lparr>addrs := (addrs v)[NDIRECT := a]\<rparr>) s))
                 else Inr (a, s)) (\<lambda>(ind, s).
          if ind = 0 then Inr (0, s)
          else
            bindE (fbread ind s) (\<lambda>s.
            bindE (if word_at32 (dsk s ind) bn = 0 then
                     bindE (balloc s) (\<lambda>(a, s).
                     if a \<noteq> 0 then bindE (flog_write ind (fput ind (put32 (dsk s ind) bn a) s)) (\<lambda>s. Inr (a, s))
                     else Inr (0, s))
                   else Inr (word_at32 (dsk s ind) bn, s)) (\<lambda>(a, s).
            bindE (fbrelse ind s) (\<lambda>s. Inr (a, s)))))
        else Inl (Panic ''bmap: out of range''))"

definition itrunc :: "nat \<Rightarrow> fs \<Rightarrow> fault + fs" where
  "itrunc ip s =
     bindE (forE [0..<NDIRECT] (\<lambda>i s.
       let a = addrs (itable s ip) ! i in
       if a \<noteq> 0 then bindE (bfree a s) (\<lambda>s. Inr (upd_inode ip (\<lambda>v. v\<lparr>addrs := (addrs v)[i := 0]\<rparr>) s)) else Inr s) s) (\<lambda>s.
     bindE (let ind = addrs (itable s ip) ! NDIRECT in
       if ind \<noteq> 0 then
         bindE (fbread ind s) (\<lambda>s.
         bindE (forE [0..<NINDIRECT] (\<lambda>j s.
           let a = word_at32 (dsk s ind) j in if a \<noteq> 0 then bfree a s else Inr s) s) (\<lambda>s.
         bindE (fbrelse ind s) (\<lambda>s.
         bindE (bfree ind s) (\<lambda>s. Inr (upd_inode ip (\<lambda>v. v\<lparr>addrs := (addrs v)[NDIRECT := 0]\<rparr>) s)))))
       else Inr s) (\<lambda>s.
     iupdate ip (upd_inode ip (\<lambda>v. v\<lparr>isize := 0\<rparr>) s)))"

definition iput :: "nat \<Rightarrow> nat \<Rightarrow> fs \<Rightarrow> fault + fs" where
  "iput p ip s =
     bindE (if ref (itable s ip) = 1 \<and> ivalid (itable s ip) \<and> nlink (itable s ip) = 0 then
              if ilk (itable s ip) \<noteq> None then Inl (Sleeps ''inode'')
              else
                bindE (itrunc ip (upd_inode ip (\<lambda>v. v\<lparr>ilk := Some p\<rparr>) s)) (\<lambda>s.
                bindE (iupdate ip (upd_inode ip (\<lambda>v. v\<lparr>ityp := 0\<rparr>) s)) (\<lambda>s.
                Inr (upd_inode ip (\<lambda>v. v\<lparr>ivalid := False, ilk := None\<rparr>) s)))
            else Inr s) (\<lambda>s.
     Inr (upd_inode ip (\<lambda>v. v\<lparr>ref := ref v - 1\<rparr>) s))"

definition iunlockput :: "nat \<Rightarrow> nat \<Rightarrow> fs \<Rightarrow> fault + fs" where
  "iunlockput p ip s = bindE (iunlock p ip s) (iput p ip)"

definition stati :: "nat \<Rightarrow> fs \<Rightarrow> stat" where
  "stati ip s = (let v = itable s ip in
     \<lparr>st_dev = idev v, st_ino = inum v, st_type = ityp v, st_nlink = nlink v, st_size = unat (isize v)\<rparr>)"

text \<open>
  \<open>readi\<close> and \<open>writei\<close> move data with \<^verbatim>\<open>either_copyout\<close> and \<^verbatim>\<open>either_copyin\<close>, whose models are arguments (\<open>co\<close> stores bytes at an address of
  the memory \<open>m\<close> and says whether that worked; \<open>ci\<close> reads bytes; on failure it may have delivered a part). The offsets are 32-bit words
  until the overflow checks have passed; from there on they are natural numbers that cannot wrap.
\<close>

type_synonym 'm copyfn = "nat \<Rightarrow> byte list \<Rightarrow> 'm \<Rightarrow> bool \<times> 'm"

type_synonym 'm fetchfn = "nat \<Rightarrow> nat \<Rightarrow> 'm \<Rightarrow> bool \<times> byte list"

definition chunk :: "nat \<Rightarrow> nat \<Rightarrow> nat" where
  "chunk left off = min left (BSIZE - off mod BSIZE)"

lemma chunk_pos: "0 < left \<Longrightarrow> 0 < chunk left off"
  by (simp add: chunk_def BSIZE_def)

function readi_loop :: "'m copyfn \<Rightarrow> nat \<Rightarrow> nat \<Rightarrow> nat \<Rightarrow> nat \<Rightarrow> nat \<Rightarrow> 'm \<Rightarrow> fs \<Rightarrow> fault + int \<times> 'm \<times> fs" where
  "readi_loop co ip dst off left tot m s =
     (if left = 0 then Inr (int tot, m, s)
      else
        bindE (bmap ip (off div BSIZE) s) (\<lambda>(a, s).
        if a = 0 then Inr (int tot, m, s)
        else
          bindE (fbread a s) (\<lambda>s.
          let k = chunk left off in
          (case co dst (take k (drop (off mod BSIZE) (dsk s a))) m of (ok, m) \<Rightarrow>
            if \<not> ok then bindE (fbrelse a s) (\<lambda>s. Inr (-1, m, s))
            else bindE (fbrelse a s) (\<lambda>s. readi_loop co ip (dst + k) (off + k) (left - k) (tot + k) m s)))))"
  by pat_completeness auto
termination
  by (relation "measure (\<lambda>(co, ip, dst, off, left, tot, m, s). left)") (auto simp: chunk_pos)

declare readi_loop.simps [simp del]

definition readi :: "'m copyfn \<Rightarrow> nat \<Rightarrow> nat \<Rightarrow> u32 \<Rightarrow> u32 \<Rightarrow> 'm \<Rightarrow> fs \<Rightarrow> fault + int \<times> 'm \<times> fs" where
  "readi co ip dst off n m s =
     (let sz = isize (itable s ip) in
      if off > sz \<or> off + n < off then Inr (0, m, s)
      else let n = (if off + n > sz then sz - off else n) in
        readi_loop co ip dst (unat off) (unat n) 0 m s)"

definition splice :: "block \<Rightarrow> nat \<Rightarrow> byte list \<Rightarrow> block" where
  "splice data at bs = take at data @ bs @ drop (at + length bs) data"

function writei_loop :: "'m fetchfn \<Rightarrow> nat \<Rightarrow> nat \<Rightarrow> nat \<Rightarrow> nat \<Rightarrow> nat \<Rightarrow> 'm \<Rightarrow> fs \<Rightarrow> fault + (nat \<times> nat) \<times> fs" where
  "writei_loop ci ip src off left tot m s =
     (if left = 0 then Inr ((tot, off), s)
      else
        bindE (bmap ip (off div BSIZE) s) (\<lambda>(a, s).
        if a = 0 then Inr ((tot, off), s)
        else
          bindE (fbread a s) (\<lambda>s.
          let k = chunk left off in
          (case ci src k m of (ok, bs) \<Rightarrow>
            let s = fput a (splice (dsk s a) (off mod BSIZE) bs) s in
            if \<not> ok then bindE (fbrelse a s) (\<lambda>s. Inr ((tot, off), s))
            else
              bindE (flog_write a s) (\<lambda>s.
              bindE (fbrelse a s) (\<lambda>s. writei_loop ci ip (src + k) (off + k) (left - k) (tot + k) m s))))))"
  by pat_completeness auto
termination
  by (relation "measure (\<lambda>(ci, ip, src, off, left, tot, m, s). left)") (auto simp: chunk_pos)

declare writei_loop.simps [simp del]

definition writei :: "'m fetchfn \<Rightarrow> nat \<Rightarrow> nat \<Rightarrow> u32 \<Rightarrow> u32 \<Rightarrow> 'm \<Rightarrow> fs \<Rightarrow> fault + int \<times> fs" where
  "writei ci ip src off n m s =
     (if off > isize (itable s ip) \<or> off + n < off then Inr (-1, s)
      else if unat (off + n) > MAXFILE * BSIZE then Inr (-1, s)
      else
        bindE (writei_loop ci ip src (unat off) (unat n) 0 m s) (\<lambda>((tot, off'), s).
        let s = (if off' > unat (isize (itable s ip)) then upd_inode ip (\<lambda>v. v\<lparr>isize := word_of_nat off'\<rparr>) s else s) in
        bindE (iupdate ip s) (\<lambda>s. Inr (int tot, s))))"

section \<open>Directories and paths\<close>

text \<open>The copy functions for a kernel buffer that is filled from its start, as the local variable \<^verbatim>\<open>de\<close>.\<close>

definition kout :: "byte list copyfn" where
  "kout dst bs m = (True, m @ bs)"

definition kin :: "byte list fetchfn" where
  "kin src n m = (True, take n (drop src m))"

primrec strncmp_bytes :: "nat \<Rightarrow> byte list \<Rightarrow> byte list \<Rightarrow> int" where
  "strncmp_bytes 0 p q = 0"
| "strncmp_bytes (Suc n) p q =
     (let a = (case p of [] \<Rightarrow> 0 | x # _ \<Rightarrow> x); b = (case q of [] \<Rightarrow> 0 | y # _ \<Rightarrow> y) in
      if a \<noteq> 0 \<and> a = b then strncmp_bytes n (tl p) (tl q) else int (unat a) - int (unat b))"

definition namecmp :: "byte list \<Rightarrow> byte list \<Rightarrow> int" where
  "namecmp s t = strncmp_bytes DIRSIZ s t"

definition de_inum :: "byte list \<Rightarrow> nat" where
  "de_inum de = le_nat (take 2 de)"

definition de_name :: "byte list \<Rightarrow> byte list" where
  "de_name de = take DIRSIZ (drop 2 de)"

definition DE_SIZE :: nat where "DE_SIZE = 16"

primrec dirlookup_loop :: "nat list \<Rightarrow> nat \<Rightarrow> byte list \<Rightarrow> fs \<Rightarrow> fault + (nat \<times> nat) option \<times> fs" where
  "dirlookup_loop [] dp name s = Inr (None, s)"
| "dirlookup_loop (off # offs) dp name s =
     bindE (readi kout dp 0 (word_of_nat off) (word_of_nat DE_SIZE) [] s) (\<lambda>(r, de, s).
     if r \<noteq> int DE_SIZE then Inl (Panic ''dirlookup read'')
     else if de_inum de = 0 then dirlookup_loop offs dp name s
     else if namecmp name (de_name de) = 0 then
       bindE (iget (idev (itable s dp)) (de_inum de) s) (\<lambda>(ip, s). Inr (Some (ip, off), s))
     else dirlookup_loop offs dp name s)"

definition dir_offsets :: "nat \<Rightarrow> nat list" where
  "dir_offsets sz = map (\<lambda>i. i * DE_SIZE) [0..<(sz + DE_SIZE - 1) div DE_SIZE]"

definition dirlookup :: "nat \<Rightarrow> byte list \<Rightarrow> fs \<Rightarrow> fault + (nat \<times> nat) option \<times> fs" where
  "dirlookup dp name s =
     (if ityp (itable s dp) \<noteq> T_DIR then Inl (Panic ''dirlookup not DIR'')
      else dirlookup_loop (dir_offsets (unat (isize (itable s dp)))) dp name s)"

text \<open>The offset at which \<^verbatim>\<open>dirlink\<close> stops: the first unused entry or the end of the directory.\<close>

primrec dirlink_loop :: "nat list \<Rightarrow> nat \<Rightarrow> nat \<Rightarrow> fs \<Rightarrow> fault + nat \<times> fs" where
  "dirlink_loop [] last_off dp s = Inr (last_off, s)"
| "dirlink_loop (off # offs) last_off dp s =
     bindE (readi kout dp 0 (word_of_nat off) (word_of_nat DE_SIZE) [] s) (\<lambda>(r, de, s).
     if r \<noteq> int DE_SIZE then Inl (Panic ''dirlink read'')
     else if de_inum de = 0 then Inr (off, s)
     else dirlink_loop offs last_off dp s)"

definition strncpy_name :: "byte list \<Rightarrow> byte list" where
  "strncpy_name name = take DIRSIZ (name @ replicate DIRSIZ 0)"

definition dirlink :: "nat \<Rightarrow> nat \<Rightarrow> byte list \<Rightarrow> nat \<Rightarrow> fs \<Rightarrow> fault + int \<times> fs" where
  "dirlink p dp name n s =
     bindE (dirlookup dp name s) (\<lambda>(r, s).
     case r of
       Some (ip, _) \<Rightarrow> bindE (iput p ip s) (\<lambda>s. Inr (-1, s))
     | None \<Rightarrow>
         let offs = dir_offsets (unat (isize (itable s dp))) in
         bindE (dirlink_loop offs (length offs * DE_SIZE) dp s) (\<lambda>(off, s).
         bindE (writei kin dp 0 (word_of_nat off) (word_of_nat DE_SIZE) (bytes_le 2 n @ strncpy_name name) s) (\<lambda>(r, s).
         if r \<noteq> int DE_SIZE then Inr (-1, s) else Inr (0, s))))"

definition slash :: byte where "slash = 47"

definition skipelem :: "byte list \<Rightarrow> (byte list \<times> byte list) option" where
  "skipelem path =
     (let path = dropWhile (\<lambda>c. c = slash) path in
      if path = [] then None
      else let name = takeWhile (\<lambda>c. c \<noteq> slash) path;
               rest = dropWhile (\<lambda>c. c \<noteq> slash) path
           in Some (take DIRSIZ name, dropWhile (\<lambda>c. c = slash) rest))"

lemma skipelem_shorter: "skipelem path = Some (name, rest) \<Longrightarrow> length rest < length path"
proof -
  assume a: "skipelem path = Some (name, rest)"
  let ?p = "dropWhile (\<lambda>c. c = slash) path"
  have ne: "?p \<noteq> []" and r: "rest = dropWhile (\<lambda>c. c = slash) (dropWhile (\<lambda>c. c \<noteq> slash) ?p)"
    using a by (auto simp: skipelem_def Let_def split: if_splits)
  have "hd ?p \<noteq> slash" by (rule hd_dropWhile [OF ne])
  then have "dropWhile (\<lambda>c. c \<noteq> slash) ?p = dropWhile (\<lambda>c. c \<noteq> slash) (tl ?p)" using ne by (cases ?p) auto
  then have "rest = dropWhile (\<lambda>c. c = slash) (dropWhile (\<lambda>c. c \<noteq> slash) (tl ?p))" using r by (simp only:)
  then have "length rest \<le> length (tl ?p)"
    by (simp only:) (rule order_trans [OF length_dropWhile_le length_dropWhile_le])
  moreover have "length (tl ?p) < length ?p" using ne by simp
  ultimately show ?thesis using length_dropWhile_le [of "\<lambda>c. c = slash" path] by linarith
qed

function namex_loop :: "nat \<Rightarrow> byte list \<Rightarrow> bool \<Rightarrow> byte list \<Rightarrow> nat \<Rightarrow> fs \<Rightarrow> fault + (nat \<times> byte list) option \<times> fs" where
  "namex_loop p path nameiparent name ip s =
     (case skipelem path of
        None \<Rightarrow> if nameiparent then bindE (iput p ip s) (\<lambda>s. Inr (None, s)) else Inr (Some (ip, name), s)
      | Some (name, path) \<Rightarrow>
          bindE (ilock p ip s) (\<lambda>s.
          if ityp (itable s ip) \<noteq> T_DIR then bindE (iunlockput p ip s) (\<lambda>s. Inr (None, s))
          else if nameiparent \<and> path = [] then bindE (iunlock p ip s) (\<lambda>s. Inr (Some (ip, name), s))
          else
            bindE (dirlookup ip name s) (\<lambda>(r, s).
            case r of
              None \<Rightarrow> bindE (iunlockput p ip s) (\<lambda>s. Inr (None, s))
            | Some (next, _) \<Rightarrow> bindE (iunlockput p ip s) (\<lambda>s. namex_loop p path nameiparent name next s))))"
  by pat_completeness auto
termination
  by (relation "measure (\<lambda>(p, path, _). length path)") (auto simp: skipelem_shorter)

declare namex_loop.simps [simp del]

definition namex :: "nat \<Rightarrow> nat \<Rightarrow> byte list \<Rightarrow> bool \<Rightarrow> fs \<Rightarrow> fault + (nat \<times> byte list) option \<times> fs" where
  "namex p cwd path nameiparent s =
     bindE (if path \<noteq> [] \<and> hd path = slash then iget ROOTDEV ROOTINO s else Inr (cwd, idup cwd s)) (\<lambda>(ip, s).
     namex_loop p path nameiparent [] ip s)"

definition namei :: "nat \<Rightarrow> nat \<Rightarrow> byte list \<Rightarrow> fs \<Rightarrow> fault + nat option \<times> fs" where
  "namei p cwd path s = bindE (namex p cwd path False s) (\<lambda>(r, s). Inr (map_option fst r, s))"

definition nameiparent :: "nat \<Rightarrow> nat \<Rightarrow> byte list \<Rightarrow> fs \<Rightarrow> fault + (nat \<times> byte list) option \<times> fs" where
  "nameiparent p cwd path s = namex p cwd path True s"

end
