(* ===== verification/Fs_Block.thy ===== *)
theory Fs_Block
  imports Fs
begin

text \<open>
  The block allocator of the file system. The free map on disk is abstracted to the set \<open>used\<close> of block numbers; \<^verbatim>\<open>balloc\<close> takes the
  smallest unused block, zeroes it and adds it to the set, and \<^verbatim>\<open>bfree\<close> removes one.
\<close>

section \<open>Bits of a block\<close>

lemma bit_of_iff: "bit_of data bi \<longleftrightarrow> bit (data ! (bi div 8)) (bi mod 8)"
  by (simp add: bit_of_def bit_iff_and_push_bit_not_eq_0)

lemma bit_push1: "bit ((2 :: byte) ^ k) j \<longleftrightarrow> j = k \<and> k < 8"
  by (auto simp: bit_exp_iff)

lemma div_mod_8: "(i :: nat) div 8 = j div 8 \<Longrightarrow> i mod 8 = j mod 8 \<Longrightarrow> i = j"
  by (metis div_mult_mod_eq)

lemma bit_set_bit_of:
  "i div 8 < length data \<Longrightarrow> bit_of (set_bit_of data i) j \<longleftrightarrow> j = i \<or> bit_of data j"
  by (cases "j div 8 = i div 8") (auto simp: bit_of_iff set_bit_of_def bit_or_iff bit_push1 intro: div_mod_8)

lemma bit_clear_bit_of:
  "i div 8 < length data \<Longrightarrow> bit_of (clear_bit_of data i) j \<longleftrightarrow> j \<noteq> i \<and> bit_of data j"
  by (cases "j div 8 = i div 8") (auto simp: bit_of_iff clear_bit_of_def bit_and_iff bit_not_iff bit_push1 dest: div_mod_8)

lemma length_bits [simp]: "length (set_bit_of data i) = length data" "length (clear_bit_of data i) = length data"
  by (simp_all add: set_bit_of_def clear_bit_of_def)

section \<open>The set of used blocks\<close>

definition used :: "fs \<Rightarrow> nat set" where
  "used s = {b. b < sb_size (fsb s) \<and> bit_of (dsk s (BBLOCK b (fsb s))) (b mod BPB)}"

definition map_block :: "fs \<Rightarrow> nat \<Rightarrow> bool" where
  "map_block s n \<longleftrightarrow> (\<exists>b < sb_size (fsb s). n = BBLOCK b (fsb s))"

definition wf_blocks :: "fs \<Rightarrow> bool" where
  "wf_blocks s \<longleftrightarrow> (\<forall>n. length (dsk s n) = BSIZE)"

text \<open>The blocks of the map are in use themselves, and so is block 0.\<close>

definition map_ok :: "fs \<Rightarrow> bool" where
  "map_ok s \<longleftrightarrow> wf_blocks s \<and> 0 \<in> used s \<and> (\<forall>n. map_block s n \<longrightarrow> n \<in> used s)"

definition log_room :: "nat \<Rightarrow> fs \<Rightarrow> bool" where
  "log_room k s \<longleftrightarrow> length (tx s) + k \<le> LOGSIZE \<and> int (length (tx s)) + int k \<le> int (sb_nlog (fsb s)) - 1"

text \<open>Everything but the contents of blocks and the transaction.\<close>

definition same_fs :: "fs \<Rightarrow> fs \<Rightarrow> bool" where
  "same_fs s s' \<longleftrightarrow> bheld s' = bheld s \<and> fsb s' = fsb s \<and> itable s' = itable s"

lemma BBLOCK_add: "b mod BPB = 0 \<Longrightarrow> bi < BPB \<Longrightarrow> BBLOCK (b + bi) sb = BBLOCK b sb \<and> (b + bi) mod BPB = bi"
proof -
  assume "b mod BPB = 0" "bi < BPB"
  then obtain k where "b = BPB * k" by (auto simp: mod_eq_0_iff_dvd dvd_def)
  with \<open>bi < BPB\<close> show ?thesis by (simp add: BBLOCK_def div_mult_self4)
qed

lemma BPB_pos [simp]: "0 < BPB"
  by (simp add: BPB_def BSIZE_def)

lemma bit_index: "wf_blocks s \<Longrightarrow> bi < BPB \<Longrightarrow> bi div 8 < length (dsk s n)"
  by (simp add: wf_blocks_def BPB_def less_mult_imp_div_less)

lemma fupdate_eq:
  assumes "bheld s = n # hs" "log_room 1 s"
  shows "fupdate n x s = Inr (s\<lparr>dsk := (dsk s)(n := x), bheld := hs, tx := (if n \<in> set (tx s) then tx s else tx s @ [n])\<rparr>)"
  using assms by (auto simp: fupdate_def flog_write_def fput_def fbrelse_def log_room_def)

lemma used_upd_other:
  assumes "\<not> map_block s n" "dsk s' = (dsk s)(n := x)" "fsb s' = fsb s"
  shows "used s' = used s"
  using assms by (auto simp: used_def map_block_def)

lemma BBLOCK_mod: "(\<And>b'. BBLOCK b' sb = BBLOCK b sb \<Longrightarrow> b' mod BPB = b mod BPB \<Longrightarrow> b' = b)"
  by (metis BBLOCK_def add_right_cancel div_mult_mod_eq)

lemma used_set:
  assumes "b < sb_size (fsb s)" "wf_blocks s" "dsk s' (BBLOCK b (fsb s)) = set_bit_of (dsk s (BBLOCK b (fsb s))) (b mod BPB)"
    "\<And>n. map_block s n \<Longrightarrow> n \<noteq> BBLOCK b (fsb s) \<Longrightarrow> dsk s' n = dsk s n" "fsb s' = fsb s"
  shows "used s' = insert b (used s)"
proof -
  have "x \<in> used s' \<longleftrightarrow> x = b \<or> x \<in> used s" for x
  proof (cases "x < sb_size (fsb s)")
    case True
    then have m: "map_block s (BBLOCK x (fsb s))" by (auto simp: map_block_def)
    show ?thesis
    proof (cases "BBLOCK x (fsb s) = BBLOCK b (fsb s)")
      case True
      with assms \<open>x < sb_size (fsb s)\<close> BBLOCK_mod [OF True] bit_index [OF assms(2), of "b mod BPB"]
      show ?thesis by (auto simp: used_def bit_set_bit_of)
    next
      case False
      with assms(4) [OF m False] assms(5) True show ?thesis by (auto simp: used_def)
    qed
  qed (use assms(1,5) in \<open>auto simp: used_def\<close>)
  then show ?thesis by blast
qed

lemma used_clear:
  assumes "b < sb_size (fsb s)" "wf_blocks s" "dsk s' = (dsk s)(BBLOCK b (fsb s) := clear_bit_of (dsk s (BBLOCK b (fsb s))) (b mod BPB))"
    "fsb s' = fsb s"
  shows "used s' = used s - {b}"
proof -
  have "x \<in> used s' \<longleftrightarrow> x \<noteq> b \<and> x \<in> used s" for x
  proof (cases "BBLOCK x (fsb s) = BBLOCK b (fsb s)")
    case True
    with assms BBLOCK_mod [OF True] bit_index [OF assms(2), of "b mod BPB"] show ?thesis by (auto simp: used_def bit_clear_bit_of)
  next
    case False
    with assms show ?thesis by (auto simp: used_def)
  qed
  then show ?thesis by blast
qed

section \<open>Allocating and freeing\<close>

text \<open>The state after the allocation of \<open>b\<close>.\<close>

definition allocated :: "nat \<Rightarrow> fs \<Rightarrow> fs \<Rightarrow> bool" where
  "allocated b s s' \<longleftrightarrow> same_fs s s' \<and> dsk s' b = replicate BSIZE 0 \<and> used s' = insert b (used s) \<and>
     (\<forall>n. n \<noteq> b \<longrightarrow> \<not> map_block s n \<longrightarrow> dsk s' n = dsk s n) \<and> map_ok s' \<and>
     (\<exists>us. tx s' = tx s @ us \<and> length us \<le> 2)"

definition bufs_free :: "fs \<Rightarrow> bool" where
  "bufs_free s \<longleftrightarrow> (\<forall>n\<in>set (bheld s). n \<in> used s \<and> \<not> map_block s n)"

lemma alloc_step:
  assumes ok: "map_ok s" "bufs_free s" "log_room 2 s" and b: "b < sb_size (fsb s)" "b \<notin> used s"
  defines "n \<equiv> BBLOCK b (fsb s)"
  obtains s' where "bindE (fupdate n (set_bit_of (dsk s n) (b mod BPB)) (s\<lparr>bheld := n # bheld s\<rparr>)) (bzero b) = Inr s'" "allocated b s s'"
proof -
  have m: "map_block s n" using b by (auto simp: map_block_def n_def)
  have ne: "b \<noteq> n" and nm: "\<not> map_block s b" using ok(1) m b(2) by (auto simp: map_ok_def)
  let ?t1 = "if n \<in> set (tx s) then tx s else tx s @ [n]"
  let ?s1 = "s\<lparr>dsk := (dsk s)(n := set_bit_of (dsk s n) (b mod BPB)), tx := ?t1\<rparr>"
  have room: "log_room 1 (s\<lparr>bheld := n # bheld s\<rparr>)" using ok(3) by (simp add: log_room_def)
  have 1: "fupdate n (set_bit_of (dsk s n) (b mod BPB)) (s\<lparr>bheld := n # bheld s\<rparr>) = Inr ?s1"
    using fupdate_eq [OF _ room, of n "bheld s"] by (cases s) simp
  have nb: "b \<notin> set (bheld s)" using ok(2) b(2) by (auto simp: bufs_free_def)
  let ?t2 = "if b \<in> set ?t1 then ?t1 else ?t1 @ [b]"
  let ?s2 = "?s1\<lparr>dsk := (dsk ?s1)(b := replicate BSIZE 0), tx := ?t2\<rparr>"
  have room1: "log_room 1 (?s1\<lparr>bheld := b # bheld s\<rparr>)" using ok(3) by (simp add: log_room_def)
  have 2: "bzero b ?s1 = Inr ?s2"
    using fupdate_eq [OF _ room1, of b "bheld s"] nb by (cases s) (simp add: bzero_def fbread_def)
  have wf: "wf_blocks s" using ok(1) by (simp add: map_ok_def)
  have u: "used ?s2 = insert b (used s)" using b wf ne nm by (intro used_set) (auto simp: n_def)
  have "map_block ?s2 = map_block s" by (simp add: map_block_def fun_eq_iff)
  then have "map_ok ?s2" using ok(1) u wf by (auto simp: map_ok_def wf_blocks_def)
  moreover have "\<exists>us. ?t2 = tx s @ us \<and> length us \<le> 2" by auto
  ultimately have "allocated b s ?s2" using u m ne by (auto simp: allocated_def same_fs_def)
  with 1 2 show ?thesis by (intro that [of ?s2]) simp_all
qed

lemma first_clear_Some:
  assumes "first_clear (dsk s (BBLOCK b (fsb s))) b (sb_size (fsb s)) = Some bi" "b mod BPB = 0"
  shows "bi < BPB" "b + bi < sb_size (fsb s)" "b + bi \<notin> used s" "\<And>x. b \<le> x \<Longrightarrow> x < b + bi \<Longrightarrow> x \<in> used s"
proof -
  let ?xs = "[0..<min BPB (sb_size (fsb s) - b)]"
  from assms(1) have bi: "bi < min BPB (sb_size (fsb s) - b)" "\<not> bit_of (dsk s (BBLOCK b (fsb s))) bi"
    and before: "\<forall>j<bi. bit_of (dsk s (BBLOCK b (fsb s))) j"
    unfolding first_clear_def find_Some_iff by auto
  from bi show "bi < BPB" "b + bi < sb_size (fsb s)" by auto
  note B = BBLOCK_add [OF assms(2), of _ "fsb s"]
  show "b + bi \<notin> used s" using bi B [of bi] by (auto simp: used_def)
  fix x
  assume "b \<le> x" "x < b + bi"
  then have "x - b < bi" "x = b + (x - b)" by auto
  with before bi B [of "x - b"] show "x \<in> used s" by (auto simp: used_def)
qed

lemma first_clear_None:
  assumes "first_clear (dsk s (BBLOCK b (fsb s))) b (sb_size (fsb s)) = None" "b mod BPB = 0" "b \<le> x" "x < b + BPB" "x < sb_size (fsb s)"
  shows "x \<in> used s"
proof -
  have "x - b < min BPB (sb_size (fsb s) - b)" "x = b + (x - b)" "x - b < BPB" using assms(3-5) by auto
  moreover from this have "bit_of (dsk s (BBLOCK b (fsb s))) (x - b)"
    using assms(1) by (auto simp: first_clear_def find_None_iff)
  ultimately show ?thesis using BBLOCK_add [OF assms(2), of "x - b" "fsb s"] assms(5) by (auto simp: used_def)
qed

lemma balloc_loop_spec:
  assumes "map_ok s" "bufs_free s" "log_room 2 s" "b mod BPB = 0" "\<And>x. x < b \<Longrightarrow> x < sb_size (fsb s) \<Longrightarrow> x \<in> used s"
  shows "(if {..<sb_size (fsb s)} \<subseteq> used s then balloc_loop b s = Inr (0, s)
     else \<exists>s' a. balloc_loop b s = Inr (a, s') \<and> a < sb_size (fsb s) \<and> a \<notin> used s \<and> (\<forall>x<a. x \<in> used s) \<and> allocated a s s')"
  using assms(4,5)
proof (induction "sb_size (fsb s) - b" arbitrary: b rule: less_induct)
  case less
  show ?case
  proof (cases "b < sb_size (fsb s)")
    case False
    with less.prems have "{..<sb_size (fsb s)} \<subseteq> used s" by auto
    with False show ?thesis by (simp add: balloc_loop.simps)
  next
    case True
    let ?n = "BBLOCK b (fsb s)"
    have nh: "?n \<notin> set (bheld s)" using assms(2) True by (auto simp: bufs_free_def map_block_def)
    show ?thesis
    proof (cases "first_clear (dsk s ?n) b (sb_size (fsb s))")
      case None
      have eq: "balloc_loop b s = balloc_loop (b + BPB) s"
        using True nh None by (subst balloc_loop.simps) (simp add: fbread_def fbrelse_def Let_def)
      have "x \<in> used s" if "x < b + BPB" "x < sb_size (fsb s)" for x
        using less.prems(2) [of x] first_clear_None [OF None less.prems(1), of x] that by (cases "x < b") auto
      moreover have "sb_size (fsb s) - (b + BPB) < sb_size (fsb s) - b" using True BPB_pos by linarith
      ultimately show ?thesis unfolding eq by (intro less.hyps) (use less.prems(1) in auto)
    next
      case (Some bi)
      note F = first_clear_Some [OF Some less.prems(1)]
      have B: "BBLOCK (b + bi) (fsb s) = ?n" "(b + bi) mod BPB = bi" using BBLOCK_add [OF less.prems(1) F(1)] by auto
      obtain s' where s': "bindE (fupdate ?n (set_bit_of (dsk s ?n) bi) (s\<lparr>bheld := ?n # bheld s\<rparr>)) (bzero (b + bi)) = Inr s'" "allocated (b + bi) s s'"
        using alloc_step [OF assms(1-3) F(2,3)] unfolding B by blast
      have "balloc_loop b s = Inr (b + bi, s')"
        using True nh Some s'(1) by (subst balloc_loop.simps) (auto simp: fbread_def Let_def bindE_Inr_iff)
      moreover have "\<forall>x<b + bi. x \<in> used s"
        using less.prems(2) F(2,4) by (meson less_trans not_le)
      ultimately show ?thesis using F(2,3) s'(2) by (auto simp: lessThan_subset_iff)
    qed
  qed
qed

text \<open>An example: eight blocks, the map in block 2, inodes in block 3, and blocks 0 to 3 in use.\<close>

definition small_sb :: superblock where
  "small_sb = \<lparr>sb_magic = FSMAGIC, sb_size = 8, sb_nblocks = 4, sb_ninodes = 16, sb_nlog = 30, sb_logstart = 100, sb_inodestart = 3, sb_bmapstart = 2\<rparr>"

definition small_fs :: fs where
  "small_fs = \<lparr>dsk = (\<lambda>n. if n = 2 then 0x0F # replicate (BSIZE - 1) 0 else replicate BSIZE 0), bheld = [], tx = [], fsb = small_sb,
     itable = \<lambda>_. \<lparr>idev = 0, inum = 0, ref = 0, ilk = None, ivalid = False, ityp = 0, imajor = 0, iminor = 0, nlink = 0, isize = 0, addrs = replicate 13 0\<rparr>\<rparr>"

lemma small_fs_used: "b \<in> used small_fs \<longleftrightarrow> b < 4"
proof (cases "b < 8")
  case True
  then have "b = 0 \<or> b = 1 \<or> b = 2 \<or> b = 3 \<or> b = 4 \<or> b = 5 \<or> b = 6 \<or> b = 7" by auto
  then show ?thesis by (auto simp: used_def small_fs_def small_sb_def BBLOCK_def BPB_def BSIZE_def bit_of_iff)
qed (simp add: used_def small_fs_def small_sb_def)

lemma small_fs_free: "\<not> {..<sb_size (fsb small_fs)} \<subseteq> used small_fs"
proof -
  have "4 \<in> {..<sb_size (fsb small_fs)}" by (simp add: small_fs_def small_sb_def)
  moreover have "4 \<notin> used small_fs" by (simp add: small_fs_used)
  ultimately show ?thesis by blast
qed

lemma small_fs_ok: "map_ok small_fs" "bufs_free small_fs" "log_room k small_fs \<longleftrightarrow> k \<le> 29"
proof -
  have "map_block small_fs n \<longleftrightarrow> n = 2" for n
    by (auto simp: map_block_def small_fs_def small_sb_def BBLOCK_def BPB_def BSIZE_def intro!: exI [of _ 0])
  moreover have "wf_blocks small_fs" by (simp add: wf_blocks_def small_fs_def BSIZE_def)
  ultimately show "map_ok small_fs" by (simp add: map_ok_def small_fs_used)
  show "bufs_free small_fs" by (simp add: bufs_free_def small_fs_def)
  show "log_room k small_fs \<longleftrightarrow> k \<le> 29" by (auto simp: log_room_def small_fs_def small_sb_def LOGSIZE_def MAXOPBLOCKS_def)
qed

text \<open>C24: \<^verbatim>\<open>balloc\<close> returns the smallest block that the free map shows as unused, marks it as used, zeroes it and changes no other block and no other
  bit of the map; when every block is in use it returns 0 and changes nothing.\<close>

theorem balloc_takes_smallest_free_block:
  assumes "map_ok s" and "bufs_free s" and "log_room 2 s"
  shows "(if {..<sb_size (fsb s)} \<subseteq> used s then balloc s = Inr (0, s)
     else \<exists>s' b. balloc s = Inr (b, s') \<and> b < sb_size (fsb s) \<and> b \<notin> used s \<and> (\<forall>x<b. x \<in> used s) \<and> allocated b s s')"
  using balloc_loop_spec [OF assms, of 0] by (simp add: balloc_def)

lemma bfree_spec:
  assumes ok: "map_ok s" "bufs_free s" "log_room 1 s" and b: "b < sb_size (fsb s)"
  shows "bfree b s = (if b \<in> used s then Inr (s\<lparr>dsk := (dsk s)(BBLOCK b (fsb s) := clear_bit_of (dsk s (BBLOCK b (fsb s))) (b mod BPB)),
       tx := (if BBLOCK b (fsb s) \<in> set (tx s) then tx s else tx s @ [BBLOCK b (fsb s)])\<rparr>)
     else Inl (Panic ''freeing free block''))"
proof -
  let ?n = "BBLOCK b (fsb s)"
  have nh: "?n \<notin> set (bheld s)" using ok(2) b by (auto simp: bufs_free_def map_block_def)
  have "log_room 1 (s\<lparr>bheld := ?n # bheld s\<rparr>)" using ok(3) by (simp add: log_room_def)
  from fupdate_eq [OF _ this, of ?n "bheld s"] nh b show ?thesis
    by (cases s) (auto simp: bfree_def fbread_def used_def Let_def)
qed

theorem balloc_takes_smallest_free_block_witness:
  "\<exists>s'. balloc small_fs = Inr (4, s') \<and> allocated 4 small_fs s'"
proof -
  have n: "\<not> {..<sb_size (fsb small_fs)} \<subseteq> used small_fs" by (rule small_fs_free)
  then obtain s' b where b: "balloc small_fs = Inr (b, s')" "b \<notin> used small_fs" "\<forall>x<b. x \<in> used small_fs" "allocated b small_fs s'"
    using balloc_takes_smallest_free_block [OF small_fs_ok(1,2)] small_fs_ok(3) [of 2] by auto
  then have "b = 4" unfolding small_fs_used by (metis less_irrefl linorder_cases)
  with b show ?thesis by blast
qed

text \<open>C25: Freeing is the inverse of allocating: after \<^verbatim>\<open>balloc\<close> has returned a block, \<^verbatim>\<open>bfree\<close> of it succeeds and restores the set of used blocks, and freeing
  it a second time panics.\<close>

theorem bfree_undoes_balloc:
  assumes "map_ok s" and "bufs_free s" and "log_room 4 s" and "balloc s = Inr (b, s')" and "b \<noteq> 0"
  shows "\<exists>s''. bfree b s' = Inr s'' \<and> used s'' = used s \<and> bfree b s'' = Inl (Panic ''freeing free block'')"
proof -
  have r2: "log_room 2 s" using assms(3) by (simp add: log_room_def)
  from balloc_loop_spec [OF assms(1,2) r2, of 0] assms(4,5)
  have b: "b < sb_size (fsb s)" "b \<notin> used s" and al: "allocated b s s'" by (auto simp: balloc_def split: if_splits)
  have s': "map_ok s'" "fsb s' = fsb s" "bheld s' = bheld s" "used s' = insert b (used s)" using al by (auto simp: allocated_def same_fs_def)
  have f: "bufs_free s'" using assms(2) s' by (auto simp: bufs_free_def map_block_def)
  have l: "log_room 2 s'" using al assms(3) by (auto simp: allocated_def same_fs_def log_room_def)
  let ?n = "BBLOCK b (fsb s')"
  let ?s = "s'\<lparr>dsk := (dsk s')(?n := clear_bit_of (dsk s' ?n) (b mod BPB)), tx := (if ?n \<in> set (tx s') then tx s' else tx s' @ [?n])\<rparr>"
  have 1: "bfree b s' = Inr ?s" using bfree_spec [OF s'(1) f, of b] l b(1) s' by (simp add: log_room_def)
  have u: "used ?s = used s" using used_clear [of b s' ?s] s' b by (auto simp: map_ok_def)
  have "b < sb_size (fsb ?s)" "b \<notin> used ?s" using b s'(2) u by auto
  moreover have "?n \<notin> set (bheld ?s)" using f b(1) s'(2) by (auto simp: bufs_free_def map_block_def)
  ultimately have "bfree b ?s = Inl (Panic ''freeing free block'')" by (auto simp: bfree_def fbread_def used_def Let_def)
  with 1 u show ?thesis by blast
qed

theorem bfree_undoes_balloc_witness:
  "\<exists>s' s''. balloc small_fs = Inr (4, s') \<and> bfree 4 s' = Inr s'' \<and> used s'' = used small_fs"
proof -
  have n: "\<not> {..<sb_size (fsb small_fs)} \<subseteq> used small_fs" by (rule small_fs_free)
  then obtain s' b where b: "balloc small_fs = Inr (b, s')" "b \<notin> used small_fs" "\<forall>x<b. x \<in> used small_fs"
    using balloc_loop_spec [OF small_fs_ok(1,2), of 0] small_fs_ok(3) [of 2] by (auto simp: balloc_def)
  then have "b = 4" unfolding small_fs_used by (metis less_irrefl linorder_cases)
  with b bfree_undoes_balloc [OF small_fs_ok(1,2) _ b(1)] small_fs_ok(3) [of 4] show ?thesis by auto
qed

end
