(* ===== verification/Kern.thy ===== *)
theory Kern
  imports Vm Fs
begin

text \<open>
  The state of the running kernel above the file system and the virtual memory: the process table and the CPUs
  (\<^verbatim>\<open>kernel/proc.h\<close>), the file table (\<^verbatim>\<open>kernel/file.h\<close>), pipes, console, UART and clock. One record \<open>kern\<close> holds
  all of it, so that a system call is a function on \<open>kern\<close>.

  Pointers into the static tables are their indices (a process is a number below \<^verbatim>\<open>NPROC\<close>, an open file a number below
  \<^verbatim>\<open>NFILE\<close>, an inode its slot in the inode table); a null pointer is \<open>None\<close>. A pipe is named by the address of the page it lives in,
  and its contents are kept by that address in \<open>k_pipe\<close>. Page tables and trap frames are addresses in \<open>ram\<close>. A wait channel is the address
  of some kernel object; \<open>chan\<close> has one constructor for each object the kernel sleeps on, so that different objects are different channels.

  Code that runs under a spin lock is one step. What the scheduler needs to know of the locks is kept: the nesting depth \<^verbatim>\<open>noff\<close> and interrupt
  state of each CPU, and for each \<^verbatim>\<open>p->lock\<close> the CPU that holds it.
\<close>

definition NPROC :: nat where "NPROC = 64"
definition NCPU :: nat where "NCPU = 8"
definition NOFILE :: nat where "NOFILE = 16"
definition NFILE :: nat where "NFILE = 100"
definition NDEV :: nat where "NDEV = 10"
definition MAXARG :: nat where "MAXARG = 32"
definition MAXPATH :: nat where "MAXPATH = 128"
definition CONSOLE :: nat where "CONSOLE = 1"
definition PIPESIZE :: nat where "PIPESIZE = 512"
definition INPUT_BUF_SIZE :: nat where "INPUT_BUF_SIZE = 128"
definition UART_TX_BUF_SIZE :: nat where "UART_TX_BUF_SIZE = 32"

lemmas param_defs = NPROC_def NCPU_def NOFILE_def NFILE_def NDEV_def MAXARG_def MAXPATH_def

datatype procstate = UNUSED | USED | SLEEPING | RUNNABLE | RUNNING | ZOMBIE

datatype chan = Chan_proc nat | Chan_nread nat | Chan_nwrite nat | Chan_ticks | Chan_cons | Chan_uart | Chan_sleeplock nat

record kcontext =
  ctx_ra :: u64
  ctx_sp :: u64
  ctx_s :: "u64 list"

record cpu =
  c_proc :: "nat option"
  c_noff :: int
  c_intena :: bool
  c_intr :: bool

record proc =
  p_lock :: "nat option"
  p_state :: procstate
  p_chan :: "chan option"
  p_killed :: bool
  p_xstate :: u32
  p_pid :: u32
  p_parent :: "nat option"
  p_kstack :: u64
  p_sz :: u64
  p_pagetable :: nat
  p_trapframe :: nat
  p_context :: kcontext
  p_intena :: bool
  p_ofile :: "nat option list"
  p_cwd :: "nat option"
  p_name :: "byte list"

datatype ftype = FD_NONE | FD_PIPE | FD_INODE | FD_DEVICE

record kfile =
  f_type :: ftype
  f_ref :: int
  f_readable :: bool
  f_writable :: bool
  f_pipe :: nat
  f_ip :: nat
  f_off :: u32
  f_major :: u16

record pipe =
  pi_data :: "byte list"
  nread :: u32
  nwrite :: u32
  readopen :: bool
  writeopen :: bool

record console =
  cons_buf :: "byte list"
  cons_r :: u32
  cons_w :: u32
  cons_e :: u32

record uart =
  uart_tx_buf :: "byte list"
  uart_tx_w :: u64
  uart_tx_r :: u64
  uart_out :: "byte list"
  uart_polls :: nat

record sleeplock =
  sl_locked :: bool
  sl_pid :: u32

record kern =
  k_mem :: kmem
  k_proc :: "nat \<Rightarrow> proc"
  k_cpu :: "nat \<Rightarrow> cpu"
  k_initproc :: "nat option"
  k_nextpid :: u32
  k_file :: "nat \<Rightarrow> kfile"
  k_pipe :: "nat \<Rightarrow> pipe"
  k_sleeplock :: "nat \<Rightarrow> sleeplock"
  k_cons :: console
  k_uart :: uart
  k_devsw :: "nat list"
  k_fs :: fs
  k_outstanding :: nat
  k_ticks :: u32

text \<open>
  What a blocking call has done when control leaves it: it returned, or it is asleep with a loop counter saying how far it got.
\<close>

datatype progress = Returned int | Asleep nat

section \<open>Field updates\<close>

definition upd_proc :: "nat \<Rightarrow> (proc \<Rightarrow> proc) \<Rightarrow> kern \<Rightarrow> kern" where
  "upd_proc p f k = k\<lparr>k_proc := (k_proc k)(p := f (k_proc k p))\<rparr>"

definition upd_cpu :: "nat \<Rightarrow> (cpu \<Rightarrow> cpu) \<Rightarrow> kern \<Rightarrow> kern" where
  "upd_cpu i f k = k\<lparr>k_cpu := (k_cpu k)(i := f (k_cpu k i))\<rparr>"

definition upd_file :: "nat \<Rightarrow> (kfile \<Rightarrow> kfile) \<Rightarrow> kern \<Rightarrow> kern" where
  "upd_file f g k = k\<lparr>k_file := (k_file k)(f := g (k_file k f))\<rparr>"

definition upd_pipe :: "nat \<Rightarrow> (pipe \<Rightarrow> pipe) \<Rightarrow> kern \<Rightarrow> kern" where
  "upd_pipe a g k = k\<lparr>k_pipe := (k_pipe k)(a := g (k_pipe k a))\<rparr>"

lemmas upd_defs = upd_proc_def upd_cpu_def upd_file_def upd_pipe_def

lemma k_proc_upd_proc [simp]: "k_proc (upd_proc p f k) = (k_proc k)(p := f (k_proc k p))"
  and k_cpu_upd_proc [simp]: "k_cpu (upd_proc p f k) = k_cpu k"
  and k_pipe_upd_proc [simp]: "k_pipe (upd_proc p f k) = k_pipe k"
  and k_mem_upd_proc [simp]: "k_mem (upd_proc p f k) = k_mem k"
  and k_sleeplock_upd_proc [simp]: "k_sleeplock (upd_proc p f k) = k_sleeplock k"
  by (simp_all add: upd_proc_def)

lemma k_cpu_upd_cpu [simp]: "k_cpu (upd_cpu i f k) = (k_cpu k)(i := f (k_cpu k i))"
  and k_proc_upd_cpu [simp]: "k_proc (upd_cpu i f k) = k_proc k"
  and k_pipe_upd_cpu [simp]: "k_pipe (upd_cpu i f k) = k_pipe k"
  and k_mem_upd_cpu [simp]: "k_mem (upd_cpu i f k) = k_mem k"
  and k_sleeplock_upd_cpu [simp]: "k_sleeplock (upd_cpu i f k) = k_sleeplock k"
  by (simp_all add: upd_cpu_def)

lemma k_pipe_upd_pipe [simp]: "k_pipe (upd_pipe a g k) = (k_pipe k)(a := g (k_pipe k a))"
  and k_proc_upd_pipe [simp]: "k_proc (upd_pipe a g k) = k_proc k"
  and k_cpu_upd_pipe [simp]: "k_cpu (upd_pipe a g k) = k_cpu k"
  and k_mem_upd_pipe [simp]: "k_mem (upd_pipe a g k) = k_mem k"
  by (simp_all add: upd_pipe_def)

section \<open>Trap frames\<close>

text \<open>Offsets of the fields of \<^verbatim>\<open>struct trapframe\<close>.\<close>

definition tf_kernel_satp :: nat where "tf_kernel_satp = 0"
definition tf_kernel_sp :: nat where "tf_kernel_sp = 8"
definition tf_kernel_trap :: nat where "tf_kernel_trap = 16"
definition tf_epc :: nat where "tf_epc = 24"
definition tf_kernel_hartid :: nat where "tf_kernel_hartid = 32"
definition tf_sp :: nat where "tf_sp = 48"
definition tf_a :: "nat \<Rightarrow> nat" where "tf_a n = 112 + 8 * n"
definition tf_size :: nat where "tf_size = 288"

definition tf_get :: "nat \<Rightarrow> nat \<Rightarrow> kern \<Rightarrow> u64" where
  "tf_get p off k = load64 (ram (k_mem k)) (p_trapframe (k_proc k p) + off)"

definition tf_put :: "nat \<Rightarrow> nat \<Rightarrow> u64 \<Rightarrow> kern \<Rightarrow> kern" where
  "tf_put p off v k = k\<lparr>k_mem := (k_mem k)\<lparr>ram := store64 (ram (k_mem k)) (p_trapframe (k_proc k p) + off) v\<rparr>\<rparr>"

section \<open>Static data\<close>

text \<open>The values of the kernel's variables before any initialisation: zero, and \<^verbatim>\<open>nextpid\<close> one.\<close>

definition zero_proc :: proc where
  "zero_proc = \<lparr>p_lock = None, p_state = UNUSED, p_chan = None, p_killed = False, p_xstate = 0, p_pid = 0, p_parent = None,
     p_kstack = 0, p_sz = 0, p_pagetable = 0, p_trapframe = 0, p_context = \<lparr>ctx_ra = 0, ctx_sp = 0, ctx_s = replicate 12 0\<rparr>,
     p_intena = False, p_ofile = replicate NOFILE None, p_cwd = None, p_name = replicate 16 0\<rparr>"

definition zero_file :: kfile where
  "zero_file = \<lparr>f_type = FD_NONE, f_ref = 0, f_readable = False, f_writable = False, f_pipe = 0, f_ip = 0, f_off = 0, f_major = 0\<rparr>"

definition zero_pipe :: pipe where
  "zero_pipe = \<lparr>pi_data = replicate PIPESIZE 0, nread = 0, nwrite = 0, readopen = False, writeopen = False\<rparr>"

definition static_kern :: "kmem \<Rightarrow> fs \<Rightarrow> kern" where
  "static_kern m s = \<lparr>k_mem = m, k_proc = (\<lambda>_. zero_proc),
     k_cpu = (\<lambda>_. \<lparr>c_proc = None, c_noff = 0, c_intena = False, c_intr = False\<rparr>), k_initproc = None, k_nextpid = 1,
     k_file = (\<lambda>_. zero_file), k_pipe = (\<lambda>_. zero_pipe), k_sleeplock = (\<lambda>_. \<lparr>sl_locked = False, sl_pid = 0\<rparr>),
     k_cons = \<lparr>cons_buf = replicate INPUT_BUF_SIZE 0, cons_r = 0, cons_w = 0, cons_e = 0\<rparr>,
     k_uart = \<lparr>uart_tx_buf = replicate UART_TX_BUF_SIZE 0, uart_tx_w = 0, uart_tx_r = 0, uart_out = [], uart_polls = 0\<rparr>,
     k_devsw = [], k_fs = s, k_outstanding = 0, k_ticks = 0\<rparr>"

definition blank_kern :: kern where
  "blank_kern = static_kern \<lparr>freelist = 0, ram = (\<lambda>_. 0)\<rparr>
     \<lparr>dsk = (\<lambda>_. replicate BSIZE 0), bheld = [], tx = [],
      fsb = \<lparr>sb_magic = 0, sb_size = 0, sb_nblocks = 0, sb_ninodes = 0, sb_nlog = 0, sb_logstart = 0, sb_inodestart = 0, sb_bmapstart = 0\<rparr>,
      itable = (\<lambda>_. \<lparr>idev = 0, inum = 0, ref = 0, ilk = None, ivalid = False, ityp = 0, imajor = 0, iminor = 0, nlink = 0, isize = 0,
        addrs = replicate (NDIRECT + 1) 0\<rparr>)\<rparr>"

lemma blank_kern_fields [simp]:
  "k_proc blank_kern = (\<lambda>_. zero_proc)"
  "k_cpu blank_kern = (\<lambda>_. \<lparr>c_proc = None, c_noff = 0, c_intena = False, c_intr = False\<rparr>)"
  "k_sleeplock blank_kern = (\<lambda>_. \<lparr>sl_locked = False, sl_pid = 0\<rparr>)"
  "k_pipe blank_kern = (\<lambda>_. zero_pipe)" "k_file blank_kern = (\<lambda>_. zero_file)"
  "k_mem blank_kern = \<lparr>freelist = 0, ram = (\<lambda>_. 0)\<rparr>"
  by (simp_all add: blank_kern_def static_kern_def)

end
