(* ===== verification/Sched.thy ===== *)
theory Sched
  imports Kern
begin

text \<open>
  Multiplexing the processes on the CPUs: \<^verbatim>\<open>sched\<close>, \<^verbatim>\<open>scheduler\<close>, \<^verbatim>\<open>yield\<close>, \<^verbatim>\<open>sleep\<close>, \<^verbatim>\<open>wakeup\<close> and \<^verbatim>\<open>kill\<close> of \<^verbatim>\<open>kernel/proc.c\<close>. The first
  argument \<open>i\<close> of an operation is the CPU it runs on, and \<open>myproc i\<close> the process there.

  \<^verbatim>\<open>swtch\<close> leaves one kernel thread in the middle of a function and resumes another one. A function that calls \<^verbatim>\<open>sched\<close> is therefore two definitions: what it does
  up to the switch, which ends with the scheduler's part after the switch (\<open>scheduler_return\<close>), and what is left when the scheduler resumes the process
  (\<open>sched_return\<close>, \<open>yield_return\<close>, \<open>sleep_return\<close>). \<open>dispatch\<close> is one pass of the scheduler loop up to a process that it resumes. The local variable
  \<^verbatim>\<open>intena\<close> of \<^verbatim>\<open>sched\<close> lives on the kernel stack of the process, here in \<open>p_intena\<close>.
\<close>

section \<open>Interrupt nesting and the process locks\<close>

definition kpush_off :: "nat \<Rightarrow> kern \<Rightarrow> kern" where
  "kpush_off i k = upd_cpu i (\<lambda>c.
     let old = c_intr c;
         c = c\<lparr>c_intr := False\<rparr>;
         c = (if c_noff c = 0 then c\<lparr>c_intena := old\<rparr> else c)
     in c\<lparr>c_noff := c_noff c + 1\<rparr>) k"

definition kpop_off :: "nat \<Rightarrow> kern \<Rightarrow> fault + kern" where
  "kpop_off i k =
     (let c = k_cpu k i in
      if c_intr c then Inl (Panic ''pop_off - interruptible'')
      else if c_noff c < 1 then Inl (Panic ''pop_off'')
      else let c = c\<lparr>c_noff := c_noff c - 1\<rparr>;
               c = (if c_noff c = 0 \<and> c_intena c then c\<lparr>c_intr := True\<rparr> else c)
           in Inr (upd_cpu i (\<lambda>_. c) k))"

definition holding_p :: "nat \<Rightarrow> nat \<Rightarrow> kern \<Rightarrow> bool" where
  "holding_p i p k \<longleftrightarrow> p_lock (k_proc k p) = Some i"

definition acquire_p :: "nat \<Rightarrow> nat \<Rightarrow> kern \<Rightarrow> fault + kern" where
  "acquire_p i p k =
     (let k = kpush_off i k in
      if holding_p i p k then Inl (Panic ''acquire'')
      else if p_lock (k_proc k p) \<noteq> None then Inl (Sleeps ''acquire'')
      else Inr (upd_proc p (\<lambda>v. v\<lparr>p_lock := Some i\<rparr>) k))"

definition release_p :: "nat \<Rightarrow> nat \<Rightarrow> kern \<Rightarrow> fault + kern" where
  "release_p i p k =
     (if \<not> holding_p i p k then Inl (Panic ''release'')
      else kpop_off i (upd_proc p (\<lambda>v. v\<lparr>p_lock := None\<rparr>) k))"

definition myproc :: "nat \<Rightarrow> kern \<Rightarrow> fault + nat" where
  "myproc i k = (case c_proc (k_cpu k i) of None \<Rightarrow> Inl (Undefined ''null proc'') | Some p \<Rightarrow> Inr p)"

section \<open>Switching\<close>

definition procinit :: "kern \<Rightarrow> kern" where
  "procinit k = k\<lparr>k_proc := (\<lambda>p. if p < NPROC then (k_proc k p)\<lparr>p_lock := None, p_state := UNUSED, p_kstack := KSTACK p\<rparr> else k_proc k p)\<rparr>"

definition scheduler_return :: "nat \<Rightarrow> nat \<Rightarrow> kern \<Rightarrow> fault + kern" where
  "scheduler_return i p k = release_p i p (upd_cpu i (\<lambda>c. c\<lparr>c_proc := None\<rparr>) k)"

definition sched :: "nat \<Rightarrow> kern \<Rightarrow> fault + kern" where
  "sched i k =
     bindE (myproc i k) (\<lambda>p.
     if \<not> holding_p i p k then Inl (Panic ''sched p->lock'')
     else if c_noff (k_cpu k i) \<noteq> 1 then Inl (Panic ''sched locks'')
     else if p_state (k_proc k p) = RUNNING then Inl (Panic ''sched running'')
     else if c_intr (k_cpu k i) then Inl (Panic ''sched interruptible'')
     else scheduler_return i p (upd_proc p (\<lambda>v. v\<lparr>p_intena := c_intena (k_cpu k i)\<rparr>) k))"

definition sched_return :: "nat \<Rightarrow> nat \<Rightarrow> kern \<Rightarrow> kern" where
  "sched_return i p k = upd_cpu i (\<lambda>c. c\<lparr>c_intena := p_intena (k_proc k p)\<rparr>) k"

definition yield :: "nat \<Rightarrow> kern \<Rightarrow> fault + kern" where
  "yield i k =
     bindE (myproc i k) (\<lambda>p.
     bindE (acquire_p i p k) (\<lambda>k.
     sched i (upd_proc p (\<lambda>v. v\<lparr>p_state := RUNNABLE\<rparr>) k)))"

definition yield_return :: "nat \<Rightarrow> nat \<Rightarrow> kern \<Rightarrow> fault + kern" where
  "yield_return i p k = release_p i p (sched_return i p k)"

text \<open>\<^verbatim>\<open>sleep\<close> is called with one spin lock held, whose release and later acquisition are the two changes of the nesting depth.\<close>

definition sleep :: "nat \<Rightarrow> chan \<Rightarrow> kern \<Rightarrow> fault + kern" where
  "sleep i ch k =
     bindE (myproc i k) (\<lambda>p.
     bindE (acquire_p i p k) (\<lambda>k.
     bindE (kpop_off i k) (\<lambda>k.
     sched i (upd_proc p (\<lambda>v. v\<lparr>p_chan := Some ch, p_state := SLEEPING\<rparr>) k))))"

definition sleep_return :: "nat \<Rightarrow> nat \<Rightarrow> kern \<Rightarrow> fault + kern" where
  "sleep_return i p k =
     bindE (release_p i p (upd_proc p (\<lambda>v. v\<lparr>p_chan := None\<rparr>) (sched_return i p k))) (\<lambda>k.
     Inr (kpush_off i k))"

primrec scheduler_scan :: "nat \<Rightarrow> nat list \<Rightarrow> kern \<Rightarrow> fault + nat option \<times> kern" where
  "scheduler_scan i [] k = Inr (None, k)"
| "scheduler_scan i (p # ps) k =
     bindE (acquire_p i p k) (\<lambda>k.
     if p_state (k_proc k p) = RUNNABLE
     then Inr (Some p, upd_cpu i (\<lambda>c. c\<lparr>c_proc := Some p\<rparr>) (upd_proc p (\<lambda>v. v\<lparr>p_state := RUNNING\<rparr>) k))
     else bindE (release_p i p k) (\<lambda>k. scheduler_scan i ps k))"

definition scheduler :: "nat \<Rightarrow> nat \<Rightarrow> kern \<Rightarrow> fault + nat option \<times> kern" where
  "scheduler i start k =
     scheduler_scan i [start..<NPROC]
       (if start = 0 then upd_cpu i (\<lambda>c. c\<lparr>c_intr := True\<rparr>) k else k)"

text \<open>A process that the scheduler picks was stopped in \<^verbatim>\<open>sleep\<close> if it still has its channel; otherwise in \<^verbatim>\<open>yield\<close>, or it is new and starts in \<^verbatim>\<open>forkret\<close>.\<close>

definition dispatch :: "nat \<Rightarrow> nat \<Rightarrow> kern \<Rightarrow> fault + kern" where
  "dispatch i start k =
     bindE (scheduler i start k) (\<lambda>(found, k).
     case found of None \<Rightarrow> Inr k
     | Some p \<Rightarrow> if p_chan (k_proc k p) \<noteq> None then sleep_return i p k else yield_return i p k)"

section \<open>Waking and killing\<close>

definition wakeup1 :: "nat \<Rightarrow> chan \<Rightarrow> nat \<Rightarrow> kern \<Rightarrow> fault + kern" where
  "wakeup1 i ch p k =
     (if Some p = c_proc (k_cpu k i) then Inr k
      else if holding_p i p k \<and> p_state (k_proc k p) = USED then Inr k
      else
        bindE (acquire_p i p k) (\<lambda>k.
        release_p i p
          (if p_state (k_proc k p) = SLEEPING \<and> p_chan (k_proc k p) = Some ch
           then upd_proc p (\<lambda>v. v\<lparr>p_state := RUNNABLE\<rparr>) k else k)))"

definition wakeup :: "nat \<Rightarrow> chan \<Rightarrow> kern \<Rightarrow> fault + kern" where
  "wakeup i ch k = forE [0..<NPROC] (wakeup1 i ch) k"

primrec kill_scan :: "nat \<Rightarrow> u32 \<Rightarrow> nat list \<Rightarrow> kern \<Rightarrow> fault + int \<times> kern" where
  "kill_scan i pid [] k = Inr (-1, k)"
| "kill_scan i pid (p # ps) k =
     bindE (acquire_p i p k) (\<lambda>k.
     if p_pid (k_proc k p) = pid
     then
       let k = upd_proc p (\<lambda>v. v\<lparr>p_killed := True\<rparr>) k;
           k = (if p_state (k_proc k p) = SLEEPING then upd_proc p (\<lambda>v. v\<lparr>p_state := RUNNABLE\<rparr>) k else k)
       in bindE (release_p i p k) (\<lambda>k. Inr (0, k))
     else bindE (release_p i p k) (\<lambda>k. kill_scan i pid ps k))"

definition kill :: "nat \<Rightarrow> u32 \<Rightarrow> kern \<Rightarrow> fault + int \<times> kern" where
  "kill i pid k = kill_scan i pid [0..<NPROC] k"

definition setkilled :: "nat \<Rightarrow> nat \<Rightarrow> kern \<Rightarrow> fault + kern" where
  "setkilled i p k =
     bindE (acquire_p i p k) (\<lambda>k. release_p i p (upd_proc p (\<lambda>v. v\<lparr>p_killed := True\<rparr>) k))"

definition killed :: "nat \<Rightarrow> nat \<Rightarrow> kern \<Rightarrow> fault + bool \<times> kern" where
  "killed i p k =
     bindE (acquire_p i p k) (\<lambda>k.
     let b = p_killed (k_proc k p) in bindE (release_p i p k) (\<lambda>k. Inr (b, k)))"

section \<open>Copying to and from a user or kernel address\<close>

text \<open>The page table \<open>pt\<close> is that of the calling process. \<open>fs_out\<close> and \<open>fs_in\<close> are the forms in which \<open>readi\<close> and \<open>writei\<close> take these functions.\<close>

definition either_copyout :: "nat \<Rightarrow> bool \<Rightarrow> u64 \<Rightarrow> byte list \<Rightarrow> kmem \<Rightarrow> int \<times> kmem" where
  "either_copyout pt user_dst dst src m =
     (if user_dst then copyout pt dst src m else (0, m\<lparr>ram := store_bytes (ram m) (unat dst) src\<rparr>))"

definition either_copyin :: "nat \<Rightarrow> bool \<Rightarrow> u64 \<Rightarrow> nat \<Rightarrow> kmem \<Rightarrow> int \<times> byte list" where
  "either_copyin pt user_src src len m =
     (if user_src then copyin pt src len m else (0, load_bytes (ram m) (unat src) len))"

definition fs_out :: "nat \<Rightarrow> bool \<Rightarrow> kmem copyfn" where
  "fs_out pt user dst src m = (case either_copyout pt user (word_of_nat dst) src m of (r, m) \<Rightarrow> (r \<noteq> -1, m))"

definition fs_in :: "nat \<Rightarrow> bool \<Rightarrow> kmem fetchfn" where
  "fs_in pt user src n m = (case either_copyin pt user (word_of_nat src) n m of (r, bs) \<Rightarrow> (r \<noteq> -1, bs))"

section \<open>Critical sections on a process\<close>

definition cpu_ok :: "cpu \<Rightarrow> bool" where
  "cpu_ok c \<longleftrightarrow> 0 \<le> c_noff c \<and> (0 < c_noff c \<longrightarrow> \<not> c_intr c)"

definition locks_free :: "kern \<Rightarrow> bool" where
  "locks_free k \<longleftrightarrow> (\<forall>p. p_lock (k_proc k p) = None) \<and> (\<forall>i. cpu_ok (k_cpu k i))"

text \<open>Taking and releasing a lock leaves a CPU as it was, except that \<^verbatim>\<open>intena\<close> is overwritten when no lock was held.\<close>

definition same_cpu :: "cpu \<Rightarrow> cpu \<Rightarrow> bool" where
  "same_cpu c c' \<longleftrightarrow> c_proc c' = c_proc c \<and> c_noff c' = c_noff c \<and> c_intr c' = c_intr c \<and>
     (c_noff c \<noteq> 0 \<longrightarrow> c_intena c' = c_intena c)"

definition woken :: "proc \<Rightarrow> proc \<Rightarrow> bool" where
  "woken v v' \<longleftrightarrow> v' = v \<or> p_state v = SLEEPING \<and> v' = v\<lparr>p_state := RUNNABLE\<rparr>"

definition wakes :: "kern \<Rightarrow> kern \<Rightarrow> bool" where
  "wakes k k' \<longleftrightarrow> k'\<lparr>k_proc := k_proc k, k_cpu := k_cpu k\<rparr> = k \<and>
     (\<forall>i. same_cpu (k_cpu k i) (k_cpu k' i)) \<and> (\<forall>p. woken (k_proc k p) (k_proc k' p))"

lemma same_cpu_refl [simp]: "same_cpu c c"
  by (simp add: same_cpu_def)

lemma same_cpu_trans: "same_cpu a b \<Longrightarrow> same_cpu b c \<Longrightarrow> same_cpu a c"
  by (auto simp: same_cpu_def)

lemma same_cpu_ok: "same_cpu c c' \<Longrightarrow> cpu_ok c' = cpu_ok c"
  by (auto simp: same_cpu_def cpu_ok_def)

lemma woken_refl [simp]: "woken v v"
  by (simp add: woken_def)

lemma woken_trans: "woken a b \<Longrightarrow> woken b c \<Longrightarrow> woken a c"
  by (auto simp: woken_def)

lemma wakes_refl [simp]: "wakes k k"
  by (simp add: wakes_def)

lemma wakes_trans: "wakes a b \<Longrightarrow> wakes b c \<Longrightarrow> wakes a c"
proof -
  assume ab: "wakes a b" and bc: "wakes b c"
  have "c\<lparr>k_proc := k_proc a, k_cpu := k_cpu a\<rparr> = (c\<lparr>k_proc := k_proc b, k_cpu := k_cpu b\<rparr>)\<lparr>k_proc := k_proc a, k_cpu := k_cpu a\<rparr>"
    by simp
  also have "\<dots> = a" using ab bc by (simp only: wakes_def)
  finally have "c\<lparr>k_proc := k_proc a, k_cpu := k_cpu a\<rparr> = a" .
  with ab bc show "wakes a c"
    unfolding wakes_def using same_cpu_trans woken_trans by blast
qed

lemma wakes_cpu: "wakes k k' \<Longrightarrow> same_cpu (k_cpu k i) (k_cpu k' i)"
  and wakes_proc: "wakes k k' \<Longrightarrow> woken (k_proc k p) (k_proc k' p)"
  by (auto simp: wakes_def)

lemma wakes_locks_free: "wakes k k' \<Longrightarrow> locks_free k \<Longrightarrow> locks_free k'"
proof -
  assume w: "wakes k k'" and l: "locks_free k"
  have "p_lock (k_proc k' p) = None" for p
    using wakes_proc [OF w, of p] l by (auto simp: woken_def locks_free_def)
  moreover have "cpu_ok (k_cpu k' i)" for i
    using same_cpu_ok [OF wakes_cpu [OF w, of i]] l by (simp add: locks_free_def)
  ultimately show ?thesis by (simp add: locks_free_def)
qed

text \<open>\<open>settle i\<close> is what a critical section leaves of CPU \<open>i\<close>.\<close>

definition settle :: "nat \<Rightarrow> kern \<Rightarrow> kern" where
  "settle i k = upd_cpu i (\<lambda>c. if c_noff c = 0 then c\<lparr>c_intena := c_intr c\<rparr> else c) k"

lemma settle_fields [simp]:
  "k_proc (settle i k) = k_proc k" "k_pipe (settle i k) = k_pipe k" "k_mem (settle i k) = k_mem k"
  "same_cpu (k_cpu k j) (k_cpu (settle i k) j)" "same_cpu (k_cpu k j) (k_cpu (settle i (upd_proc p f k)) j)"
  by (auto simp: settle_def same_cpu_def)

lemma kpush_off_fields [simp]: "k_proc (kpush_off i k) = k_proc k" "k_pipe (kpush_off i k) = k_pipe k" "k_mem (kpush_off i k) = k_mem k"
  by (simp_all add: kpush_off_def)

lemma relock_same [simp]: "p_lock v = None \<Longrightarrow> v\<lparr>p_lock := None\<rparr> = v"
  by simp

lemma acquire_free:
  "p_lock (k_proc k p) = None \<Longrightarrow> acquire_p i p k = Inr (upd_proc p (\<lambda>v. v\<lparr>p_lock := Some i\<rparr>) (kpush_off i k))"
  by (simp add: acquire_p_def holding_p_def kpush_off_def)

lemma upd_proc_twice: "upd_proc p f (upd_proc p g k) = upd_proc p (\<lambda>v. f (g v)) k"
  by (simp add: upd_proc_def)

lemma upd_proc_cpu: "upd_proc p f (upd_cpu i g k) = upd_cpu i g (upd_proc p f k)"
  by (simp add: upd_proc_def upd_cpu_def)

lemma release_held:
  assumes "cpu_ok (k_cpu k i)" "p_lock (f ((k_proc k p)\<lparr>p_lock := Some i\<rparr>)) = Some i"
  shows "release_p i p (upd_proc p f (upd_proc p (\<lambda>v. v\<lparr>p_lock := Some i\<rparr>) (kpush_off i k))) =
    Inr (settle i (upd_proc p (\<lambda>v. (f (v\<lparr>p_lock := Some i\<rparr>))\<lparr>p_lock := None\<rparr>) k))"
  using assms
  by (auto simp: release_p_def holding_p_def kpush_off_def kpop_off_def settle_def upd_proc_twice upd_proc_cpu upd_cpu_def
      upd_proc_def cpu_ok_def Let_def fun_eq_iff)

lemmas release_held_same = release_held [where f = "\<lambda>v. v", simplified upd_proc_twice, simplified]

definition wake :: "chan \<Rightarrow> proc \<Rightarrow> proc" where
  "wake ch v = (if p_state v = SLEEPING \<and> p_chan v = Some ch then v\<lparr>p_state := RUNNABLE\<rparr> else v)"

lemma woken_wake [simp]: "woken v (wake ch v)"
  by (simp add: woken_def wake_def)

lemma wake_idem [simp]: "wake ch (wake ch v) = wake ch v"
  by (simp add: wake_def)

lemma wakes_settle_upd:
  assumes "woken (k_proc k p) (f (k_proc k p))"
  shows "wakes k (settle i (upd_proc p f k))"
  using assms by (auto simp: wakes_def settle_def upd_proc_def upd_cpu_def same_cpu_def)

lemma upd_proc_cong: "f (k_proc k p) = g (k_proc k p) \<Longrightarrow> upd_proc p f k = upd_proc p g k"
  by (simp add: upd_proc_def)

lemma wakeup1_eq:
  assumes "locks_free k"
  shows "wakeup1 i ch p k = Inr (if Some p = c_proc (k_cpu k i) then k else settle i (upd_proc p (wake ch) k))"
proof -
  have l: "p_lock (k_proc k p) = None" "cpu_ok (k_cpu k i)" using assms by (simp_all add: locks_free_def)
  let ?q = "\<lambda>v. v\<lparr>p_lock := Some i\<rparr>"
  have "upd_proc p (\<lambda>v. (wake ch (?q v))\<lparr>p_lock := None\<rparr>) k = upd_proc p (wake ch) k"
    by (rule upd_proc_cong) (simp add: wake_def l)
  moreover have "(if p_state (k_proc (upd_proc p ?q (kpush_off i k)) p) = SLEEPING \<and> p_chan (k_proc (upd_proc p ?q (kpush_off i k)) p) = Some ch
      then upd_proc p (\<lambda>v. v\<lparr>p_state := RUNNABLE\<rparr>) (upd_proc p ?q (kpush_off i k)) else upd_proc p ?q (kpush_off i k)) =
      upd_proc p (wake ch) (upd_proc p ?q (kpush_off i k))"
    by (simp add: wake_def upd_proc_def)
  ultimately show ?thesis
    using release_held [of k i "wake ch" p] l
    by (simp add: wakeup1_def acquire_free holding_p_def wake_def)
qed

lemma wakeup_list:
  "locks_free k \<Longrightarrow> \<exists>k'. forE ps (wakeup1 i ch) k = Inr k' \<and> wakes k k' \<and>
     k_proc k' = (\<lambda>p. if p \<in> set ps \<and> Some p \<noteq> c_proc (k_cpu k i) then wake ch (k_proc k p) else k_proc k p)"
proof (induction ps arbitrary: k)
  case (Cons p ps)
  let ?k = "if Some p = c_proc (k_cpu k i) then k else settle i (upd_proc p (wake ch) k)"
  have w: "wakes k ?k" by (simp add: wakes_settle_upd)
  then have "locks_free ?k" using Cons.prems wakes_locks_free by blast
  from Cons.IH [OF this] obtain k' where k': "forE ps (wakeup1 i ch) ?k = Inr k'" "wakes ?k k'"
    "k_proc k' = (\<lambda>q. if q \<in> set ps \<and> Some q \<noteq> c_proc (k_cpu ?k i) then wake ch (k_proc ?k q) else k_proc ?k q)"
    by blast
  have "c_proc (k_cpu ?k i) = c_proc (k_cpu k i)"
    using wakes_cpu [OF w, of i] by (simp only: same_cpu_def)
  with k'(3) have "k_proc k' = (\<lambda>q. if q \<in> set (p # ps) \<and> Some q \<noteq> c_proc (k_cpu k i) then wake ch (k_proc k q) else k_proc k q)"
    by (auto simp: fun_eq_iff)
  moreover have "forE (p # ps) (wakeup1 i ch) k = Inr k'"
    by (simp add: wakeup1_eq [OF Cons.prems] k'(1))
  ultimately show ?case using wakes_trans [OF w k'(2)] by blast
qed simp

lemma wakeup_spec:
  assumes "locks_free k"
  obtains k' where "wakeup i ch k = Inr k'" "wakes k k'"
    "\<And>p. k_proc k' p = (if p < NPROC \<and> Some p \<noteq> c_proc (k_cpu k i) then wake ch (k_proc k p) else k_proc k p)"
  using wakeup_list [OF assms, of "[0..<NPROC]" i ch] by (auto simp: wakeup_def)

lemma killed_spec:
  assumes "locks_free k"
  shows "killed i p k = Inr (p_killed (k_proc k p), settle i k)"
proof -
  have l: "p_lock (k_proc k p) = None" "cpu_ok (k_cpu k i)" using assms by (simp_all add: locks_free_def)
  have "upd_proc p (\<lambda>v. v\<lparr>p_lock := None\<rparr>) k = k"
    using l by (simp add: upd_proc_def fun_upd_idem)
  then show ?thesis
    using release_held_same [of k i p] l by (simp add: killed_def acquire_free Let_def)
qed

lemma setkilled_spec:
  assumes "locks_free k"
  shows "setkilled i p k = Inr (settle i (upd_proc p (\<lambda>v. v\<lparr>p_killed := True\<rparr>) k))"
proof -
  have l: "p_lock (k_proc k p) = None" "cpu_ok (k_cpu k i)" using assms by (simp_all add: locks_free_def)
  have "upd_proc p (\<lambda>v. v\<lparr>p_killed := True, p_lock := None\<rparr>) k = upd_proc p (\<lambda>v. v\<lparr>p_killed := True\<rparr>) k"
    by (rule upd_proc_cong) (simp add: l)
  then show ?thesis
    using release_held [of k i "\<lambda>v. v\<lparr>p_killed := True\<rparr>" p] l by (simp add: setkilled_def acquire_free)
qed

text \<open>\<^verbatim>\<open>kill\<close> marks the first process with the given id and makes it runnable if it sleeps.\<close>

definition slay :: "proc \<Rightarrow> proc" where
  "slay v = (if p_state v = SLEEPING then v\<lparr>p_killed := True, p_state := RUNNABLE\<rparr> else v\<lparr>p_killed := True\<rparr>)"

lemma wakes_settle: "wakes k (settle i k)"
  by (simp add: wakes_def settle_def upd_cpu_def same_cpu_def)

lemma kill_step:
  assumes "locks_free k" "p_pid (k_proc k p) = pid"
  shows "kill_scan i pid (p # ps) k = Inr (0, settle i (upd_proc p slay k))"
proof -
  have l: "p_lock (k_proc k p) = None" "cpu_ok (k_cpu k i)" using assms by (simp_all add: locks_free_def)
  let ?k = "upd_proc p (\<lambda>v. v\<lparr>p_lock := Some i\<rparr>) (kpush_off i k)"
  have e: "(if p_state (k_proc (upd_proc p (\<lambda>v. v\<lparr>p_killed := True\<rparr>) k) p) = SLEEPING
      then upd_proc p (\<lambda>v. v\<lparr>p_state := RUNNABLE\<rparr>) (upd_proc p (\<lambda>v. v\<lparr>p_killed := True\<rparr>) k)
      else upd_proc p (\<lambda>v. v\<lparr>p_killed := True\<rparr>) k) = upd_proc p slay k" for k
    by (simp add: slay_def upd_proc_def)
  have "upd_proc p (\<lambda>v. (slay (v\<lparr>p_lock := Some i\<rparr>))\<lparr>p_lock := None\<rparr>) k = upd_proc p slay k"
    by (rule upd_proc_cong) (simp add: slay_def l)
  moreover have "p_lock (slay ((k_proc k p)\<lparr>p_lock := Some i\<rparr>)) = Some i" by (simp add: slay_def)
  ultimately have "release_p i p (upd_proc p slay ?k) = Inr (settle i (upd_proc p slay k))"
    using release_held [of k i slay p] l by simp
  then show ?thesis
    unfolding kill_scan.simps acquire_free [OF l(1)] Let_def e using assms(2) by simp
qed

lemma kill_other:
  assumes "locks_free k" "p_pid (k_proc k p) \<noteq> pid"
  shows "kill_scan i pid (p # ps) k = kill_scan i pid ps (settle i k)"
proof -
  have l: "p_lock (k_proc k p) = None" "cpu_ok (k_cpu k i)" using assms by (simp_all add: locks_free_def)
  have "upd_proc p (\<lambda>v. v\<lparr>p_lock := None\<rparr>) k = k"
    using l by (simp add: upd_proc_def fun_upd_idem)
  then show ?thesis
    using release_held_same [of k i p] l assms(2) by (simp add: acquire_free kpush_off_def)
qed

lemma kill_list:
  "locks_free k \<Longrightarrow> \<exists>r k'. kill_scan i pid ps k = Inr (r, k') \<and> locks_free k' \<and>
     (\<forall>j. same_cpu (k_cpu k j) (k_cpu k' j)) \<and>
     (case filter (\<lambda>p. p_pid (k_proc k p) = pid) ps of
        [] \<Rightarrow> r = -1 \<and> k_proc k' = k_proc k
      | p # _ \<Rightarrow> r = 0 \<and> k_proc k' = (k_proc k)(p := slay (k_proc k p)))"
proof (induction ps arbitrary: k)
  case (Cons p ps)
  show ?case
  proof (cases "p_pid (k_proc k p) = pid")
    case True
    then show ?thesis
      using kill_step [OF Cons.prems, of p pid i ps] Cons.prems same_cpu_ok [OF settle_fields(4)]
      by (auto simp: locks_free_def slay_def)
  next
    case False
    have w: "wakes k (settle i k)" by (rule wakes_settle)
    obtain r k' where k': "kill_scan i pid ps (settle i k) = Inr (r, k')" "locks_free k'"
      "\<And>j. same_cpu (k_cpu (settle i k) j) (k_cpu k' j)"
      "case filter (\<lambda>p. p_pid (k_proc k p) = pid) ps of [] \<Rightarrow> r = -1 \<and> k_proc k' = k_proc k
       | p # _ \<Rightarrow> r = 0 \<and> k_proc k' = (k_proc k)(p := slay (k_proc k p))"
      using Cons.IH [OF wakes_locks_free [OF w Cons.prems], unfolded settle_fields(1)] by blast
    have "same_cpu (k_cpu k j) (k_cpu k' j)" for j
      by (rule same_cpu_trans [OF settle_fields(4) k'(3)])
    moreover have "filter (\<lambda>p. p_pid (k_proc k p) = pid) (p # ps) = filter (\<lambda>p. p_pid (k_proc k p) = pid) ps"
      using False by simp
    ultimately show ?thesis
      unfolding kill_other [OF Cons.prems False] using k'(1,2,4) by (simp only: simp_thms) blast
  qed
qed simp

end
