(* ===== verification/Sched_Inv.thy ===== *)
theory Sched_Inv
  imports Sched
begin

text \<open>
  What the switching functions do when they are called as the kernel calls them, and the invariant of the process table and the CPUs:
  a process is \<^verbatim>\<open>RUNNING\<close> exactly when one CPU runs it. \<open>leave_cpu\<close> is the effect of giving up the CPU, \<open>enter_cpu\<close> the effect of being picked.
\<close>

definition leave_cpu :: "nat \<Rightarrow> nat \<Rightarrow> bool \<Rightarrow> (proc \<Rightarrow> proc) \<Rightarrow> kern \<Rightarrow> kern" where
  "leave_cpu i p intr f k =
     upd_cpu i (\<lambda>c. c\<lparr>c_proc := None, c_noff := 0, c_intena := intr, c_intr := intr\<rparr>) (upd_proc p (\<lambda>v. (f v)\<lparr>p_intena := intr\<rparr>) k)"

lemma sched_held:
  assumes "c_proc (k_cpu k i) = Some p" "p_lock (k_proc k p) = Some i" "c_noff (k_cpu k i) = 1"
    "p_state (k_proc k p) \<noteq> RUNNING" "\<not> c_intr (k_cpu k i)"
  shows "sched i k = Inr (leave_cpu i p (c_intena (k_cpu k i)) (\<lambda>v. v\<lparr>p_lock := None\<rparr>) k)"
  using assms
  by (cases "k_cpu k i"; cases "k_proc k p")
    (simp add: sched_def myproc_def scheduler_return_def release_p_def holding_p_def kpop_off_def leave_cpu_def upd_cpu_def upd_proc_def Let_def)

lemma leave_cpu_cong: "f (k_proc k p) = g (k_proc k p) \<Longrightarrow> leave_cpu i p b f k = leave_cpu i p b g k"
  by (simp add: leave_cpu_def upd_proc_def)

lemma leave_cpu_upd: "leave_cpu i p b f (upd_proc p g (upd_cpu i h k)) =
    leave_cpu i p b (\<lambda>v. f (g v)) (upd_cpu i h k)"
  by (simp add: leave_cpu_def upd_proc_twice)

lemma leave_cpu_push: "leave_cpu i p b f (upd_proc p g (kpush_off i k)) = leave_cpu i p b (\<lambda>v. f (g v)) k"
  by (simp add: leave_cpu_def upd_proc_twice kpush_off_def upd_proc_def upd_cpu_def Let_def)

lemma yield_spec:
  assumes "locks_free k" "c_proc (k_cpu k i) = Some p" "c_noff (k_cpu k i) = 0"
  shows "yield i k = Inr (leave_cpu i p (c_intr (k_cpu k i)) (\<lambda>v. v\<lparr>p_state := RUNNABLE\<rparr>) k)"
proof -
  have l: "p_lock (k_proc k p) = None" using assms by (simp add: locks_free_def)
  let ?k = "upd_proc p (\<lambda>v. v\<lparr>p_lock := Some i, p_state := RUNNABLE\<rparr>) (kpush_off i k)"
  have "sched i ?k = Inr (leave_cpu i p (c_intena (k_cpu ?k i)) (\<lambda>v. v\<lparr>p_lock := None\<rparr>) ?k)"
    by (rule sched_held) (simp_all add: assms kpush_off_def)
  also have "\<dots> = Inr (leave_cpu i p (c_intr (k_cpu k i)) (\<lambda>v. v\<lparr>p_state := RUNNABLE\<rparr>) k)"
  proof -
    have "c_intena (k_cpu ?k i) = c_intr (k_cpu k i)" using assms(3) by (simp add: kpush_off_def Let_def)
    then show ?thesis unfolding leave_cpu_push by (simp only:) (simp add: l cong: leave_cpu_cong)
  qed
  finally show ?thesis
    using assms by (simp add: yield_def myproc_def acquire_free l upd_proc_twice)
qed

lemma switch_out:
  assumes "locks_free k" "c_proc (k_cpu k i) = Some p" "c_noff (k_cpu k i) = 1"
    and f: "\<And>v. p_lock (f v) = p_lock v" "\<And>v. p_state (f v) \<noteq> RUNNING"
    and c: "\<And>v l. (f (v\<lparr>p_lock := l\<rparr>)) = (f v)\<lparr>p_lock := l\<rparr>"
  shows "bindE (acquire_p i p k) (\<lambda>k. bindE (kpop_off i k) (\<lambda>k. sched i (upd_proc p f k))) =
    Inr (leave_cpu i p (c_intena (k_cpu k i)) f k)"
proof -
  have l: "p_lock (k_proc k p) = None" "cpu_ok (k_cpu k i)" using assms by (simp_all add: locks_free_def)
  then have i: "\<not> c_intr (k_cpu k i)" using assms(3) by (simp add: cpu_ok_def)
  let ?k1 = "upd_proc p (\<lambda>v. v\<lparr>p_lock := Some i\<rparr>) (kpush_off i k)"
  let ?k2 = "upd_proc p (\<lambda>v. v\<lparr>p_lock := Some i\<rparr>) k"
  have "(k_cpu k i)\<lparr>c_intr := False, c_noff := 1\<rparr> = k_cpu k i"
    using assms(3) i by (cases "k_cpu k i") simp
  then have "kpop_off i ?k1 = Inr ?k2"
    using assms(3) i by (simp add: kpop_off_def kpush_off_def upd_cpu_def upd_proc_def fun_upd_idem)
  moreover have "sched i (upd_proc p f ?k2) = Inr (leave_cpu i p (c_intena (k_cpu (upd_proc p f ?k2) i)) (\<lambda>v. v\<lparr>p_lock := None\<rparr>) (upd_proc p f ?k2))"
    by (rule sched_held) (simp_all add: assms i)
  moreover have "leave_cpu i p b (\<lambda>v. v\<lparr>p_lock := None\<rparr>) (upd_proc p f ?k2) = leave_cpu i p b f k" for b
    using l(1) f(1) [of "k_proc k p"] by (simp add: leave_cpu_def upd_proc_twice c cong: upd_proc_cong)
  ultimately show ?thesis by (simp add: acquire_free [OF l(1)])
qed

lemma sleep_spec:
  assumes "locks_free k" "c_proc (k_cpu k i) = Some p" "c_noff (k_cpu k i) = 1"
  shows "sleep i ch k = Inr (leave_cpu i p (c_intena (k_cpu k i)) (\<lambda>v. v\<lparr>p_chan := Some ch, p_state := SLEEPING\<rparr>) k)"
  using switch_out [OF assms, of "\<lambda>v. v\<lparr>p_chan := Some ch, p_state := SLEEPING\<rparr>"] assms(2)
  by (simp add: sleep_def myproc_def)

definition picked :: "nat \<Rightarrow> nat \<Rightarrow> kern \<Rightarrow> kern" where
  "picked i p k = upd_cpu i (\<lambda>c. c\<lparr>c_proc := Some p\<rparr>)
     (upd_proc p (\<lambda>v. v\<lparr>p_state := RUNNING\<rparr>) (upd_proc p (\<lambda>v. v\<lparr>p_lock := Some i\<rparr>) (kpush_off i k)))"

lemma scan_spec:
  "locks_free k \<Longrightarrow> \<exists>k1. wakes k k1 \<and> k_proc k1 = k_proc k \<and>
     scheduler_scan i ps k = (case List.find (\<lambda>p. p_state (k_proc k p) = RUNNABLE) ps of
       None \<Rightarrow> Inr (None, k1) | Some p \<Rightarrow> Inr (Some p, picked i p k1))"
proof (induction ps arbitrary: k)
  case (Cons p ps)
  have l: "p_lock (k_proc k p) = None" "cpu_ok (k_cpu k i)" using Cons.prems by (simp_all add: locks_free_def)
  show ?case
  proof (cases "p_state (k_proc k p) = RUNNABLE")
    case True
    then show ?thesis
      by (intro exI [of _ k]) (simp add: acquire_free [OF l(1)] picked_def)
  next
    case False
    have "upd_proc p (\<lambda>v. v\<lparr>p_lock := None\<rparr>) k = k"
      using l by (simp add: upd_proc_def fun_upd_idem)
    then have "scheduler_scan i (p # ps) k = scheduler_scan i ps (settle i k)"
      using release_held_same [of k i p] l False by (simp add: acquire_free [OF l(1)])
    moreover obtain k1 where "wakes (settle i k) k1" "k_proc k1 = k_proc k"
      "scheduler_scan i ps (settle i k) = (case List.find (\<lambda>p. p_state (k_proc k p) = RUNNABLE) ps of
         None \<Rightarrow> Inr (None, k1) | Some p \<Rightarrow> Inr (Some p, picked i p k1))"
      using Cons.IH [OF wakes_locks_free [OF wakes_settle Cons.prems], unfolded settle_fields(1)] by blast
    ultimately show ?thesis using wakes_trans [OF wakes_settle] False by auto
  qed
qed auto

text \<open>A resumed process has its own interrupt state back, and holds the lock it slept under if it was in \<^verbatim>\<open>sleep\<close>.\<close>

definition enter_cpu :: "nat \<Rightarrow> nat \<Rightarrow> kern \<Rightarrow> kern" where
  "enter_cpu i p k =
     (let v = k_proc k p; b = p_intena v; slept = (p_chan v \<noteq> None) in
      upd_cpu i (\<lambda>c. c\<lparr>c_proc := Some p, c_noff := (if slept then 1 else 0), c_intena := b, c_intr := (\<not> slept \<and> b)\<rparr>)
        (upd_proc p (\<lambda>v. v\<lparr>p_state := RUNNING, p_chan := None\<rparr>) k))"

lemma resume_picked:
  assumes "locks_free k" "c_noff (k_cpu k i) = 0"
  shows "(if p_chan (k_proc (picked i p k) p) \<noteq> None then sleep_return i p (picked i p k) else yield_return i p (picked i p k)) =
    Inr (enter_cpu i p k)"
proof -
  have l: "p_lock (k_proc k p) = None" using assms by (simp add: locks_free_def)
  show ?thesis
  proof (cases "p_chan (k_proc k p)")
    case None
    then show ?thesis
      using assms(2) l
      by (cases "k_cpu k i"; cases "k_proc k p")
        (simp add: picked_def yield_return_def sched_return_def release_p_def holding_p_def kpush_off_def kpop_off_def enter_cpu_def
          upd_cpu_def upd_proc_def Let_def)
  next
    case (Some ch)
    then show ?thesis
      using assms(2) l
      by (cases "k_cpu k i"; cases "k_proc k p")
        (simp add: picked_def sleep_return_def sched_return_def release_p_def holding_p_def kpush_off_def kpop_off_def enter_cpu_def
          upd_cpu_def upd_proc_def Let_def)
  qed
qed

lemma dispatch_spec:
  assumes "locks_free k" "c_noff (k_cpu k i) = 0"
  obtains k1 where "locks_free k1" "k_proc k1 = k_proc k" "\<And>j. c_proc (k_cpu k1 j) = c_proc (k_cpu k j)"
    "\<And>j. c_noff (k_cpu k1 j) = c_noff (k_cpu k j)"
    "dispatch i start k = (case List.find (\<lambda>p. p_state (k_proc k p) = RUNNABLE) [start..<NPROC] of
       None \<Rightarrow> Inr k1 | Some p \<Rightarrow> Inr (enter_cpu i p k1))"
proof -
  let ?k = "if start = 0 then upd_cpu i (\<lambda>c. c\<lparr>c_intr := True\<rparr>) k else k"
  have f: "locks_free ?k" using assms by (auto simp: locks_free_def cpu_ok_def)
  have e: "k_proc ?k = k_proc k" "\<And>j. c_proc (k_cpu ?k j) = c_proc (k_cpu k j)" "\<And>j. c_noff (k_cpu ?k j) = c_noff (k_cpu k j)"
    by simp_all
  obtain k1 where k1: "wakes ?k k1" "k_proc k1 = k_proc ?k"
    "scheduler_scan i [start..<NPROC] ?k = (case List.find (\<lambda>p. p_state (k_proc ?k p) = RUNNABLE) [start..<NPROC] of
       None \<Rightarrow> Inr (None, k1) | Some p \<Rightarrow> Inr (Some p, picked i p k1))"
    using scan_spec [OF f] by blast
  have "c_proc (k_cpu k1 j) = c_proc (k_cpu k j)" "c_noff (k_cpu k1 j) = c_noff (k_cpu k j)" for j
    using wakes_cpu [OF k1(1), of j] e(2,3) [of j] by (simp_all only: same_cpu_def)
  moreover have fr: "locks_free k1" using wakes_locks_free [OF k1(1) f] .
  moreover have "dispatch i start k = (case List.find (\<lambda>p. p_state (k_proc k p) = RUNNABLE) [start..<NPROC] of
       None \<Rightarrow> Inr k1 | Some p \<Rightarrow> Inr (enter_cpu i p k1))"
    using k1(3) resume_picked [OF fr, of i] calculation(2) [of i] assms(2) e(1)
    by (auto simp: dispatch_def scheduler_def split: option.splits)
  ultimately show ?thesis using that [of k1] k1(2) e(1) by auto
qed

section \<open>The invariant\<close>

definition running_ok :: "(nat \<Rightarrow> nat option) \<Rightarrow> (nat \<Rightarrow> procstate) \<Rightarrow> bool" where
  "running_ok on st \<longleftrightarrow> (\<forall>i p. on i = Some p \<longrightarrow> p < NPROC \<and> st p = RUNNING) \<and>
     (\<forall>i j p. on i = Some p \<longrightarrow> on j = Some p \<longrightarrow> i = j) \<and> (\<forall>p. st p = RUNNING \<longrightarrow> (\<exists>i. on i = Some p))"

abbreviation on_cpu :: "kern \<Rightarrow> nat \<Rightarrow> nat option" where
  "on_cpu k i \<equiv> c_proc (k_cpu k i)"

abbreviation st_of :: "kern \<Rightarrow> nat \<Rightarrow> procstate" where
  "st_of k p \<equiv> p_state (k_proc k p)"

definition sleepers_ok :: "kern \<Rightarrow> bool" where
  "sleepers_ok k \<longleftrightarrow> (\<forall>p. st_of k p = SLEEPING \<longrightarrow> p_chan (k_proc k p) \<noteq> None)"

definition sched_inv :: "kern \<Rightarrow> bool" where
  "sched_inv k \<longleftrightarrow> locks_free k \<and> running_ok (on_cpu k) (st_of k) \<and> sleepers_ok k"

lemma running_ok_on: "running_ok on st \<Longrightarrow> on i = Some p \<Longrightarrow> p < NPROC \<and> st p = RUNNING"
  and running_ok_unique: "running_ok on st \<Longrightarrow> on i = Some p \<Longrightarrow> on j = Some p \<Longrightarrow> i = j"
  and running_ok_somewhere: "running_ok on st \<Longrightarrow> st p = RUNNING \<Longrightarrow> \<exists>i. on i = Some p"
  unfolding running_ok_def by blast+

lemma running_ok_leave:
  assumes "running_ok on st" "on i = Some p" "s \<noteq> RUNNING"
  shows "running_ok (on(i := None)) (st(p := s))"
  unfolding running_ok_def
proof (intro conjI allI impI)
  fix j q assume "(on(i := None)) j = Some q"
  then have j: "j \<noteq> i" "on j = Some q" by (auto split: if_splits)
  then have "q \<noteq> p" using running_ok_unique [OF assms(1) _ assms(2)] by blast
  with j running_ok_on [OF assms(1)] show "q < NPROC" "(st(p := s)) q = RUNNING" by auto
next
  fix j l q assume "(on(i := None)) j = Some q" "(on(i := None)) l = Some q"
  then show "j = l" using running_ok_unique [OF assms(1)] by (auto split: if_splits)
next
  fix q assume "(st(p := s)) q = RUNNING"
  with assms(3) have q: "q \<noteq> p" "st q = RUNNING" by (auto split: if_splits)
  then obtain j where "on j = Some q" using running_ok_somewhere [OF assms(1)] by blast
  with q assms(2) show "\<exists>j. (on(i := None)) j = Some q" by (intro exI [of _ j]) auto
qed

lemma running_ok_enter:
  assumes "running_ok on st" "on i = None" "st p \<noteq> RUNNING" "p < NPROC"
  shows "running_ok (on(i := Some p)) (st(p := RUNNING))"
  unfolding running_ok_def
proof (intro conjI allI impI)
  fix j q assume "(on(i := Some p)) j = Some q"
  then show "q < NPROC" "(st(p := RUNNING)) q = RUNNING"
    using running_ok_on [OF assms(1)] assms(4) by (auto split: if_splits)
next
  fix j l q assume "(on(i := Some p)) j = Some q" "(on(i := Some p)) l = Some q"
  then show "j = l"
    using running_ok_unique [OF assms(1)] running_ok_on [OF assms(1)] assms(3) by (auto split: if_splits)
next
  fix q assume "(st(p := RUNNING)) q = RUNNING"
  then show "\<exists>j. (on(i := Some p)) j = Some q"
    using running_ok_somewhere [OF assms(1), of q] assms(2) by (cases "q = p") force+
qed

text \<open>Changing states that are not \<^verbatim>\<open>RUNNING\<close>, to states that are not, keeps the invariant.\<close>

lemma running_ok_states:
  assumes "running_ok on st" "\<And>p. (st' p = RUNNING) = (st p = RUNNING)"
  shows "running_ok on st'"
  using assms(1) unfolding running_ok_def assms(2) .

lemma sched_inv_leave:
  assumes "sched_inv k" "on_cpu k i = Some p" "p_lock (f (k_proc k p)) = None" "p_state (f (k_proc k p)) \<noteq> RUNNING"
    "p_state (f (k_proc k p)) = SLEEPING \<Longrightarrow> p_chan (f (k_proc k p)) \<noteq> None"
  shows "sched_inv (leave_cpu i p b f k)"
proof -
  let ?k = "leave_cpu i p b f k"
  have "on_cpu ?k = (on_cpu k)(i := None)" "st_of ?k = (st_of k)(p := p_state (f (k_proc k p)))"
    by (auto simp: leave_cpu_def)
  then have "running_ok (on_cpu ?k) (st_of ?k)"
    using running_ok_leave [of "on_cpu k" "st_of k" i p] assms(1,2,4) by (simp add: sched_inv_def)
  moreover have "locks_free ?k"
    using assms(1,3) by (auto simp: sched_inv_def locks_free_def leave_cpu_def cpu_ok_def)
  moreover have "sleepers_ok ?k"
    using assms(1,5) by (auto simp: sched_inv_def sleepers_ok_def leave_cpu_def)
  ultimately show ?thesis by (simp add: sched_inv_def)
qed

lemma sched_inv_enter:
  assumes "sched_inv k" "on_cpu k i = None" "st_of k p = RUNNABLE" "p < NPROC"
  shows "sched_inv (enter_cpu i p k)"
proof -
  let ?k = "enter_cpu i p k"
  have "on_cpu ?k = (on_cpu k)(i := Some p)" "st_of ?k = (st_of k)(p := RUNNING)"
    by (auto simp: enter_cpu_def Let_def)
  then have "running_ok (on_cpu ?k) (st_of ?k)"
    using running_ok_enter [of "on_cpu k" "st_of k" i p] assms by (simp add: sched_inv_def)
  moreover have "locks_free ?k"
    using assms(1) by (auto simp: sched_inv_def locks_free_def enter_cpu_def cpu_ok_def Let_def)
  moreover have "sleepers_ok ?k"
    using assms(1) by (auto simp: sched_inv_def sleepers_ok_def enter_cpu_def Let_def)
  ultimately show ?thesis by (simp add: sched_inv_def)
qed

lemma sched_inv_wakes:
  assumes "sched_inv k" "wakes k k'"
  shows "sched_inv k'"
proof -
  have c: "on_cpu k' = on_cpu k"
    using wakes_cpu [OF assms(2)] by (auto simp: same_cpu_def fun_eq_iff)
  have w: "woken (k_proc k p) (k_proc k' p)" for p by (rule wakes_proc [OF assms(2)])
  have "(st_of k' p = RUNNING) = (st_of k p = RUNNING)" for p using w [of p] by (auto simp: woken_def)
  then have "running_ok (on_cpu k') (st_of k')"
    unfolding c by (rule running_ok_states [rotated]) (use assms(1) in \<open>simp add: sched_inv_def\<close>)
  moreover have "sleepers_ok k'"
    unfolding sleepers_ok_def
  proof (intro allI impI)
    fix p assume "st_of k' p = SLEEPING"
    then have "k_proc k' p = k_proc k p" using w [of p] by (auto simp: woken_def)
    with \<open>st_of k' p = SLEEPING\<close> assms(1) show "p_chan (k_proc k' p) \<noteq> None"
      by (simp add: sched_inv_def sleepers_ok_def)
  qed
  ultimately show ?thesis using wakes_locks_free [OF assms(2)] assms(1) by (simp add: sched_inv_def)
qed

lemma sched_inv_cpus:
  assumes "sched_inv k" "k_proc k' = k_proc k" "\<And>i. on_cpu k' i = on_cpu k i" "\<And>i. cpu_ok (k_cpu k' i)"
  shows "sched_inv k'"
  using assms unfolding sched_inv_def locks_free_def sleepers_ok_def by auto

lemma sched_inv_kill:
  assumes "sched_inv k" "kill i pid k = Inr (r, k')"
  shows "sched_inv k'"
proof -
  have lf: "locks_free k" using assms(1) by (simp add: sched_inv_def)
  obtain r1 k1 where k1: "kill_scan i pid [0..<NPROC] k = Inr (r1, k1)" "locks_free k1"
    and c: "\<And>j. same_cpu (k_cpu k j) (k_cpu k1 j)"
    and p: "case filter (\<lambda>p. p_pid (k_proc k p) = pid) [0..<NPROC] of [] \<Rightarrow> r1 = -1 \<and> k_proc k1 = k_proc k
      | p # _ \<Rightarrow> r1 = 0 \<and> k_proc k1 = (k_proc k)(p := slay (k_proc k p))"
    using kill_list [OF lf, of i pid "[0..<NPROC]"] by blast
  have e: "k1 = k'" using assms(2) k1(1) by (simp add: kill_def)
  have pr: "k_proc k1 q = k_proc k q \<or> k_proc k1 q = slay (k_proc k q)" for q
    using p by (auto split: list.splits)
  have "on_cpu k1 = on_cpu k" using c by (auto simp: same_cpu_def fun_eq_iff)
  moreover have "(st_of k1 q = RUNNING) = (st_of k q = RUNNING)" for q
    using pr [of q] by (auto simp: slay_def split: if_splits)
  ultimately have "running_ok (on_cpu k1) (st_of k1)"
    using assms(1) running_ok_states [of "on_cpu k" "st_of k" "st_of k1"] by (simp add: sched_inv_def)
  moreover have "sleepers_ok k1"
    unfolding sleepers_ok_def
  proof (intro allI impI)
    fix q assume "st_of k1 q = SLEEPING"
    then have "st_of k q = SLEEPING" "p_chan (k_proc k1 q) = p_chan (k_proc k q)"
      using pr [of q] by (auto simp: slay_def split: if_splits)
    then show "p_chan (k_proc k1 q) \<noteq> None" using assms(1) by (simp add: sched_inv_def sleepers_ok_def)
  qed
  ultimately show ?thesis using k1(2) unfolding e by (simp add: sched_inv_def)
qed

definition popped :: "nat \<Rightarrow> kern \<Rightarrow> kern" where
  "popped i k = upd_cpu i (\<lambda>c. c\<lparr>c_noff := c_noff c - 1, c_intr := (c_noff c = 1 \<and> c_intena c)\<rparr>) k"

lemma popped_fields [simp]: "k_proc (popped i k) = k_proc k" "k_pipe (popped i k) = k_pipe k" "k_mem (popped i k) = k_mem k"
    "k_sleeplock (popped i k) = k_sleeplock k" "on_cpu (popped i k) j = on_cpu k j"
  by (simp_all add: popped_def)

lemma kpop_ok:
  assumes "cpu_ok (k_cpu k i)" "0 < c_noff (k_cpu k i)"
  shows "kpop_off i k = Inr (popped i k)"
  using assms by (cases "k_cpu k i") (auto simp: kpop_off_def popped_def cpu_ok_def upd_cpu_def Let_def cong: conj_cong)

lemma cpu_ok_push: "cpu_ok (k_cpu k j) \<Longrightarrow> cpu_ok (k_cpu (kpush_off i k) j)"
  and cpu_ok_popped: "cpu_ok (k_cpu k j) \<Longrightarrow> 0 < c_noff (k_cpu k i) \<Longrightarrow> cpu_ok (k_cpu (popped i k) j)"
  by (auto simp: kpush_off_def popped_def cpu_ok_def Let_def)

lemma kpush_cpu [simp]: "on_cpu (kpush_off i k) j = on_cpu k j"
    "c_noff (k_cpu (kpush_off i k) j) = (if j = i then c_noff (k_cpu k j) + 1 else c_noff (k_cpu k j))"
    "k_sleeplock (kpush_off i k) = k_sleeplock k"
  by (auto simp: kpush_off_def Let_def)

lemma sched_inv_push: "sched_inv k \<Longrightarrow> sched_inv (kpush_off i k)"
  by (rule sched_inv_cpus) (auto simp: sched_inv_def locks_free_def intro: cpu_ok_push)

lemma sched_inv_popped: "sched_inv k \<Longrightarrow> 0 < c_noff (k_cpu k i) \<Longrightarrow> sched_inv (popped i k)"
  by (rule sched_inv_cpus) (auto simp: sched_inv_def locks_free_def intro: cpu_ok_popped)

lemma sched_inv_dispatch:
  assumes "sched_inv k" "on_cpu k i = None" "c_noff (k_cpu k i) = 0" "dispatch i start k = Inr k'"
  shows "sched_inv k'"
proof -
  have "locks_free k" using assms(1) by (simp add: sched_inv_def)
  from dispatch_spec [OF this assms(3), of start]
  obtain k1 where k1: "locks_free k1" "k_proc k1 = k_proc k" "\<And>j. on_cpu k1 j = on_cpu k j"
    "dispatch i start k = (case List.find (\<lambda>p. st_of k p = RUNNABLE) [start..<NPROC] of
       None \<Rightarrow> Inr k1 | Some p \<Rightarrow> Inr (enter_cpu i p k1))" by blast
  have inv: "sched_inv k1"
    using k1(1) by (intro sched_inv_cpus [OF assms(1) k1(2,3)]) (simp add: locks_free_def)
  show ?thesis
  proof (cases "List.find (\<lambda>p. st_of k p = RUNNABLE) [start..<NPROC]")
    case None
    then show ?thesis using k1(4) assms(4) inv by simp
  next
    case (Some p)
    then have "st_of k p = RUNNABLE" "p < NPROC" by (auto simp: find_Some_iff)
    then have "sched_inv (enter_cpu i p k1)"
      using sched_inv_enter [OF inv] k1(2,3) assms(2) by simp
    then show ?thesis using k1(4) assms(4) Some by simp
  qed
qed

end
