(* ===== verification/Sleeplock.thy ===== *)
theory Sleeplock
  imports Sched_Inv
begin

text \<open>
  Sleep locks, \<^verbatim>\<open>kernel/sleeplock.c\<close>. The \<^verbatim>\<open>while\<close> loop of \<^verbatim>\<open>acquiresleep\<close> stops in \<^verbatim>\<open>sleep\<close> and continues when the process runs again:
  \<open>acquiresleep_from\<close> is the function from the loop test on. The step relation runs any number of processes on all CPUs, each of which takes and releases
  one lock, is created, preempted, sleeps elsewhere, is killed, or is woken on any channel.
\<close>

definition upd_sleeplock :: "nat \<Rightarrow> sleeplock \<Rightarrow> kern \<Rightarrow> kern" where
  "upd_sleeplock l v k = k\<lparr>k_sleeplock := (k_sleeplock k)(l := v)\<rparr>"

definition initsleeplock :: "nat \<Rightarrow> kern \<Rightarrow> kern" where
  "initsleeplock l k = upd_sleeplock l \<lparr>sl_locked = False, sl_pid = 0\<rparr> k"

definition acquiresleep_from :: "nat \<Rightarrow> nat \<Rightarrow> kern \<Rightarrow> fault + progress \<times> kern" where
  "acquiresleep_from i l k =
     (if sl_locked (k_sleeplock k l)
      then bindE (sleep i (Chan_sleeplock l) k) (\<lambda>k. Inr (Asleep 0, k))
      else
        bindE (myproc i k) (\<lambda>p.
        bindE (kpop_off i (upd_sleeplock l \<lparr>sl_locked = True, sl_pid = p_pid (k_proc k p)\<rparr> k)) (\<lambda>k.
        Inr (Returned 0, k))))"

definition acquiresleep :: "nat \<Rightarrow> nat \<Rightarrow> kern \<Rightarrow> fault + progress \<times> kern" where
  "acquiresleep i l k = acquiresleep_from i l (kpush_off i k)"

definition releasesleep :: "nat \<Rightarrow> nat \<Rightarrow> kern \<Rightarrow> fault + kern" where
  "releasesleep i l k =
     bindE (wakeup i (Chan_sleeplock l) (upd_sleeplock l \<lparr>sl_locked = False, sl_pid = 0\<rparr> (kpush_off i k))) (kpop_off i)"

definition holdingsleep :: "nat \<Rightarrow> nat \<Rightarrow> kern \<Rightarrow> fault + bool \<times> kern" where
  "holdingsleep i l k =
     (let k = kpush_off i k; s = k_sleeplock k l in
      bindE (if sl_locked s then bindE (myproc i k) (\<lambda>p. Inr (sl_pid s = p_pid (k_proc k p))) else Inr False) (\<lambda>r.
      bindE (kpop_off i k) (\<lambda>k. Inr (r, k))))"

datatype slock_pc = Outside | Waiting | Inside

definition pc_after :: "progress \<Rightarrow> slock_pc" where
  "pc_after r = (case r of Returned _ \<Rightarrow> Inside | Asleep _ \<Rightarrow> Waiting)"

inductive slock_step :: "nat \<Rightarrow> kern \<times> (nat \<Rightarrow> slock_pc) \<Rightarrow> kern \<times> (nat \<Rightarrow> slock_pc) \<Rightarrow> bool" for l where
  lock: "on_cpu k i = Some p \<Longrightarrow> c_noff (k_cpu k i) = 0 \<Longrightarrow> pc p = Outside \<Longrightarrow> acquiresleep i l k = Inr (r, k') \<Longrightarrow>
    slock_step l (k, pc) (k', pc(p := pc_after r))"
| resume: "on_cpu k i = Some p \<Longrightarrow> c_noff (k_cpu k i) = 1 \<Longrightarrow> pc p = Waiting \<Longrightarrow> acquiresleep_from i l k = Inr (r, k') \<Longrightarrow>
    slock_step l (k, pc) (k', pc(p := pc_after r))"
| unlock: "on_cpu k i = Some p \<Longrightarrow> c_noff (k_cpu k i) = 0 \<Longrightarrow> pc p = Inside \<Longrightarrow> releasesleep i l k = Inr k' \<Longrightarrow>
    slock_step l (k, pc) (k', pc(p := Outside))"
| run: "on_cpu k i = None \<Longrightarrow> c_noff (k_cpu k i) = 0 \<Longrightarrow> dispatch i start k = Inr k' \<Longrightarrow> slock_step l (k, pc) (k', pc)"
| preempt: "on_cpu k i = Some p \<Longrightarrow> c_noff (k_cpu k i) = 0 \<Longrightarrow> yield i k = Inr k' \<Longrightarrow> slock_step l (k, pc) (k', pc)"
| elsewhere: "on_cpu k i = Some p \<Longrightarrow> c_noff (k_cpu k i) = 1 \<Longrightarrow> ch \<noteq> Chan_sleeplock l \<Longrightarrow> sleep i ch k = Inr k' \<Longrightarrow>
    slock_step l (k, pc) (k', pc)"
| spin: "slock_step l (k, pc) (kpush_off i k, pc)"
| unspin: "0 < c_noff (k_cpu k i) \<Longrightarrow> kpop_off i k = Inr k' \<Longrightarrow> slock_step l (k, pc) (k', pc)"
| born: "st_of k p = UNUSED \<Longrightarrow> p < NPROC \<Longrightarrow>
    slock_step l (k, pc) (upd_proc p (\<lambda>v. v\<lparr>p_state := RUNNABLE, p_chan := None\<rparr>) k, pc)"
| waken: "wakeup i ch k = Inr k' \<Longrightarrow> slock_step l (k, pc) (k', pc)"
| kills: "kill i pid k = Inr (r, k') \<Longrightarrow> slock_step l (k, pc) (k', pc)"

inductive slock_reach :: "nat \<Rightarrow> kern \<Rightarrow> kern \<times> (nat \<Rightarrow> slock_pc) \<Rightarrow> bool" for l k0 where
  start: "slock_reach l k0 (initsleeplock l k0, \<lambda>_. Outside)"
| step: "slock_reach l k0 s \<Longrightarrow> slock_step l s s' \<Longrightarrow> slock_reach l k0 s'"

section \<open>The invariant\<close>

text \<open>
  At most one process is inside, and exactly then the lock is marked locked; nobody sleeps on a lock that is free.
\<close>

definition one_inside :: "(nat \<Rightarrow> slock_pc) \<Rightarrow> bool \<Rightarrow> bool" where
  "one_inside pc b \<longleftrightarrow> (\<forall>p q. pc p = Inside \<longrightarrow> pc q = Inside \<longrightarrow> p = q) \<and> (b \<longleftrightarrow> (\<exists>p. pc p = Inside))"

definition sleeps_on :: "chan \<Rightarrow> kern \<Rightarrow> nat \<Rightarrow> bool" where
  "sleeps_on ch k p \<longleftrightarrow> st_of k p = SLEEPING \<and> p_chan (k_proc k p) = Some ch"

definition no_lost_wakeup :: "nat \<Rightarrow> kern \<Rightarrow> bool" where
  "no_lost_wakeup l k \<longleftrightarrow> (\<forall>p. sleeps_on (Chan_sleeplock l) k p \<longrightarrow> p < NPROC \<longrightarrow> sl_locked (k_sleeplock k l))"

definition slock_inv :: "nat \<Rightarrow> kern \<times> (nat \<Rightarrow> slock_pc) \<Rightarrow> bool" where
  "slock_inv l s \<longleftrightarrow> sched_inv (fst s) \<and> one_inside (snd s) (sl_locked (k_sleeplock (fst s) l)) \<and> no_lost_wakeup l (fst s)"

lemma sched_inv_free: "sched_inv k \<Longrightarrow> locks_free k"
  by (simp add: sched_inv_def)

lemma cpu_ok_of: "sched_inv k \<Longrightarrow> cpu_ok (k_cpu k i)"
  by (simp add: sched_inv_def locks_free_def)

lemma upd_sleeplock_fields [simp]:
  "k_proc (upd_sleeplock l v k) = k_proc k" "k_cpu (upd_sleeplock l v k) = k_cpu k"
  "k_sleeplock (upd_sleeplock l v k) = (k_sleeplock k)(l := v)"
  by (simp_all add: upd_sleeplock_def)

lemma sched_inv_upd_sleeplock [simp]: "sched_inv (upd_sleeplock l v k) = sched_inv k"
  by (simp add: sched_inv_def locks_free_def sleepers_ok_def)

lemma leave_cpu_sleeplock [simp]: "k_sleeplock (leave_cpu i p b f k) = k_sleeplock k"
  and enter_cpu_sleeplock [simp]: "k_sleeplock (enter_cpu i p k) = k_sleeplock k"
  by (simp_all add: leave_cpu_def enter_cpu_def Let_def)

lemma wakes_sleeplock: "wakes k k' \<Longrightarrow> k_sleeplock k' = k_sleeplock k"
proof -
  assume "wakes k k'"
  then have "k'\<lparr>k_proc := k_proc k, k_cpu := k_cpu k\<rparr> = k" by (simp add: wakes_def)
  from arg_cong [OF this, of k_sleeplock] show ?thesis by simp
qed

text \<open>Steps that change no sleep lock and put nobody to sleep on it keep \<open>no_lost_wakeup\<close>.\<close>

lemma no_lost_wakeup_mono:
  assumes "no_lost_wakeup l k" "sl_locked (k_sleeplock k' l) = sl_locked (k_sleeplock k l)"
    "\<And>p. sleeps_on (Chan_sleeplock l) k' p \<Longrightarrow> sleeps_on (Chan_sleeplock l) k p"
  shows "no_lost_wakeup l k'"
  using assms unfolding no_lost_wakeup_def by blast

lemma acquiresleep_from_inv:
  assumes "sched_inv k" "one_inside pc (sl_locked (k_sleeplock k l))" "no_lost_wakeup l k"
    "on_cpu k i = Some p" "c_noff (k_cpu k i) = 1" "pc p \<noteq> Inside" "acquiresleep_from i l k = Inr (r, k')"
  shows "slock_inv l (k', pc(p := pc_after r))"
proof (cases "sl_locked (k_sleeplock k l)")
  case True
  have s: "sleep i (Chan_sleeplock l) k =
      Inr (leave_cpu i p (c_intena (k_cpu k i)) (\<lambda>v. v\<lparr>p_chan := Some (Chan_sleeplock l), p_state := SLEEPING\<rparr>) k)"
    by (rule sleep_spec [OF sched_inv_free [OF assms(1)] assms(4,5)])
  have k': "k' = leave_cpu i p (c_intena (k_cpu k i)) (\<lambda>v. v\<lparr>p_chan := Some (Chan_sleeplock l), p_state := SLEEPING\<rparr>) k" "r = Asleep 0"
    using assms(7) True by (auto simp: acquiresleep_from_def s)
  have "sched_inv k'"
    unfolding k' using sched_inv_free [OF assms(1)] by (intro sched_inv_leave assms) (auto simp: locks_free_def)
  moreover have "one_inside (pc(p := Waiting)) (sl_locked (k_sleeplock k' l))"
    using assms(2,6) k' unfolding one_inside_def by auto
  ultimately show ?thesis
    using True k' by (simp add: slock_inv_def pc_after_def no_lost_wakeup_def)
next
  case False
  let ?k = "upd_sleeplock l \<lparr>sl_locked = True, sl_pid = p_pid (k_proc k p)\<rparr> k"
  have "kpop_off i ?k = Inr (popped i ?k)"
    using assms(5) cpu_ok_of [OF assms(1)] by (intro kpop_ok) auto
  then have k': "k' = popped i ?k" "r = Returned 0"
    using assms(4,7) False by (auto simp: acquiresleep_from_def myproc_def)
  have "sched_inv k'" unfolding k' using assms(1,5) by (intro sched_inv_popped) auto
  moreover have "one_inside (pc(p := Inside)) True"
    using assms(2) False unfolding one_inside_def by auto
  ultimately show ?thesis
    using k' by (simp add: slock_inv_def pc_after_def no_lost_wakeup_def)
qed

lemma releasesleep_inv:
  assumes "sched_inv k" "one_inside pc (sl_locked (k_sleeplock k l))" "on_cpu k i = Some p" "c_noff (k_cpu k i) = 0"
    "pc p = Inside" "releasesleep i l k = Inr k'"
  shows "slock_inv l (k', pc(p := Outside))"
proof -
  let ?k = "upd_sleeplock l \<lparr>sl_locked = False, sl_pid = 0\<rparr> (kpush_off i k)"
  have inv: "sched_inv ?k" using assms(1) by (simp add: sched_inv_push)
  obtain k1 where k1: "wakeup i (Chan_sleeplock l) ?k = Inr k1" "wakes ?k k1"
    "\<And>q. k_proc k1 q = (if q < NPROC \<and> Some q \<noteq> on_cpu ?k i then wake (Chan_sleeplock l) (k_proc ?k q) else k_proc ?k q)"
    by (rule wakeup_spec [OF sched_inv_free [OF inv]]) blast
  have inv1: "sched_inv k1" by (rule sched_inv_wakes [OF inv k1(2)])
  have n: "c_noff (k_cpu k1 i) = 1" using wakes_cpu [OF k1(2), of i] assms(4) by (simp add: same_cpu_def)
  then have "kpop_off i k1 = Inr (popped i k1)" using cpu_ok_of [OF inv1] by (intro kpop_ok) auto
  then have k': "k' = popped i k1" using assms(6) k1(1) by (simp add: releasesleep_def)
  have sl: "\<not> sl_locked (k_sleeplock k' l)" using wakes_sleeplock [OF k1(2)] k' by simp
  have nobody: "\<not> sleeps_on (Chan_sleeplock l) k' q" if "q < NPROC" for q
  proof (cases "q = p")
    case True
    have "st_of k p = RUNNING" using assms(1,3) running_ok_on by (fastforce simp: sched_inv_def)
    then show ?thesis using k1(3) [of p] assms(3) True k' by (simp add: sleeps_on_def)
  next
    case False
    then show ?thesis using k1(3) [of q] assms(3) that k' by (simp add: sleeps_on_def wake_def)
  qed
  have "one_inside (pc(p := Outside)) False"
    using assms(2,5) unfolding one_inside_def by auto
  moreover have "sched_inv k'" unfolding k' using inv1 n by (intro sched_inv_popped) auto
  ultimately show ?thesis using sl nobody by (auto simp: slock_inv_def no_lost_wakeup_def)
qed

lemma sleeps_on_proc: "k_proc k' p = k_proc k p \<Longrightarrow> sleeps_on ch k' p = sleeps_on ch k p"
  by (simp add: sleeps_on_def)

lemma dispatch_sleepers:
  assumes "sched_inv k" "c_noff (k_cpu k i) = 0" "dispatch i start k = Inr k'"
  shows "k_sleeplock k' = k_sleeplock k" "sleeps_on ch k' q \<Longrightarrow> sleeps_on ch k q"
proof -
  have lf: "locks_free k" by (rule sched_inv_free [OF assms(1)])
  let ?k = "if start = 0 then upd_cpu i (\<lambda>c. c\<lparr>c_intr := True\<rparr>) k else k"
  have f: "locks_free ?k" using lf assms(2) by (auto simp: locks_free_def cpu_ok_def)
  obtain k1 where k1: "wakes ?k k1" "k_proc k1 = k_proc ?k"
    "scheduler_scan i [start..<NPROC] ?k = (case List.find (\<lambda>p. st_of ?k p = RUNNABLE) [start..<NPROC] of
       None \<Rightarrow> Inr (None, k1) | Some p \<Rightarrow> Inr (Some p, picked i p k1))"
    using scan_spec [OF f] by blast
  have n: "c_noff (k_cpu k1 i) = 0"
    using wakes_cpu [OF k1(1), of i] assms(2) by (simp add: same_cpu_def)
  have "k' = (case List.find (\<lambda>p. st_of ?k p = RUNNABLE) [start..<NPROC] of None \<Rightarrow> k1 | Some p \<Rightarrow> enter_cpu i p k1)"
    using assms(3) k1(3) resume_picked [OF wakes_locks_free [OF k1(1) f] n]
    by (auto simp: dispatch_def scheduler_def split: option.splits)
  moreover have "k_sleeplock k1 = k_sleeplock k" using wakes_sleeplock [OF k1(1)] by simp
  moreover have "k_proc k1 = k_proc k" using k1(2) by simp
  ultimately show "k_sleeplock k' = k_sleeplock k" "sleeps_on ch k' q \<Longrightarrow> sleeps_on ch k q"
    by (auto simp: sleeps_on_def enter_cpu_def Let_def split: option.splits if_splits)
qed

lemma kill_sleepers:
  assumes "sched_inv k" "kill i pid k = Inr (r, k')"
  shows "sleeps_on ch k' q \<Longrightarrow> sleeps_on ch k q"
  using kill_list [OF sched_inv_free [OF assms(1)], of i pid "[0..<NPROC]"] assms(2)
  by (auto simp: kill_def sleeps_on_def slay_def split: list.splits if_splits)

lemma kill_scan_sleeplock: "kill_scan i pid ps k = Inr (r, k') \<Longrightarrow> k_sleeplock k' = k_sleeplock k"
  by (induction ps arbitrary: k)
    (auto simp: acquire_p_def release_p_def kpop_off_def Let_def bindE_def split: if_splits sum.splits)

lemma slock_inv_step: "slock_step l s s' \<Longrightarrow> slock_inv l s \<Longrightarrow> slock_inv l s'"
proof (induction rule: slock_step.induct)
  case (lock k i p pc r k')
  then show ?case
    using acquiresleep_from_inv [of "kpush_off i k" pc l i p r k']
    by (auto simp: slock_inv_def acquiresleep_def sched_inv_push no_lost_wakeup_def sleeps_on_def)
next
  case (resume k i p pc r k')
  then show ?case using acquiresleep_from_inv [of k pc l i p r k'] by (simp add: slock_inv_def)
next
  case (unlock k i p pc k')
  then show ?case using releasesleep_inv [of k pc l i p k'] by (simp add: slock_inv_def)
next
  case (run k i start k' pc)
  then show ?case
    using dispatch_sleepers [of k i start k'] sched_inv_dispatch [of k i start k'] no_lost_wakeup_mono [of l k k']
    by (auto simp: slock_inv_def)
next
  case (preempt k i p k' pc)
  then have s: "sched_inv k" by (simp add: slock_inv_def)
  have k': "k' = leave_cpu i p (c_intr (k_cpu k i)) (\<lambda>v. v\<lparr>p_state := RUNNABLE\<rparr>) k"
    using yield_spec [OF sched_inv_free [OF s] preempt(1,2)] preempt(3) by simp
  have "sched_inv k'"
    unfolding k' using sched_inv_free [OF s] by (intro sched_inv_leave s preempt) (auto simp: locks_free_def)
  moreover have "no_lost_wakeup l k'"
    by (rule no_lost_wakeup_mono [of l k]) (use preempt(4) k' in \<open>auto simp: slock_inv_def sleeps_on_def leave_cpu_def split: if_splits\<close>)
  ultimately show ?case using preempt(4) k' by (simp add: slock_inv_def)
next
  case (elsewhere k i p ch k' pc)
  then have s: "sched_inv k" by (simp add: slock_inv_def)
  have k': "k' = leave_cpu i p (c_intena (k_cpu k i)) (\<lambda>v. v\<lparr>p_chan := Some ch, p_state := SLEEPING\<rparr>) k"
    using sleep_spec [OF sched_inv_free [OF s] elsewhere(1,2)] elsewhere(4) by simp
  have "sched_inv k'"
    unfolding k' using sched_inv_free [OF s] by (intro sched_inv_leave s elsewhere) (auto simp: locks_free_def)
  moreover have "no_lost_wakeup l k'"
    by (rule no_lost_wakeup_mono [of l k]) (use elsewhere(3,5) k' in \<open>auto simp: slock_inv_def sleeps_on_def leave_cpu_def split: if_splits\<close>)
  ultimately show ?case using elsewhere(5) k' by (simp add: slock_inv_def)
next
  case (spin k pc i)
  then show ?case by (auto simp: slock_inv_def sched_inv_push no_lost_wakeup_def sleeps_on_def)
next
  case (unspin k i k' pc)
  then have "k' = popped i k" using kpop_ok [of k i] cpu_ok_of [of k i] by (simp add: slock_inv_def)
  then show ?case using unspin by (auto simp: slock_inv_def sched_inv_popped no_lost_wakeup_def sleeps_on_def)
next
  case (born k p pc)
  then show ?case
    by (auto simp: slock_inv_def sched_inv_def locks_free_def sleepers_ok_def no_lost_wakeup_def sleeps_on_def
        elim!: running_ok_states split: if_splits)
next
  case (waken i ch k k' pc)
  then have s: "sched_inv k" by (simp add: slock_inv_def)
  from wakeup_spec [OF sched_inv_free [OF s], of i ch] obtain k1 where "wakeup i ch k = Inr k1" "wakes k k1" by blast
  then have w: "wakes k k'" using waken(1) by simp
  have "sleeps_on c k' q \<Longrightarrow> sleeps_on c k q" for c q
    using wakes_proc [OF w, of q] by (auto simp: sleeps_on_def woken_def)
  then show ?case
    using waken(2) sched_inv_wakes [OF s w] wakes_sleeplock [OF w] no_lost_wakeup_mono [of l k k'] by (simp add: slock_inv_def)
next
  case (kills i pid k r k' pc)
  then have s: "sched_inv k" by (simp add: slock_inv_def)
  show ?case
    using kills(2) sched_inv_kill [OF s kills(1)] kill_sleepers [OF s kills(1)] kill_scan_sleeplock kills(1)
      no_lost_wakeup_mono [of l k k'] by (simp add: slock_inv_def kill_def)
qed

lemma slock_inv_reach:
  assumes "slock_reach l k0 s" "sched_inv k0" "\<And>p. \<not> sleeps_on (Chan_sleeplock l) k0 p"
  shows "slock_inv l s"
  using assms(1)
proof induction
  case start
  show ?case using assms(2,3) by (auto simp: slock_inv_def initsleeplock_def one_inside_def no_lost_wakeup_def sleeps_on_def)
qed (rule slock_inv_step)

lemma acquiresleep_total:
  assumes "sched_inv k" "on_cpu k i = Some p" "c_noff (k_cpu k i) = 0"
  shows "\<exists>r k'. acquiresleep i l k = Inr (r, k')"
proof -
  have s: "sched_inv (kpush_off i k)" by (rule sched_inv_push [OF assms(1)])
  show ?thesis
    using sleep_spec [OF sched_inv_free [OF s], of i p "Chan_sleeplock l"]
      kpop_ok [of "upd_sleeplock l v (kpush_off i k)" i for v] cpu_ok_of [OF s, of i] assms
    by (auto simp: acquiresleep_def acquiresleep_from_def myproc_def)
qed

lemma sched_inv_blank: "sched_inv blank_kern"
  by (simp add: sched_inv_def locks_free_def cpu_ok_def sleepers_ok_def running_ok_def zero_proc_def)

section \<open>Properties\<close>

text \<open>C6: A sleep lock works however the processes that use it are scheduled, killed and woken: at most one process is between \<^verbatim>\<open>acquiresleep\<close> and
  \<^verbatim>\<open>releasesleep\<close>, the lock is marked locked exactly when there is one, no process is asleep waiting for it while it is free (no wakeup is lost),
  and a call of \<^verbatim>\<open>acquiresleep\<close> by a process that holds no spin lock never stops the kernel.\<close>

theorem sleeplock_excludes_and_wakes:
  assumes "sched_inv k0" "\<And>p. \<not> sleeps_on (Chan_sleeplock l) k0 p" "slock_reach l k0 (k, pc)"
  shows "(pc p = Inside \<and> pc q = Inside \<longrightarrow> p = q) \<and> (sl_locked (k_sleeplock k l) \<longleftrightarrow> (\<exists>p. pc p = Inside)) \<and>
    (p < NPROC \<and> sleeps_on (Chan_sleeplock l) k p \<longrightarrow> sl_locked (k_sleeplock k l)) \<and>
    (on_cpu k i = Some p \<and> c_noff (k_cpu k i) = 0 \<longrightarrow> (\<exists>r k'. acquiresleep i l k = Inr (r, k')))"
proof -
  have "slock_inv l (k, pc)" by (rule slock_inv_reach [OF assms(3,1,2)])
  then show ?thesis
    using acquiresleep_total [of k i p l] by (simp add: slock_inv_def one_inside_def no_lost_wakeup_def) blast
qed

text \<open>Process 0 runs on CPU 0 and process 1 on CPU 1; process 0 takes the lock, and process 1 then has to wait for it.\<close>

definition both_running :: kern where
  "both_running = blank_kern\<lparr>k_proc := (\<lambda>_. zero_proc)(0 := zero_proc\<lparr>p_state := RUNNING, p_pid := 1\<rparr>, 1 := zero_proc\<lparr>p_state := RUNNING, p_pid := 2\<rparr>),
     k_cpu := (k_cpu blank_kern)(0 := \<lparr>c_proc = Some 0, c_noff = 0, c_intena = False, c_intr = True\<rparr>,
       1 := \<lparr>c_proc = Some 1, c_noff = 0, c_intena = False, c_intr = True\<rparr>)\<rparr>"

lemma both_running_inv: "sched_inv both_running"
  by (auto simp: both_running_def sched_inv_def locks_free_def cpu_ok_def sleepers_ok_def running_ok_def zero_proc_def NPROC_def)

lemma both_running_locks:
  obtains k1 k2 where "acquiresleep 0 7 (initsleeplock 7 both_running) = Inr (Returned 0, k1)" "acquiresleep 1 7 k1 = Inr (Asleep 0, k2)"
    "on_cpu k1 1 = Some 1" "c_noff (k_cpu k1 1) = 0" "sleeps_on (Chan_sleeplock 7) k2 1"
proof -
  let ?k0 = "kpush_off 0 (initsleeplock 7 both_running)"
  let ?k1 = "popped 0 (upd_sleeplock 7 \<lparr>sl_locked = True, sl_pid = 1\<rparr> ?k0)"
  have s0: "sched_inv ?k0" using both_running_inv by (simp add: initsleeplock_def sched_inv_push)
  have "c_noff (k_cpu ?k0 0) = 1" by (simp add: both_running_def initsleeplock_def kpush_off_def)
  then have "kpop_off 0 (upd_sleeplock 7 v ?k0) = Inr (popped 0 (upd_sleeplock 7 v ?k0))" "sched_inv ?k1" for v
    using cpu_ok_of [OF s0, of 0] s0 by (auto intro!: kpop_ok sched_inv_popped)
  note k1 = this
  have a1: "acquiresleep 0 7 (initsleeplock 7 both_running) = Inr (Returned 0, ?k1)"
    by (simp add: acquiresleep_def acquiresleep_from_def myproc_def k1(1)) (simp add: both_running_def initsleeplock_def kpush_off_def)
  have on: "on_cpu ?k1 1 = Some 1" "c_noff (k_cpu ?k1 1) = 0" by (simp_all add: both_running_def initsleeplock_def kpush_off_def popped_def)
  have n: "c_noff (k_cpu (kpush_off 1 ?k1) 1) = 1" "on_cpu (kpush_off 1 ?k1) 1 = Some 1" using on by (simp_all add: kpush_off_def)
  note sl = sleep_spec [OF sched_inv_free [OF sched_inv_push [OF k1(2), of 1]] n(2,1), of "Chan_sleeplock 7"]
  have "acquiresleep 1 7 ?k1 = Inr (Asleep 0, leave_cpu 1 1 (c_intena (k_cpu (kpush_off 1 ?k1) 1))
      (\<lambda>v. v\<lparr>p_chan := Some (Chan_sleeplock 7), p_state := SLEEPING\<rparr>) (kpush_off 1 ?k1))"
    using sl by (simp add: acquiresleep_def acquiresleep_from_def)
  from that [OF a1 this on] show ?thesis by (simp add: sleeps_on_def leave_cpu_def)
qed

theorem sleeplock_excludes_and_wakes_witness:
  "\<exists>k pc. slock_reach 7 both_running (k, pc) \<and> pc 0 = Inside \<and> pc 1 = Waiting \<and> sleeps_on (Chan_sleeplock 7) k 1 \<and> sl_locked (k_sleeplock k 7)"
proof -
  obtain k1 k2 where k: "acquiresleep 0 7 (initsleeplock 7 both_running) = Inr (Returned 0, k1)" "acquiresleep 1 7 k1 = Inr (Asleep 0, k2)"
    "on_cpu k1 1 = Some 1" "c_noff (k_cpu k1 1) = 0" "sleeps_on (Chan_sleeplock 7) k2 1"
    by (rule both_running_locks)
  let ?pc = "\<lambda>_ :: nat. Outside"
  have "slock_step 7 (initsleeplock 7 both_running, ?pc) (k1, ?pc(0 := pc_after (Returned 0)))"
    by (rule slock_step.lock [OF _ _ _ k(1)]) (simp_all add: both_running_def initsleeplock_def)
  moreover have "slock_step 7 (k1, ?pc(0 := pc_after (Returned 0))) (k2, ?pc(0 := pc_after (Returned 0), 1 := pc_after (Asleep 0)))"
    by (rule slock_step.lock [OF k(3,4) _ k(2)]) simp
  ultimately have r: "slock_reach 7 both_running (k2, ?pc(0 := pc_after (Returned 0), 1 := pc_after (Asleep 0)))"
    by (rule slock_reach.step [OF slock_reach.step [OF slock_reach.start]])
  have "\<not> sleeps_on (Chan_sleeplock 7) both_running p" for p by (simp add: sleeps_on_def both_running_def zero_proc_def)
  from sleeplock_excludes_and_wakes [OF both_running_inv this r, of 1 0 0] k(5) r show ?thesis
    by (auto simp: pc_after_def NPROC_def intro!: exI [of _ k2])
qed

end
