(* ===== verification/Pipe.thy ===== *)
theory Pipe
  imports Sleeplock
begin

text \<open>
  Pipes, \<^verbatim>\<open>kernel/pipe.c\<close>. The buffer is a ring of \<^verbatim>\<open>PIPESIZE\<close> bytes indexed by two 32-bit counters that wrap around. A call that finds the pipe full or
  empty sleeps; \<open>pipewrite_loop\<close> and \<open>piperead_from\<close> are the functions from the loop test on, which is where a sleeping call continues. \<open>contents\<close> is the
  abstract view of a pipe, the list of the bytes in it: writing appends to the list and reading removes from its front.

  The lock of the pipe keeps the other CPUs from the pipe while a writer is in its loop, but not from the flag \<^verbatim>\<open>killed\<close> of the writer, which \<^verbatim>\<open>kill\<close> sets under the lock of
  the process and which the loop reads for every byte. The argument \<open>env\<close> of \<open>pipewrite_loop\<close> is what the other CPUs do before that test.
\<close>

section \<open>Operations\<close>

definition pipeclose :: "machine \<Rightarrow> nat \<Rightarrow> nat \<Rightarrow> bool \<Rightarrow> kern \<Rightarrow> fault + kern" where
  "pipeclose c i pi writable k =
     (let k = kpush_off i k in
      bindE (if writable
             then wakeup i (Chan_nread pi) (upd_pipe pi (\<lambda>v. v\<lparr>writeopen := False\<rparr>) k)
             else wakeup i (Chan_nwrite pi) (upd_pipe pi (\<lambda>v. v\<lparr>readopen := False\<rparr>) k)) (\<lambda>k.
      bindE (kpop_off i k) (\<lambda>k.
      if \<not> readopen (k_pipe k pi) \<and> \<not> writeopen (k_pipe k pi)
      then bindE (kfree c pi (k_mem k)) (\<lambda>m. Inr (k\<lparr>k_mem := m\<rparr>))
      else Inr k)))"

definition pipewrite_done :: "nat \<Rightarrow> nat \<Rightarrow> nat \<Rightarrow> kern \<Rightarrow> fault + progress \<times> kern" where
  "pipewrite_done i pi j k =
     bindE (wakeup i (Chan_nread pi) k) (\<lambda>k.
     bindE (kpop_off i k) (\<lambda>k. Inr (Returned (int j), k)))"

definition pipe_put :: "byte \<Rightarrow> pipe \<Rightarrow> pipe" where
  "pipe_put ch v = v\<lparr>pi_data := (pi_data v)[unat (nwrite v) mod PIPESIZE := ch], nwrite := nwrite v + 1\<rparr>"

function pipewrite_loop :: "(nat \<Rightarrow> kern \<Rightarrow> kern) \<Rightarrow> nat \<Rightarrow> nat \<Rightarrow> nat \<Rightarrow> u64 \<Rightarrow> int \<Rightarrow> nat \<Rightarrow> kern \<Rightarrow> fault + progress \<times> kern" where
  "pipewrite_loop env i pr pi addr n j k =
     (if int j < n then
        let k = env j k in
        bindE (if \<not> readopen (k_pipe k pi) then Inr (True, k) else killed i pr k) (\<lambda>(stop, k).
        if stop then bindE (kpop_off i k) (\<lambda>k. Inr (Returned (-1), k))
        else if nwrite (k_pipe k pi) = nread (k_pipe k pi) + word_of_nat PIPESIZE
        then
          bindE (wakeup i (Chan_nread pi) k) (\<lambda>k.
          bindE (sleep i (Chan_nwrite pi) k) (\<lambda>k. Inr (Asleep j, k)))
        else
          (case copyin (p_pagetable (k_proc k pr)) (addr + word_of_nat j) 1 (k_mem k) of (r, bs) \<Rightarrow>
             if r = -1 then pipewrite_done i pi j k
             else pipewrite_loop env i pr pi addr n (j + 1) (upd_pipe pi (pipe_put (hd bs)) k)))
      else pipewrite_done i pi j k)"
  by pat_completeness auto
termination
  by (relation "measure (\<lambda>(env, i, pr, pi, addr, n, j, k). nat (n - int j))") auto

declare pipewrite_loop.simps [simp del]

definition pipewrite :: "(nat \<Rightarrow> kern \<Rightarrow> kern) \<Rightarrow> nat \<Rightarrow> nat \<Rightarrow> u64 \<Rightarrow> int \<Rightarrow> kern \<Rightarrow> fault + progress \<times> kern" where
  "pipewrite env i pi addr n k =
     bindE (myproc i k) (\<lambda>pr. pipewrite_loop env i pr pi addr n 0 (kpush_off i k))"

definition pipe_head :: "pipe \<Rightarrow> byte" where
  "pipe_head v = pi_data v ! (unat (nread v) mod PIPESIZE)"

definition pipe_get :: "pipe \<Rightarrow> pipe" where
  "pipe_get v = v\<lparr>nread := nread v + 1\<rparr>"

function piperead_loop :: "nat \<Rightarrow> nat \<Rightarrow> u64 \<Rightarrow> int \<Rightarrow> nat \<Rightarrow> kern \<Rightarrow> nat \<times> kern" where
  "piperead_loop pr pi addr n j k =
     (if int j < n then
        if nread (k_pipe k pi) = nwrite (k_pipe k pi) then (j, k)
        else
          let ch = pipe_head (k_pipe k pi); k = upd_pipe pi pipe_get k in
          (case copyout (p_pagetable (k_proc k pr)) (addr + word_of_nat j) [ch] (k_mem k) of (r, m) \<Rightarrow>
             if r = -1 then (j, k\<lparr>k_mem := m\<rparr>)
             else piperead_loop pr pi addr n (j + 1) (k\<lparr>k_mem := m\<rparr>))
      else (j, k))"
  by pat_completeness auto
termination
  by (relation "measure (\<lambda>(pr, pi, addr, n, j, k). nat (n - int j))") auto

declare piperead_loop.simps [simp del]

definition piperead_from :: "nat \<Rightarrow> nat \<Rightarrow> nat \<Rightarrow> u64 \<Rightarrow> int \<Rightarrow> kern \<Rightarrow> fault + progress \<times> kern" where
  "piperead_from i pr pi addr n k =
     (if nread (k_pipe k pi) = nwrite (k_pipe k pi) \<and> writeopen (k_pipe k pi) then
        bindE (killed i pr k) (\<lambda>(dead, k).
        if dead then bindE (kpop_off i k) (\<lambda>k. Inr (Returned (-1), k))
        else bindE (sleep i (Chan_nread pi) k) (\<lambda>k. Inr (Asleep 0, k)))
      else
        (case piperead_loop pr pi addr n 0 k of (j, k) \<Rightarrow>
           bindE (wakeup i (Chan_nwrite pi) k) (\<lambda>k.
           bindE (kpop_off i k) (\<lambda>k. Inr (Returned (int j), k)))))"

definition piperead :: "nat \<Rightarrow> nat \<Rightarrow> u64 \<Rightarrow> int \<Rightarrow> kern \<Rightarrow> fault + progress \<times> kern" where
  "piperead i pi addr n k =
     bindE (myproc i k) (\<lambda>pr. piperead_from i pr pi addr n (kpush_off i k))"

section \<open>The abstract view\<close>

definition fill :: "pipe \<Rightarrow> nat" where
  "fill v = unat (nwrite v - nread v)"

definition contents :: "pipe \<Rightarrow> byte list" where
  "contents v = map (\<lambda>m. pi_data v ! ((unat (nread v) + m) mod PIPESIZE)) [0..<fill v]"

definition pipe_ok :: "pipe \<Rightarrow> bool" where
  "pipe_ok v \<longleftrightarrow> length (pi_data v) = PIPESIZE \<and> fill v \<le> PIPESIZE"

lemma length_contents [simp]: "length (contents v) = fill v"
  by (simp add: contents_def)

lemma pipe_full_iff: "pipe_ok v \<Longrightarrow> nwrite v = nread v + word_of_nat PIPESIZE \<longleftrightarrow> fill v = PIPESIZE"
proof -
  assume "pipe_ok v"
  have "nwrite v = nread v + word_of_nat PIPESIZE \<longleftrightarrow> nwrite v - nread v = word_of_nat PIPESIZE"
    by (auto simp: algebra_simps)
  also have "\<dots> \<longleftrightarrow> fill v = PIPESIZE"
    by (simp add: fill_def word_unat_eq_iff PIPESIZE_def)
  finally show ?thesis .
qed

lemma pipe_empty_iff: "nread v = nwrite v \<longleftrightarrow> fill v = 0"
  by (auto simp: fill_def unat_eq_0)

lemma unat_add_mod_PIPESIZE: "unat ((a :: u32) + b) mod PIPESIZE = (unat a + unat b) mod PIPESIZE"
proof -
  have "unat (a + b) = (unat a + unat b) mod 2 ^ 32" by (simp add: unat_word_ariths)
  moreover have "(2 :: nat) ^ 32 = PIPESIZE * 2 ^ 23" by (simp add: PIPESIZE_def)
  ultimately show ?thesis by (simp only: mod_mult_right_eq mod_mod_cancel dvd_triv_left)
qed

lemma fill_less: "pipe_ok v \<Longrightarrow> fill v < 2 ^ 32 - 1"
  by (simp add: pipe_ok_def PIPESIZE_def)

lemma pipe_put_contents:
  assumes "pipe_ok v" "fill v < PIPESIZE"
  shows "pipe_ok (pipe_put ch v)" "contents (pipe_put ch v) = contents v @ [ch]"
proof -
  have "nwrite v + 1 - nread v = nwrite v - nread v + 1" by simp
  moreover have "unat (nwrite v - nread v + 1) = fill v + 1"
    using fill_less [OF assms(1)] by (simp add: fill_def unat_word_ariths)
  moreover have "fill (pipe_put ch v) = unat (nwrite v + 1 - nread v)" by (simp add: fill_def pipe_put_def)
  ultimately have f: "fill (pipe_put ch v) = fill v + 1" by (simp only:)
  show "pipe_ok (pipe_put ch v)"
    using assms f by (simp add: pipe_ok_def pipe_put_def)
  have "unat (nwrite v) mod PIPESIZE = (unat (nread v) + fill v) mod PIPESIZE"
    using unat_add_mod_PIPESIZE [of "nread v" "nwrite v - nread v"] by (simp add: fill_def)
  moreover have "(unat (nread v) + fill v) mod PIPESIZE \<noteq> (unat (nread v) + m) mod PIPESIZE" if "m < fill v" for m
  proof
    assume "(unat (nread v) + fill v) mod PIPESIZE = (unat (nread v) + m) mod PIPESIZE"
    then have "PIPESIZE dvd (unat (nread v) + fill v) - (unat (nread v) + m)"
      using that by (intro mod_eq_dvd_iff_nat [THEN iffD1]) auto
    with that assms(2) show False by (simp add: nat_dvd_not_less)
  qed
  ultimately show "contents (pipe_put ch v) = contents v @ [ch]"
    using assms unfolding contents_def f by (auto simp: pipe_put_def pipe_ok_def nth_list_update PIPESIZE_def)
qed

lemma pipe_get_contents:
  assumes "pipe_ok v" "fill v \<noteq> 0"
  shows "pipe_ok (pipe_get v)" "contents v = pipe_head v # contents (pipe_get v)"
proof -
  have "nwrite v - (nread v + 1) = nwrite v - nread v - 1" by simp
  moreover have "unat (nwrite v - nread v - 1) = fill v - 1"
    using assms(2) by (simp add: fill_def unat_minus_one unat_eq_0)
  moreover have "fill (pipe_get v) = unat (nwrite v - (nread v + 1))" by (simp add: fill_def pipe_get_def)
  ultimately have f: "fill (pipe_get v) = fill v - 1" by (simp only:)
  show "pipe_ok (pipe_get v)"
    using assms f by (auto simp: pipe_ok_def pipe_get_def)
  have "[0..<fill v] = 0 # map Suc [0..<fill v - 1]"
    using assms(2) by (simp add: map_Suc_upt upt_conv_Cons)
  moreover have "(unat (nread v + 1) + m) mod PIPESIZE = (unat (nread v) + Suc m) mod PIPESIZE" for m
    using unat_add_mod_PIPESIZE [of "nread v" 1] by (simp add: mod_add_left_eq [of "unat (nread v + 1)", symmetric] mod_add_left_eq)
  ultimately show "contents v = pipe_head v # contents (pipe_get v)"
    unfolding contents_def f by (simp add: pipe_head_def pipe_get_def)
qed

section \<open>Writing\<close>

lemma copyin_1:
  obtains "copyin pt a 1 m = (-1, [])" | b where "copyin pt a 1 m = (0, [b])"
proof -
  have "copyin pt a' 0 m = (0, [])" for a' by (simp add: copyin.simps)
  moreover have "PGSIZE - unat (a - PGROUNDDOWN a) \<ge> 1" using page_offset_less(1) [of a] by simp
  then have "(if PGSIZE - unat (a - PGROUNDDOWN a) > 1 then 1 else PGSIZE - unat (a - PGROUNDDOWN a)) = 1" by simp
  ultimately have "copyin pt a 1 m = (if walkaddr pt (PGROUNDDOWN a) m = 0 then (-1, [])
      else (0, load_bytes (ram m) (unat (walkaddr pt (PGROUNDDOWN a) m + (a - PGROUNDDOWN a))) 1))"
    by (subst copyin.simps) (auto simp: Let_def)
  then show ?thesis using that by (auto simp: load_bytes_def split: if_splits)
qed

definition user_bytes :: "nat \<Rightarrow> u64 \<Rightarrow> nat \<Rightarrow> kmem \<Rightarrow> byte list" where
  "user_bytes pt a n m = concat (map (\<lambda>t. snd (copyin pt (a + word_of_nat t) 1 m)) [0..<n])"

lemma user_bytes_Cons:
  assumes "copyin pt a 1 m = (0, [b])"
  shows "user_bytes pt a (Suc n) m = b # user_bytes pt (a + 1) n m"
proof -
  have "[0..<Suc n] = 0 # map Suc [0..<n]" by (simp add: map_Suc_upt upt_conv_Cons del: upt_Suc)
  then show ?thesis using assms by (simp add: user_bytes_def comp_def algebra_simps del: upt_Suc)
qed

lemma wakes_rest: "wakes k k' \<Longrightarrow> k_pipe k' = k_pipe k \<and> k_mem k' = k_mem k"
proof -
  assume "wakes k k'"
  then have "k'\<lparr>k_proc := k_proc k, k_cpu := k_cpu k\<rparr> = k" by (simp add: wakes_def)
  from arg_cong [OF this, of k_pipe] arg_cong [OF this, of k_mem] show ?thesis by simp
qed

text \<open>
  What a call that runs on CPU \<open>i\<close> for process \<open>p\<close> under the pipe's lock needs, and what it gives back: the invariant, with its own memory and the other pipes
  untouched.
\<close>

definition in_pipe :: "nat \<Rightarrow> nat \<Rightarrow> nat \<Rightarrow> kern \<Rightarrow> bool" where
  "in_pipe i p pi k \<longleftrightarrow> sched_inv k \<and> on_cpu k i = Some p \<and> c_noff (k_cpu k i) = 1 \<and> pipe_ok (k_pipe k pi)"

lemma in_pipe_wakes:
  assumes "in_pipe i p pi k" "wakes k k'"
  shows "in_pipe i p pi k'"
  using assms sched_inv_wakes [OF _ assms(2)] wakes_cpu [OF assms(2), of i] wakes_rest [OF assms(2)]
  by (auto simp: in_pipe_def same_cpu_def)

lemma leave_cpu_fields [simp]: "k_pipe (leave_cpu i p b f k) = k_pipe k" "k_mem (leave_cpu i p b f k) = k_mem k"
  by (simp_all add: leave_cpu_def)

lemma in_pipe_upd:
  assumes "in_pipe i p pi k" "pipe_ok (f (k_pipe k pi))"
  shows "in_pipe i p pi (upd_pipe pi f k)"
  using assms by (simp add: in_pipe_def sched_inv_def locks_free_def sleepers_ok_def)

lemma pipewrite_done_spec:
  assumes "in_pipe i p pi k"
  obtains k' where "pipewrite_done i pi j k = Inr (Returned (int j), k')" "sched_inv k'" "k_pipe k' = k_pipe k" "k_mem k' = k_mem k"
    "\<And>q. q < NPROC \<Longrightarrow> \<not> sleeps_on (Chan_nread pi) k' q" "\<And>ch q. sleeps_on ch k' q \<Longrightarrow> sleeps_on ch k q"
proof -
  have s: "sched_inv k" using assms by (simp add: in_pipe_def)
  obtain k1 where k1: "wakeup i (Chan_nread pi) k = Inr k1" "wakes k k1"
    "\<And>q. k_proc k1 q = (if q < NPROC \<and> Some q \<noteq> on_cpu k i then wake (Chan_nread pi) (k_proc k q) else k_proc k q)"
    by (rule wakeup_spec [OF sched_inv_free [OF s]]) blast
  have i1: "in_pipe i p pi k1" by (rule in_pipe_wakes [OF assms k1(2)])
  then have "kpop_off i k1 = Inr (popped i k1)" using cpu_ok_of by (intro kpop_ok) (auto simp: in_pipe_def)
  then have e: "pipewrite_done i pi j k = Inr (Returned (int j), popped i k1)" by (simp add: pipewrite_done_def k1(1))
  have "st_of k p = RUNNING" using s assms running_ok_on by (fastforce simp: sched_inv_def in_pipe_def)
  then have "\<not> sleeps_on (Chan_nread pi) (popped i k1) q" if "q < NPROC" for q
    using k1(3) [of q] assms that by (cases "q = p") (simp_all add: sleeps_on_def wake_def in_pipe_def)
  moreover have "sleeps_on ch (popped i k1) q \<Longrightarrow> sleeps_on ch k q" for ch q
    using wakes_proc [OF k1(2), of q] by (auto simp: sleeps_on_def woken_def)
  ultimately show ?thesis
    using that [OF e] i1 wakes_rest [OF k1(2)] sched_inv_popped [of k1 i] by (simp add: in_pipe_def)
qed

text \<open>
  What other CPUs may do while process \<open>p\<close> is in the loop of \<^verbatim>\<open>pipewrite\<close> on CPU \<open>i\<close>: anything that needs neither the lock of the pipe nor that CPU. They cannot change the
  pipe or the memory of \<open>p\<close>, and nobody falls asleep on the pipe; they may kill and wake processes, \<open>p\<close> included.
\<close>

definition meanwhile :: "nat \<Rightarrow> nat \<Rightarrow> nat \<Rightarrow> kern \<Rightarrow> kern \<Rightarrow> bool" where
  "meanwhile i p pi k k' \<longleftrightarrow> in_pipe i p pi k' \<and> k_pipe k' pi = k_pipe k pi \<and> p_pagetable (k_proc k' p) = p_pagetable (k_proc k p) \<and>
     (\<forall>a. copyin (p_pagetable (k_proc k p)) a 1 (k_mem k') = copyin (p_pagetable (k_proc k p)) a 1 (k_mem k)) \<and>
     (\<forall>q. (sleeps_on (Chan_nread pi) k' q \<longrightarrow> sleeps_on (Chan_nread pi) k q) \<and> (sleeps_on (Chan_nwrite pi) k' q \<longrightarrow> sleeps_on (Chan_nwrite pi) k q))"

lemma meanwhile_settle:
  assumes "in_pipe i p pi k"
  shows "meanwhile i p pi k (settle i k)"
  using in_pipe_wakes [OF assms wakes_settle] by (simp add: meanwhile_def sleeps_on_def)

lemma kill_scan_rest: "kill_scan i pid ps k = Inr (r, k') \<Longrightarrow> k_pipe k' = k_pipe k \<and> k_mem k' = k_mem k"
  by (induction ps arbitrary: k)
    (auto simp: acquire_p_def release_p_def kpop_off_def Let_def bindE_def split: if_splits sum.splits)

text \<open>Killing a process on another CPU is such a step.\<close>

lemma meanwhile_kill:
  assumes "in_pipe i p pi k" "kill i' pid k = Inr (r, k')"
  shows "meanwhile i p pi k k'"
proof -
  have s: "sched_inv k" using assms(1) by (simp add: in_pipe_def)
  obtain r1 k1 where k1: "kill_scan i' pid [0..<NPROC] k = Inr (r1, k1)" "\<forall>j. same_cpu (k_cpu k j) (k_cpu k1 j)"
    "case filter (\<lambda>p. p_pid (k_proc k p) = pid) [0..<NPROC] of [] \<Rightarrow> r1 = -1 \<and> k_proc k1 = k_proc k
       | p # _ \<Rightarrow> r1 = 0 \<and> k_proc k1 = (k_proc k)(p := slay (k_proc k p))"
    using kill_list [OF sched_inv_free [OF s], of i' pid "[0..<NPROC]"] by blast
  have e: "k1 = k'" using assms(2) k1(1) by (simp add: kill_def)
  have "p_pagetable (k_proc k' p) = p_pagetable (k_proc k p)" using k1(3) by (auto simp: e slay_def split: list.splits)
  moreover have "same_cpu (k_cpu k i) (k_cpu k' i)" using k1(2) e by simp
  ultimately show ?thesis
    using assms(1) sched_inv_kill [OF s assms(2)] kill_scan_rest [OF k1(1)] kill_sleepers [OF s assms(2)] e
    by (auto simp: meanwhile_def in_pipe_def same_cpu_def)
qed

lemma user_bytes_cong: "(\<And>a. copyin pt a 1 m' = copyin pt a 1 m) \<Longrightarrow> user_bytes pt a n m' = user_bytes pt a n m"
  by (simp add: user_bytes_def)

text \<open>The outcome \<open>(r, k')\<close> of writing \<open>m\<close> bytes from \<open>addr + j\<close> on.\<close>

definition wrote :: "nat \<Rightarrow> nat \<Rightarrow> u64 \<Rightarrow> int \<Rightarrow> nat \<Rightarrow> nat \<Rightarrow> kern \<Rightarrow> progress \<Rightarrow> kern \<Rightarrow> bool" where
  "wrote p pi addr n j m k r k' \<longleftrightarrow> sched_inv k' \<and> pipe_ok (k_pipe k' pi) \<and> readopen (k_pipe k' pi) = readopen (k_pipe k pi) \<and> writeopen (k_pipe k' pi) = writeopen (k_pipe k pi) \<and>
     contents (k_pipe k' pi) = contents (k_pipe k pi) @ user_bytes (p_pagetable (k_proc k p)) (addr + word_of_nat j) m (k_mem k) \<and>
     (case r of
        Returned x \<Rightarrow> x = -1 \<and> (\<not> readopen (k_pipe k' pi) \<and> m = 0 \<or> p_killed (k_proc k' p)) \<or>
          x = int (j + m) \<and> (x = max n (int j) \<or> fst (copyin (p_pagetable (k_proc k p)) (addr + word_of_nat (j + m)) 1 (k_mem k)) = -1)
      | Asleep j' \<Rightarrow> j' = j + m \<and> int j' < n \<and> fill (k_pipe k' pi) = PIPESIZE) \<and>
     (r \<noteq> Returned (-1) \<longrightarrow> (\<forall>q<NPROC. \<not> sleeps_on (Chan_nread pi) k' q)) \<and>
     (\<forall>q. sleeps_on (Chan_nread pi) k' q \<longrightarrow> sleeps_on (Chan_nread pi) k q) \<and>
     (\<forall>q. sleeps_on (Chan_nwrite pi) k' q \<longrightarrow>
        sleeps_on (Chan_nwrite pi) k q \<or> fill (k_pipe k' pi) = PIPESIZE \<and> readopen (k_pipe k' pi))"

lemma wroteD:
  assumes "wrote p pi addr n j m k r k'"
  shows "sched_inv k'" "pipe_ok (k_pipe k' pi)" "readopen (k_pipe k' pi) = readopen (k_pipe k pi)" "writeopen (k_pipe k' pi) = writeopen (k_pipe k pi)"
    "contents (k_pipe k' pi) = contents (k_pipe k pi) @ user_bytes (p_pagetable (k_proc k p)) (addr + word_of_nat j) m (k_mem k)"
    "r \<noteq> Returned (-1) \<Longrightarrow> q < NPROC \<Longrightarrow> \<not> sleeps_on (Chan_nread pi) k' q"
    "sleeps_on (Chan_nread pi) k' q \<Longrightarrow> sleeps_on (Chan_nread pi) k q"
    "sleeps_on (Chan_nwrite pi) k' q \<Longrightarrow> sleeps_on (Chan_nwrite pi) k q \<or> fill (k_pipe k' pi) = PIPESIZE \<and> readopen (k_pipe k' pi)"
    "case r of
       Returned x \<Rightarrow> x = -1 \<and> (\<not> readopen (k_pipe k' pi) \<and> m = 0 \<or> p_killed (k_proc k' p)) \<or>
         x = int (j + m) \<and> (x = max n (int j) \<or> fst (copyin (p_pagetable (k_proc k p)) (addr + word_of_nat (j + m)) 1 (k_mem k)) = -1)
     | Asleep j' \<Rightarrow> j' = j + m \<and> int j' < n \<and> fill (k_pipe k' pi) = PIPESIZE"
  using assms unfolding wrote_def by blast+

lemma wrote_meanwhile:
  assumes "meanwhile i p pi k k1" "wrote p pi addr n j m k1 r k'"
  shows "wrote p pi addr n j m k r k'"
proof -
  have c: "copyin (p_pagetable (k_proc k p)) a 1 (k_mem k1) = copyin (p_pagetable (k_proc k p)) a 1 (k_mem k)" for a
    using assms(1) by (simp add: meanwhile_def)
  have e: "k_pipe k1 pi = k_pipe k pi" "p_pagetable (k_proc k1 p) = p_pagetable (k_proc k p)" using assms(1) by (simp_all add: meanwhile_def)
  show ?thesis
    using assms(2) assms(1) [unfolded meanwhile_def] unfolding wrote_def e user_bytes_cong [OF c] c by blast
qed

lemma wrote_done:
  assumes "in_pipe i p pi k" "n \<le> int j \<or> fst (copyin (p_pagetable (k_proc k p)) (addr + word_of_nat j) 1 (k_mem k)) = -1"
  shows "\<exists>m r k'. pipewrite_done i pi j k = Inr (r, k') \<and> wrote p pi addr n j m k r k'"
proof -
  obtain k' where "pipewrite_done i pi j k = Inr (Returned (int j), k')" "sched_inv k'" "k_pipe k' = k_pipe k" "k_mem k' = k_mem k"
    "\<And>q. q < NPROC \<Longrightarrow> \<not> sleeps_on (Chan_nread pi) k' q" "\<And>ch q. sleeps_on ch k' q \<Longrightarrow> sleeps_on ch k q"
    by (rule pipewrite_done_spec [OF assms(1)]) blast
  moreover from this assms have "wrote p pi addr n j 0 k (Returned (int j)) k'"
    unfolding wrote_def by (auto simp: in_pipe_def user_bytes_def)
  ultimately show ?thesis by blast
qed

lemma wrote_asleep:
  assumes "in_pipe i p pi k" "fill (k_pipe k pi) = PIPESIZE" "readopen (k_pipe k pi)" "int j < n"
  shows "\<exists>k'. bindE (wakeup i (Chan_nread pi) k) (\<lambda>k. bindE (sleep i (Chan_nwrite pi) k) (\<lambda>k. Inr (Asleep j, k))) = Inr (Asleep j, k') \<and>
    wrote p pi addr n j 0 k (Asleep j) k'"
proof -
  have s: "sched_inv k" using assms by (simp add: in_pipe_def)
  obtain k1 where k1: "wakeup i (Chan_nread pi) k = Inr k1" "wakes k k1"
    "\<And>q. k_proc k1 q = (if q < NPROC \<and> Some q \<noteq> on_cpu k i then wake (Chan_nread pi) (k_proc k q) else k_proc k q)"
    by (rule wakeup_spec [OF sched_inv_free [OF s]]) blast
  have i1: "in_pipe i p pi k1" by (rule in_pipe_wakes [OF assms(1) k1(2)])
  then have s1: "sched_inv k1" "on_cpu k1 i = Some p" "c_noff (k_cpu k1 i) = 1" by (simp_all add: in_pipe_def)
  let ?f = "\<lambda>v. v\<lparr>p_chan := Some (Chan_nwrite pi), p_state := SLEEPING\<rparr>"
  let ?k = "leave_cpu i p (c_intena (k_cpu k1 i)) ?f k1"
  have e: "sleep i (Chan_nwrite pi) k1 = Inr ?k" by (rule sleep_spec [OF sched_inv_free [OF s1(1)] s1(2,3)])
  have "sched_inv ?k"
    using sched_inv_free [OF s1(1)] by (intro sched_inv_leave s1) (auto simp: locks_free_def)
  moreover have "\<not> sleeps_on (Chan_nread pi) ?k q" if "q < NPROC" for q
    using k1(3) [of q] assms(1) that by (cases "q = p") (auto simp: sleeps_on_def wake_def in_pipe_def leave_cpu_def)
  moreover have "sleeps_on ch ?k q \<Longrightarrow> sleeps_on ch k q \<or> ch = Chan_nwrite pi" for ch q
    using wakes_proc [OF k1(2), of q] by (cases "q = p") (auto simp: sleeps_on_def woken_def leave_cpu_def)
  moreover have "sleeps_on (Chan_nread pi) ?k q \<Longrightarrow> sleeps_on (Chan_nread pi) k q" for q
    using wakes_proc [OF k1(2), of q] by (cases "q = p") (auto simp: sleeps_on_def woken_def leave_cpu_def)
  ultimately have "wrote p pi addr n j 0 k (Asleep j) ?k"
    unfolding wrote_def using assms wakes_rest [OF k1(2)] by (auto simp: in_pipe_def user_bytes_def)
  then show ?thesis using e k1(1) by auto
qed

lemma wrote_byte:
  assumes "in_pipe i p pi k" "fill (k_pipe k pi) \<noteq> PIPESIZE" "readopen (k_pipe k pi)"
    "copyin (p_pagetable (k_proc k p)) (addr + word_of_nat j) 1 (k_mem k) = (0, [b])"
    "wrote p pi addr n (j + 1) m (upd_pipe pi (pipe_put b) k) r k'" "int j < n"
  shows "wrote p pi addr n j (Suc m) k r k'"
proof -
  let ?v = "k_pipe k pi" and ?a = "addr + word_of_nat j :: u64"
  have "pipe_ok ?v" "fill ?v < PIPESIZE" using assms(1,2) by (auto simp: in_pipe_def pipe_ok_def)
  note put = pipe_put_contents [OF this, of b]
  have "user_bytes (p_pagetable (k_proc k p)) ?a (Suc m) (k_mem k) =
      b # user_bytes (p_pagetable (k_proc k p)) (addr + word_of_nat (j + 1)) m (k_mem k)"
    unfolding user_bytes_Cons [OF assms(4)] by (simp add: algebra_simps)
  moreover have "sleeps_on ch (upd_pipe pi (pipe_put b) k) q = sleeps_on ch k q" for ch q by (simp add: sleeps_on_def)
  moreover have "readopen (pipe_put b ?v) = readopen ?v" "writeopen (pipe_put b ?v) = writeopen ?v" by (simp_all add: pipe_put_def)
  ultimately show ?thesis
    using assms(3,5,6) put unfolding wrote_def by (auto split: progress.splits)
qed

lemma wrote_nothing:
  assumes "in_pipe i p pi k" "\<not> readopen (k_pipe k pi) \<or> p_killed (k_proc k p)"
  shows "bindE (kpop_off i k) (\<lambda>k. Inr (Returned (-1), k)) = Inr (Returned (-1), popped i k)" "wrote p pi addr n j 0 k (Returned (-1)) (popped i k)"
proof -
  have "kpop_off i k = Inr (popped i k)" using assms(1) cpu_ok_of by (intro kpop_ok) (auto simp: in_pipe_def)
  then show "bindE (kpop_off i k) (\<lambda>k. Inr (Returned (-1), k)) = Inr (Returned (-1), popped i k)" by simp
  show "wrote p pi addr n j 0 k (Returned (-1)) (popped i k)"
    using assms sched_inv_popped [of k i] by (auto simp: wrote_def in_pipe_def user_bytes_def sleeps_on_def)
qed

lemma meanwhile_trans: "meanwhile i p pi a b \<Longrightarrow> meanwhile i p pi b c \<Longrightarrow> meanwhile i p pi a c"
  unfolding meanwhile_def by metis

text \<open>One pass through the body of the loop: the test of the reader and of the flag, and what follows it.\<close>

lemma pipewrite_test:
  assumes "in_pipe i p pi k" "meanwhile i p pi k (env j k)" "int j < n"
  obtains (stop) k2 where "meanwhile i p pi k k2" "\<not> readopen (k_pipe k2 pi) \<or> p_killed (k_proc k2 p)"
      "pipewrite_loop env i p pi addr n j k = bindE (kpop_off i k2) (\<lambda>k. Inr (Returned (-1), k))"
    | (pass) k2 where "meanwhile i p pi k k2" "readopen (k_pipe k2 pi)"
      "pipewrite_loop env i p pi addr n j k =
         (if nwrite (k_pipe k2 pi) = nread (k_pipe k2 pi) + word_of_nat PIPESIZE
          then bindE (wakeup i (Chan_nread pi) k2) (\<lambda>k. bindE (sleep i (Chan_nwrite pi) k) (\<lambda>k. Inr (Asleep j, k)))
          else (case copyin (p_pagetable (k_proc k2 p)) (addr + word_of_nat j) 1 (k_mem k2) of (r, bs) \<Rightarrow>
             if r = -1 then pipewrite_done i pi j k2 else pipewrite_loop env i p pi addr n (j + 1) (upd_pipe pi (pipe_put (hd bs)) k2)))"
proof -
  define k1 where "k1 = env j k"
  have m1: "meanwhile i p pi k k1" using assms(2) by (simp add: k1_def)
  then have i1: "in_pipe i p pi k1" by (simp add: meanwhile_def)
  have m2: "meanwhile i p pi k (settle i k1)" by (rule meanwhile_trans [OF m1 meanwhile_settle [OF i1]])
  have kl: "killed i p k1 = Inr (p_killed (k_proc k1 p), settle i k1)"
    using killed_spec [of k1 i p] i1 by (simp add: in_pipe_def sched_inv_free)
  note unfold = pipewrite_loop.simps [of env i p pi addr n j k, folded k1_def, unfolded Let_def]
  consider "\<not> readopen (k_pipe k1 pi)" | "readopen (k_pipe k1 pi)" "p_killed (k_proc k1 p)"
    | "readopen (k_pipe k1 pi)" "\<not> p_killed (k_proc k1 p)" by blast
  then show ?thesis
  proof cases
    case 1
    then show ?thesis using assms(3) by (intro stop [OF m1]) (simp_all add: unfold)
  next
    case 2
    then show ?thesis using assms(3) kl by (intro stop [OF m2]) (simp_all add: unfold)
  next
    case 3
    then show ?thesis using assms(3) kl by (intro pass [OF m2]) (simp_all add: unfold)
  qed
qed

lemma pipewrite_body:
  assumes "in_pipe i p pi k" "meanwhile i p pi k (env j k)" "int j < n"
  obtains (stop) m r k' where "pipewrite_loop env i p pi addr n j k = Inr (r, k')" "wrote p pi addr n j m k r k'"
    | (byte) b k2 where "meanwhile i p pi k k2" "fill (k_pipe k2 pi) \<noteq> PIPESIZE" "readopen (k_pipe k2 pi)"
      "copyin (p_pagetable (k_proc k2 p)) (addr + word_of_nat j) 1 (k_mem k2) = (0, [b])"
      "pipewrite_loop env i p pi addr n j k = pipewrite_loop env i p pi addr n (j + 1) (upd_pipe pi (pipe_put b) k2)"
proof (cases rule: pipewrite_test [where env = env and j = j and k = k and addr = addr, OF assms])
  case (1 k2)
  have i2: "in_pipe i p pi k2" using 1(1) by (simp add: meanwhile_def)
  show ?thesis using wrote_nothing(1) [OF i2 1(2)] 1(3) by (intro stop [OF _ wrote_meanwhile [OF 1(1) wrote_nothing(2) [OF i2 1(2)]]]) simp
next
  case (2 k2)
  have i2: "in_pipe i p pi k2" using 2(1) by (simp add: meanwhile_def)
  then have full: "nwrite (k_pipe k2 pi) = nread (k_pipe k2 pi) + word_of_nat PIPESIZE \<longleftrightarrow> fill (k_pipe k2 pi) = PIPESIZE"
    using pipe_full_iff by (simp add: in_pipe_def)
  show ?thesis
  proof (cases "fill (k_pipe k2 pi) = PIPESIZE")
    case True
    then show ?thesis using wrote_asleep [OF i2 True 2(2) assms(3), of addr] 2(3) full stop [OF _ wrote_meanwhile [OF 2(1)]] by auto
  next
    case False
    show ?thesis
    proof (cases rule: copyin_1 [of "p_pagetable (k_proc k2 p)" "addr + word_of_nat j" "k_mem k2"])
      case c: 1
      then show ?thesis using wrote_done [OF i2, of n j addr] 2(3) False full stop [OF _ wrote_meanwhile [OF 2(1)]] by auto
    next
      case c: (2 b)
      then show ?thesis using 2(3) False full by (intro byte [OF 2(1) False 2(2) c]) simp
    qed
  qed
qed

lemma pipewrite_loop_spec:
  assumes env: "\<forall>j k. in_pipe i p pi k \<longrightarrow> meanwhile i p pi k (env j k)" and "in_pipe i p pi k"
  shows "\<exists>m r k'. pipewrite_loop env i p pi addr n j k = Inr (r, k') \<and> wrote p pi addr n j m k r k'"
  using assms(2)
proof (induction "nat (n - int j)" arbitrary: j k rule: less_induct)
  case less
  show ?case
  proof (cases "int j < n")
    case False
    then show ?thesis using wrote_done [OF less.prems, of n j addr] by (simp add: pipewrite_loop.simps)
  next
    case True
    have mw: "meanwhile i p pi k (env j k)" using env less.prems by blast
    show ?thesis
    proof (cases rule: pipewrite_body [where env = env and j = j and k = k and addr = addr, OF less.prems mw True])
      case (2 b k2)
      have i2: "in_pipe i p pi k2" using 2(1) by (simp add: meanwhile_def)
      then have "pipe_ok (k_pipe k2 pi)" by (simp add: in_pipe_def)
      then have "in_pipe i p pi (upd_pipe pi (pipe_put b) k2)"
        using 2(2) by (intro in_pipe_upd i2 pipe_put_contents(1)) (simp_all add: pipe_ok_def)
      then obtain m r k' where e: "pipewrite_loop env i p pi addr n (j + 1) (upd_pipe pi (pipe_put b) k2) = Inr (r, k')"
          "wrote p pi addr n (j + 1) m (upd_pipe pi (pipe_put b) k2) r k'"
        using less.hyps [of "j + 1" "upd_pipe pi (pipe_put b) k2"] True by auto
      show ?thesis using wrote_meanwhile [OF 2(1) wrote_byte [OF i2 2(2-4) e(2) True]] e(1) 2(5) by auto
    qed blast
  qed
qed

text \<open>A read of a killed process returns at once.\<close>

definition gave_up :: "kern \<Rightarrow> progress \<Rightarrow> kern \<Rightarrow> bool" where
  "gave_up k r k' \<longleftrightarrow> r = Returned (-1) \<and> sched_inv k' \<and> k_mem k' = k_mem k \<and> k_pipe k' = k_pipe k \<and> k_proc k' = k_proc k"

lemma gave_up_popped:
  assumes "in_pipe i p pi k"
  shows "bindE (kpop_off i k) (\<lambda>k. Inr (Returned (-1), k)) = Inr (Returned (-1), popped i k)" "gave_up k (Returned (-1)) (popped i k)"
proof -
  have "kpop_off i k = Inr (popped i k)" using assms cpu_ok_of by (intro kpop_ok) (auto simp: in_pipe_def)
  then show "bindE (kpop_off i k) (\<lambda>k. Inr (Returned (-1), k)) = Inr (Returned (-1), popped i k)" by simp
  show "gave_up k (Returned (-1)) (popped i k)"
    using assms sched_inv_popped [of k i] by (simp add: gave_up_def in_pipe_def)
qed

lemma gave_up_settle: "gave_up (settle i k) r k' \<Longrightarrow> gave_up k r k'"
  by (simp add: gave_up_def)

section \<open>Reading\<close>

primrec deliver :: "nat \<Rightarrow> u64 \<Rightarrow> byte list \<Rightarrow> kmem \<Rightarrow> kmem" where
  "deliver pt a [] m = m"
| "deliver pt a (b # bs) m = deliver pt (a + 1) bs (snd (copyout pt a [b] m))"

text \<open>\<open>accepted\<close> holds when every byte was stored, \<open>rejected\<close> when the last one could not be.\<close>

primrec accepted :: "nat \<Rightarrow> u64 \<Rightarrow> byte list \<Rightarrow> kmem \<Rightarrow> bool" where
  "accepted pt a [] m \<longleftrightarrow> True"
| "accepted pt a (b # bs) m \<longleftrightarrow> fst (copyout pt a [b] m) \<noteq> -1 \<and> accepted pt (a + 1) bs (snd (copyout pt a [b] m))"

definition pipe_taken :: "nat \<Rightarrow> byte list \<Rightarrow> kern \<Rightarrow> kern \<Rightarrow> bool" where
  "pipe_taken pi bs k k' \<longleftrightarrow> k_proc k' = k_proc k \<and> k_cpu k' = k_cpu k \<and>
     (\<exists>v. k_pipe k' = (k_pipe k)(pi := v) \<and> pipe_ok v \<and> readopen v = readopen (k_pipe k pi) \<and> writeopen v = writeopen (k_pipe k pi) \<and>
        contents (k_pipe k pi) = bs @ contents v)"

lemma pipe_taken_none: "pipe_ok (k_pipe k pi) \<Longrightarrow> pipe_taken pi [] k k"
  unfolding pipe_taken_def by (intro conjI exI [of _ "k_pipe k pi"]) auto

lemma pipe_taken_byte:
  assumes "pipe_ok (k_pipe k pi)" "fill (k_pipe k pi) \<noteq> 0" "pipe_taken pi bs ((upd_pipe pi pipe_get k)\<lparr>k_mem := m\<rparr>) k'"
  shows "pipe_taken pi (pipe_head (k_pipe k pi) # bs) k k'"
  using assms(3) pipe_get_contents [OF assms(1,2)] by (auto simp: pipe_taken_def pipe_get_def)

lemma piperead_loop_spec:
  assumes "pipe_ok (k_pipe k pi)" "piperead_loop p pi addr n j k = (j', k')"
  shows "j \<le> j' \<and> (\<exists>bs. pipe_taken pi bs k k' \<and> k_mem k' = deliver (p_pagetable (k_proc k p)) (addr + word_of_nat j) bs (k_mem k) \<and>
    (length bs = j' - j \<and> accepted (p_pagetable (k_proc k p)) (addr + word_of_nat j) bs (k_mem k) \<and> (int j' \<ge> n \<or> fill (k_pipe k' pi) = 0) \<or>
     length bs = j' - j + 1 \<and> \<not> accepted (p_pagetable (k_proc k p)) (addr + word_of_nat j) bs (k_mem k)))"
  using assms
proof (induction "nat (n - int j)" arbitrary: j k rule: less_induct)
  case less
  let ?pt = "p_pagetable (k_proc k p)" and ?a = "addr + word_of_nat j :: u64"
  have none: "pipe_taken pi [] k k" by (rule pipe_taken_none [OF less.prems(1)])
  show ?case
  proof (cases "int j < n \<and> nread (k_pipe k pi) \<noteq> nwrite (k_pipe k pi)")
    case False
    then have "j' = j" "k' = k" "int j' \<ge> n \<or> fill (k_pipe k' pi) = 0"
      using less.prems(2) by (auto simp: piperead_loop.simps [of p pi addr n j k] pipe_empty_iff split: if_splits)
    then show ?thesis using none by (intro conjI exI [of _ "[]"]) auto
  next
    case True
    let ?b = "pipe_head (k_pipe k pi)" and ?k = "upd_pipe pi pipe_get k"
    obtain r m where co: "copyout ?pt ?a [?b] (k_mem k) = (r, m)" by fastforce
    have f: "fill (k_pipe k pi) \<noteq> 0" using True pipe_empty_iff by blast
    note get = pipe_get_contents [OF less.prems(1) f]
    have loop: "(j', k') = (if r = -1 then (j, ?k\<lparr>k_mem := m\<rparr>) else piperead_loop p pi addr n (j + 1) (?k\<lparr>k_mem := m\<rparr>))"
      using less.prems(2) True co by (simp add: piperead_loop.simps [of p pi addr n j k] Let_def)
    have none: "pipe_taken pi [] (?k\<lparr>k_mem := m\<rparr>) (?k\<lparr>k_mem := m\<rparr>)" using get(1) by (intro pipe_taken_none) simp
    show ?thesis
    proof (cases "r = -1")
      case True
      then show ?thesis
        using loop co pipe_taken_byte [OF less.prems(1) f none] by (intro conjI exI [of _ "[?b]"]) auto
    next
      case False
      from less.hyps [of "j + 1" "?k\<lparr>k_mem := m\<rparr>"] loop False True get(1)
      obtain bs where j: "j + 1 \<le> j'" and t: "pipe_taken pi bs (?k\<lparr>k_mem := m\<rparr>) k'"
        and m: "k_mem k' = deliver ?pt (addr + word_of_nat (j + 1)) bs m"
        and l: "length bs = j' - (j + 1) \<and> accepted ?pt (addr + word_of_nat (j + 1)) bs m \<and> (int j' \<ge> n \<or> fill (k_pipe k' pi) = 0) \<or>
          length bs = j' - (j + 1) + 1 \<and> \<not> accepted ?pt (addr + word_of_nat (j + 1)) bs m" by auto
      have a: "addr + word_of_nat (j + 1) = ?a + 1" by simp
      show ?thesis
        using j l m co False pipe_taken_byte [OF less.prems(1) f t] unfolding a
        by (intro conjI exI [of _ "?b # bs"]) auto
    qed
  qed
qed

text \<open>The outcome \<open>(r, k')\<close> of a read into \<open>addr\<close>: the bytes \<open>bs\<close> left the pipe, from the front, and went to the reader's memory.\<close>

definition took :: "nat \<Rightarrow> nat \<Rightarrow> u64 \<Rightarrow> int \<Rightarrow> byte list \<Rightarrow> kern \<Rightarrow> progress \<Rightarrow> kern \<Rightarrow> bool" where
  "took p pi addr n bs k r k' \<longleftrightarrow> sched_inv k' \<and> k_mem k' = deliver (p_pagetable (k_proc k p)) addr bs (k_mem k) \<and>
     (\<exists>v. k_pipe k' = (k_pipe k)(pi := v) \<and> pipe_ok v \<and> readopen v = readopen (k_pipe k pi) \<and> writeopen v = writeopen (k_pipe k pi) \<and>
        contents (k_pipe k pi) = bs @ contents v) \<and>
     (case r of
        Returned x \<Rightarrow> x = -1 \<and> bs = [] \<and> p_killed (k_proc k p) \<or>
          x = int (length bs) \<and> accepted (p_pagetable (k_proc k p)) addr bs (k_mem k) \<and> (x \<ge> n \<or> fill (k_pipe k' pi) = 0) \<or>
          x + 1 = int (length bs) \<and> \<not> accepted (p_pagetable (k_proc k p)) addr bs (k_mem k)
      | Asleep _ \<Rightarrow> bs = [] \<and> fill (k_pipe k pi) = 0 \<and> writeopen (k_pipe k pi)) \<and>
     (\<forall>q. sleeps_on (Chan_nwrite pi) k' q \<longrightarrow> q < NPROC \<longrightarrow> bs = [] \<and> sleeps_on (Chan_nwrite pi) k q) \<and>
     (\<forall>ch q. sleeps_on ch k' q \<longrightarrow> sleeps_on ch k q \<or> ch = Chan_nread pi \<and> fill (k_pipe k' pi) = 0 \<and> writeopen (k_pipe k' pi))"

lemma took_finish:
  assumes "in_pipe i p pi k" "piperead_loop p pi addr n 0 k = (j, k1)"
  shows "\<exists>bs k'. bindE (wakeup i (Chan_nwrite pi) k1) (\<lambda>k. bindE (kpop_off i k) (\<lambda>k. Inr (Returned (int j), k))) = Inr (Returned (int j), k') \<and>
    took p pi addr n bs k (Returned (int j)) k'"
proof -
  have ok: "pipe_ok (k_pipe k pi)" and s: "sched_inv k" using assms(1) by (simp_all add: in_pipe_def)
  let ?pt = "p_pagetable (k_proc k p)"
  obtain bs where t: "pipe_taken pi bs k k1" and m: "k_mem k1 = deliver ?pt addr bs (k_mem k)"
    and l: "length bs = j \<and> accepted ?pt addr bs (k_mem k) \<and> (int j \<ge> n \<or> fill (k_pipe k1 pi) = 0) \<or>
      length bs = j + 1 \<and> \<not> accepted ?pt addr bs (k_mem k)"
    using piperead_loop_spec [OF ok assms(2)] by auto
  have pr: "k_proc k1 = k_proc k" "k_cpu k1 = k_cpu k" using t by (auto simp: pipe_taken_def)
  have i1: "in_pipe i p pi k1"
    using assms(1) t by (auto simp: in_pipe_def pipe_taken_def sched_inv_def locks_free_def sleepers_ok_def)
  then have s1: "sched_inv k1" by (simp add: in_pipe_def)
  obtain k2 where k2: "wakeup i (Chan_nwrite pi) k1 = Inr k2" "wakes k1 k2"
    "\<And>q. k_proc k2 q = (if q < NPROC \<and> Some q \<noteq> on_cpu k1 i then wake (Chan_nwrite pi) (k_proc k1 q) else k_proc k1 q)"
    by (rule wakeup_spec [OF sched_inv_free [OF s1]]) blast
  have i2: "in_pipe i p pi k2" by (rule in_pipe_wakes [OF i1 k2(2)])
  then have e: "kpop_off i k2 = Inr (popped i k2)" using cpu_ok_of by (intro kpop_ok) (auto simp: in_pipe_def)
  have "st_of k p = RUNNING" using s assms(1) running_ok_on by (fastforce simp: sched_inv_def in_pipe_def)
  then have "\<not> sleeps_on (Chan_nwrite pi) (popped i k2) q" if "q < NPROC" for q
    using k2(3) [of q] assms(1) that pr by (cases "q = p") (simp_all add: sleeps_on_def wake_def in_pipe_def)
  moreover have "sleeps_on ch (popped i k2) q \<Longrightarrow> sleeps_on ch k q" for ch q
    using wakes_proc [OF k2(2), of q] pr by (auto simp: sleeps_on_def woken_def)
  moreover have "sched_inv (popped i k2)" using i2 sched_inv_popped by (simp add: in_pipe_def)
  ultimately have "took p pi addr n bs k (Returned (int j)) (popped i k2)"
    unfolding took_def using t l m wakes_rest [OF k2(2)] by (auto simp: pipe_taken_def)
  then show ?thesis using e k2(1) by auto
qed

lemma piperead_from_total:
  assumes "in_pipe i p pi k"
  shows "\<exists>r bs k'. piperead_from i p pi addr n k = Inr (r, k') \<and> took p pi addr n bs k r k'"
proof (cases "fill (k_pipe k pi) = 0 \<and> writeopen (k_pipe k pi)")
  case False
  obtain j k1 where l: "piperead_loop p pi addr n 0 k = (j, k1)" by fastforce
  then have "piperead_from i p pi addr n k =
      bindE (wakeup i (Chan_nwrite pi) k1) (\<lambda>k. bindE (kpop_off i k) (\<lambda>k. Inr (Returned (int j), k)))"
    using False by (auto simp: piperead_from_def pipe_empty_iff)
  then show ?thesis using took_finish [OF assms l] by metis
next
  case True
  have s: "sched_inv k" and ok: "pipe_ok (k_pipe k pi)" using assms by (simp_all add: in_pipe_def)
  have kl: "killed i p k = Inr (p_killed (k_proc k p), settle i k)" by (rule killed_spec [OF sched_inv_free [OF s]])
  have ik: "in_pipe i p pi (settle i k)" by (rule in_pipe_wakes [OF assms wakes_settle])
  have same: "\<exists>v. k_pipe k = (k_pipe k)(pi := v) \<and> pipe_ok v \<and> readopen v = readopen (k_pipe k pi) \<and>
      writeopen v = writeopen (k_pipe k pi) \<and> contents (k_pipe k pi) = [] @ contents v"
    using ok by (intro exI [of _ "k_pipe k pi"]) auto
  show ?thesis
  proof (cases "p_killed (k_proc k p)")
    case dead: True
    have "took p pi addr n [] k (Returned (-1)) (popped i (settle i k))"
      using gave_up_popped(2) [OF ik] dead same by (simp add: took_def gave_up_def sleeps_on_def)
    then show ?thesis
      using gave_up_popped(1) [OF ik] True kl dead by (auto simp: piperead_from_def pipe_empty_iff)
  next
    case False
    have s1: "sched_inv (settle i k)" "on_cpu (settle i k) i = Some p" "c_noff (k_cpu (settle i k) i) = 1"
      using ik by (simp_all add: in_pipe_def)
    let ?f = "\<lambda>v. v\<lparr>p_chan := Some (Chan_nread pi), p_state := SLEEPING\<rparr>"
    let ?k = "leave_cpu i p (c_intena (k_cpu (settle i k) i)) ?f (settle i k)"
    have e: "sleep i (Chan_nread pi) (settle i k) = Inr ?k" by (rule sleep_spec [OF sched_inv_free [OF s1(1)] s1(2,3)])
    have "sched_inv ?k"
      using sched_inv_free [OF s1(1)] by (intro sched_inv_leave s1) (auto simp: locks_free_def)
    moreover have "sleeps_on ch ?k q \<Longrightarrow> sleeps_on ch k q \<or> ch = Chan_nread pi" for ch q
      by (cases "q = p") (auto simp: sleeps_on_def leave_cpu_def)
    ultimately have "took p pi addr n [] k (Asleep 0) ?k"
      using True same unfolding took_def by auto
    then show ?thesis
      using True kl False e by (auto simp: piperead_from_def pipe_empty_iff)
  qed
qed

section \<open>Properties\<close>

text \<open>No reader sleeps while there is something to read, or nothing more will come; no writer sleeps while there is room, or nobody will read.\<close>

definition pipe_waits :: "nat \<Rightarrow> kern \<Rightarrow> bool" where
  "pipe_waits pi k \<longleftrightarrow> (\<forall>q<NPROC.
     (sleeps_on (Chan_nread pi) k q \<longrightarrow> contents (k_pipe k pi) = [] \<and> writeopen (k_pipe k pi)) \<and>
     (sleeps_on (Chan_nwrite pi) k q \<longrightarrow> length (contents (k_pipe k pi)) = PIPESIZE \<and> readopen (k_pipe k pi)))"

lemma fill_0_iff [simp]: "fill v = 0 \<longleftrightarrow> contents v = []"
  by (simp add: contents_def)

lemma writers_wait:
  assumes "wrote p pi addr n j m k r k'" "pipe_waits pi k" "q < NPROC" "sleeps_on (Chan_nwrite pi) k' q"
  shows "length (contents (k_pipe k' pi)) = PIPESIZE \<and> readopen (k_pipe k' pi)"
proof (cases "sleeps_on (Chan_nwrite pi) k q")
  case True
  then have l: "length (contents (k_pipe k pi)) = PIPESIZE" "readopen (k_pipe k pi)" using assms(2,3) by (auto simp: pipe_waits_def)
  have "length (contents (k_pipe k pi)) \<le> length (contents (k_pipe k' pi))" using assms(1) by (auto simp: wrote_def)
  moreover have "fill (k_pipe k' pi) \<le> PIPESIZE" "readopen (k_pipe k' pi) = readopen (k_pipe k pi)" using assms(1) by (simp_all add: wrote_def pipe_ok_def)
  ultimately show ?thesis using l by simp
next
  case False
  then show ?thesis using wroteD(8) [OF assms(1,4)] by simp
qed

lemma pipe_waits_wrote:
  assumes "wrote p pi addr n j m k r k'" "pipe_waits pi k" "r \<noteq> Returned (-1) \<or> m = 0"
  shows "pipe_waits pi k'"
  unfolding pipe_waits_def
proof (intro allI impI)
  fix q assume q: "q < NPROC"
  have "contents (k_pipe k' pi) = [] \<and> writeopen (k_pipe k' pi)" if "sleeps_on (Chan_nread pi) k' q"
  proof -
    have "r = Returned (-1)" "sleeps_on (Chan_nread pi) k q" using assms(1) q that by (auto simp: wrote_def)
    then have "contents (k_pipe k pi) = []" "writeopen (k_pipe k pi)" "m = 0" using assms(2,3) q by (auto simp: pipe_waits_def)
    then show ?thesis using assms(1) by (simp add: wrote_def user_bytes_def)
  qed
  then show "(sleeps_on (Chan_nread pi) k' q \<longrightarrow> contents (k_pipe k' pi) = [] \<and> writeopen (k_pipe k' pi)) \<and>
      (sleeps_on (Chan_nwrite pi) k' q \<longrightarrow> length (contents (k_pipe k' pi)) = PIPESIZE \<and> readopen (k_pipe k' pi))"
    using writers_wait [OF assms(1,2) q] by blast
qed

lemma pipe_waits_took:
  assumes "took p pi addr n bs k r k'" "pipe_waits pi k" "contents (k_pipe k pi) \<noteq> [] \<or> \<not> writeopen (k_pipe k pi) \<or> bs = []"
  shows "pipe_waits pi k'"
  unfolding pipe_waits_def
proof (intro allI impI conjI)
  fix q assume q: "q < NPROC"
  obtain v where v: "k_pipe k' pi = v" "readopen v = readopen (k_pipe k pi)" "writeopen v = writeopen (k_pipe k pi)"
    "contents (k_pipe k pi) = bs @ contents v"
    using assms(1) by (auto simp: took_def)
  { assume "sleeps_on (Chan_nread pi) k' q"
    then have "sleeps_on (Chan_nread pi) k q \<or> contents v = [] \<and> writeopen v" using assms(1) v(1) by (auto simp: took_def)
    then have "contents v = [] \<and> writeopen v" using assms(2) q v(3,4) by (auto simp: pipe_waits_def)
    then show "contents (k_pipe k' pi) = []" "writeopen (k_pipe k' pi)" using v(1) by auto }
  assume "sleeps_on (Chan_nwrite pi) k' q"
  then have "bs = []" "sleeps_on (Chan_nwrite pi) k q" using assms(1) q by (auto simp: took_def)
  then show "length (contents (k_pipe k' pi)) = PIPESIZE" "readopen (k_pipe k' pi)"
    using assms(2) q v by (auto simp: pipe_waits_def)
qed

lemma in_pipe_push:
  "sched_inv k \<Longrightarrow> on_cpu k i = Some p \<Longrightarrow> c_noff (k_cpu k i) = 0 \<Longrightarrow> pipe_ok (k_pipe k pi) \<Longrightarrow> in_pipe i p pi (kpush_off i k)"
  by (simp add: in_pipe_def sched_inv_push)

text \<open>An example: process 0 runs on CPU 0, inside the lock of a pipe with two bytes in it.\<close>

definition pipe_demo :: kern where
  "pipe_demo = upd_pipe 5 (\<lambda>v. v\<lparr>pi_data := 65 # 66 # replicate (PIPESIZE - 2) 0, nwrite := 2, readopen := True, writeopen := True\<rparr>)
     (upd_cpu 0 (\<lambda>c. c\<lparr>c_proc := Some 0, c_noff := 1\<rparr>) (upd_proc 0 (\<lambda>v. v\<lparr>p_state := RUNNING\<rparr>) blank_kern))"

lemma pipe_demo_contents: "contents (k_pipe pipe_demo 5) = [65, 66]" "pipe_ok (k_pipe pipe_demo 5)"
  by (simp_all add: pipe_demo_def contents_def fill_def zero_pipe_def PIPESIZE_def pipe_ok_def upt_rec)

lemma pipe_demo_ok: "in_pipe 0 0 5 pipe_demo" "pipe_waits 5 pipe_demo"
proof -
  have "sched_inv pipe_demo"
    by (auto simp: pipe_demo_def sched_inv_def locks_free_def cpu_ok_def sleepers_ok_def running_ok_def zero_proc_def NPROC_def)
  then show "in_pipe 0 0 5 pipe_demo" using pipe_demo_contents(2) by (simp add: in_pipe_def) (simp add: pipe_demo_def)
  show "pipe_waits 5 pipe_demo" by (simp add: pipe_waits_def sleeps_on_def pipe_demo_def zero_proc_def)
qed

text \<open>
  Another example: process 0 is about to write to an empty pipe for which process 1 waits, and CPU 1 kills process 0 after the first byte. Memory is filled with one
  word that is a valid page table entry.
\<close>

definition kill_before :: "nat \<Rightarrow> u32 \<Rightarrow> nat \<Rightarrow> kern \<Rightarrow> kern" where
  "kill_before m pid j k = (if j = m then case kill 1 pid k of Inl _ \<Rightarrow> k | Inr (_, k) \<Rightarrow> k else k)"

lemma kill_before_meanwhile: "in_pipe i p pi k \<Longrightarrow> meanwhile i p pi k (kill_before m pid j k)"
  using meanwhile_kill [of i p pi k 1 pid] by (auto simp: kill_before_def meanwhile_def split: sum.splits)

definition race :: kern where
  "race = (upd_pipe 5 (\<lambda>v. v\<lparr>readopen := True, writeopen := True\<rparr>) (upd_cpu 0 (\<lambda>c. c\<lparr>c_proc := Some 0, c_noff := 1\<rparr>)
     (upd_proc 0 (\<lambda>v. v\<lparr>p_state := RUNNING, p_pid := 7\<rparr>) (upd_proc 1 (\<lambda>v. v\<lparr>p_state := SLEEPING, p_chan := Some (Chan_nread 5)\<rparr>) blank_kern))))
     \<lparr>k_mem := \<lparr>freelist = 0, ram = (\<lambda>_. 17)\<rparr>\<rparr>"

lemma race_ok: "in_pipe 0 0 5 race" "pipe_waits 5 race" "contents (k_pipe race 5) = []"
proof -
  have "sched_inv race"
    by (auto simp: race_def sched_inv_def locks_free_def cpu_ok_def sleepers_ok_def running_ok_def zero_proc_def NPROC_def)
  then show "in_pipe 0 0 5 race" by (simp add: in_pipe_def) (simp add: race_def pipe_ok_def zero_pipe_def fill_def PIPESIZE_def)
  show "contents (k_pipe race 5) = []" by (simp add: race_def contents_def fill_def zero_pipe_def)
  then show "pipe_waits 5 race" by (auto simp: pipe_waits_def sleeps_on_def race_def zero_proc_def)
qed

lemma race_copyin: "copyin 0 0 1 \<lparr>freelist = 0, ram = (\<lambda>_. 17)\<rparr> = (0, [17])"
proof -
  define v :: u64 where "v = 0x1111111111111111"
  have l: "load64 (\<lambda>_. 17) a = v" for a by (simp add: v_def load64_def load_bytes_def upt_rec)
  have f: "v AND PTE_V \<noteq> 0" "v AND PTE_U \<noteq> 0" "PTE2PA v \<noteq> 0" by (simp_all add: v_def PTE_V_def PTE_U_def PTE2PA_def)
  have two: "walk_from 2 = walk_from (Suc (Suc 0))" by (simp add: numeral_2_eq_2)
  have "\<not> MAXVA \<le> 0" by (simp add: MAXVA_def)
  then have w: "walkaddr 0 0 \<lparr>freelist = 0, ram = (\<lambda>_. 17)\<rparr> = PTE2PA v"
    using f by (simp add: walkaddr_def walk_def two l Let_def unat_eq_0)
  have "copyin 0 a 0 m = (0, [])" for a m by (simp add: copyin.simps)
  then show ?thesis using w f(3) by (subst copyin.simps) (simp add: PGROUNDDOWN_def Let_def load_bytes_def PGSIZE_def)
qed

text \<open>A writer killed after its first byte returns -1 and leaves the reader asleep beside a byte it could read.\<close>

theorem killed_writer_strands_reader:
  "\<exists>k'. pipewrite_loop (kill_before 1 7) 0 0 5 0 3 0 race = Inr (Returned (-1), k') \<and> contents (k_pipe k' 5) = [17] \<and>
     sleeps_on (Chan_nread 5) k' 1 \<and> \<not> pipe_waits 5 k'"
proof -
  have lf: "locks_free race" using race_ok(1) by (simp add: in_pipe_def sched_inv_free)
  let ?k1 = "upd_pipe 5 (pipe_put 17) (settle 0 race)"
  let ?k2 = "settle 1 (upd_proc 0 slay ?k1)"
  have k0: "\<not> p_killed (k_proc race 0)" "readopen (k_pipe race 5)" "nwrite (k_pipe race 5) \<noteq> nread (k_pipe race 5) + word_of_nat PIPESIZE"
      "p_pagetable (k_proc race 0) = 0" "k_mem race = \<lparr>freelist = 0, ram = (\<lambda>_. 17)\<rparr>" "p_pid (k_proc race 0) = 7" "fill (k_pipe race 5) = 0"
    by (simp_all add: race_def zero_proc_def zero_pipe_def PIPESIZE_def fill_def)
  have first: "pipewrite_loop (kill_before 1 7) 0 0 5 0 3 0 race = pipewrite_loop (kill_before 1 7) 0 0 5 0 3 1 ?k1"
    using k0 killed_spec [OF lf, of 0 0] race_copyin by (subst pipewrite_loop.simps) (simp add: kill_before_def)
  have i1: "in_pipe 0 0 5 ?k1"
    using in_pipe_wakes [OF race_ok(1) wakes_settle] pipe_put_contents(1) [of "k_pipe race 5" 17] race_ok(1) k0(7)
    by (intro in_pipe_upd) (simp_all add: in_pipe_def PIPESIZE_def)
  then have lf1: "locks_free ?k1" by (simp add: in_pipe_def sched_inv_free)
  have "[0..<NPROC] = 0 # [1..<NPROC]" by (simp add: NPROC_def upt_conv_Cons)
  then have kl: "kill_before 1 7 1 ?k1 = ?k2" using kill_step [OF lf1, of 0 7 1] k0(6) by (simp add: kill_before_def kill_def)
  have i2: "in_pipe 0 0 5 ?k2" using kill_before_meanwhile [OF i1, of 1 7 1] unfolding kl by (simp add: meanwhile_def)
  then have lf2: "locks_free ?k2" by (simp add: in_pipe_def sched_inv_free)
  have "kpop_off 0 (settle 0 ?k2) = Inr (popped 0 (settle 0 ?k2))"
    using in_pipe_wakes [OF i2 wakes_settle] cpu_ok_of by (intro kpop_ok) (auto simp: in_pipe_def)
  then have e: "pipewrite_loop (kill_before 1 7) 0 0 5 0 3 0 race = Inr (Returned (-1), popped 0 (settle 0 ?k2))"
    using killed_spec [OF lf2, of 0 0] k0(2) unfolding first
    by (subst pipewrite_loop.simps) (simp add: kl pipe_put_def slay_def del: One_nat_def)
  moreover have "contents (k_pipe (popped 0 (settle 0 ?k2)) 5) = [17]"
    using pipe_put_contents(2) [of "k_pipe race 5" 17] race_ok k0(7) by (simp add: in_pipe_def PIPESIZE_def)
  moreover have "sleeps_on (Chan_nread 5) (popped 0 (settle 0 ?k2)) 1" by (simp add: sleeps_on_def race_def)
  ultimately show ?thesis by (auto simp: pipe_waits_def NPROC_def intro!: exI [of _ 1])
qed

text \<open>C5: Writing to a pipe is appending to a queue, whatever the other CPUs do meanwhile that does not need the lock of the pipe, killing the writer included. A call of
  \<^verbatim>\<open>pipewrite\<close>, started or continued after a sleep with \<open>j\<close> bytes already written, never stops the kernel; it appends to the pipe exactly the next \<open>m\<close> bytes of the
  caller's memory from \<open>addr + j\<close> on, although the 32-bit counters wrap around; it sleeps only with bytes left and the pipe full, and returns the count of the bytes
  written only when all \<open>n\<close> are written or the next one cannot be read. It returns -1 when the reader is gone, and then nothing was written, or when the writer
  was killed. No process is left asleep that could go on, except that a writer that is killed after it stored some bytes does not wake the readers.\<close>

theorem pipewrite_appends:
  assumes "in_pipe i p pi k" "pipe_waits pi k" "\<forall>j k. in_pipe i p pi k \<longrightarrow> meanwhile i p pi k (env j k)"
  shows "\<exists>m r k'. pipewrite_loop env i p pi addr n j k = Inr (r, k') \<and> sched_inv k' \<and> pipe_ok (k_pipe k' pi) \<and>
    contents (k_pipe k' pi) = contents (k_pipe k pi) @ user_bytes (p_pagetable (k_proc k p)) (addr + word_of_nat j) m (k_mem k) \<and>
    (case r of
       Returned x \<Rightarrow> x = -1 \<and> (\<not> readopen (k_pipe k pi) \<and> m = 0 \<or> p_killed (k_proc k' p)) \<or>
         x = int (j + m) \<and> (x = max n (int j) \<or> fst (copyin (p_pagetable (k_proc k p)) (addr + word_of_nat (j + m)) 1 (k_mem k)) = -1)
     | Asleep j' \<Rightarrow> j' = j + m \<and> int j' < n \<and> length (contents (k_pipe k' pi)) = PIPESIZE) \<and>
    (pipe_waits pi k' \<or>
     r = Returned (-1) \<and> 0 < m \<and> p_killed (k_proc k' p) \<and>
       (\<forall>q<NPROC. sleeps_on (Chan_nwrite pi) k' q \<longrightarrow> length (contents (k_pipe k' pi)) = PIPESIZE \<and> readopen (k_pipe k' pi)))"
proof -
  obtain m r k' where e: "pipewrite_loop env i p pi addr n j k = Inr (r, k')" and w: "wrote p pi addr n j m k r k'"
    using pipewrite_loop_spec [OF assms(3,1)] by blast
  note w' = wroteD [OF w]
  have "pipe_waits pi k'" if "r \<noteq> Returned (-1) \<or> m = 0" by (rule pipe_waits_wrote [OF w assms(2) that])
  moreover have "p_killed (k_proc k' p)" if "r = Returned (-1)" "0 < m" using w'(9) that by auto
  ultimately have "pipe_waits pi k' \<or> r = Returned (-1) \<and> 0 < m \<and> p_killed (k_proc k' p)" by blast
  then show ?thesis
    using e w'(1,2,5) w'(9) [unfolded w'(3)] writers_wait [OF w assms(2)] unfolding length_contents by blast
qed

theorem pipewrite_appends_witness:
  "in_pipe 0 0 5 race \<and> pipe_waits 5 race \<and>
   (\<exists>m k'. pipewrite_loop (kill_before 1 7) 0 0 5 0 3 0 race = Inr (Returned (-1), k') \<and>
      contents (k_pipe k' 5) = user_bytes (p_pagetable (k_proc race 0)) 0 m (k_mem race) \<and> 0 < m \<and> p_killed (k_proc k' 0))"
proof -
  obtain k' where k': "pipewrite_loop (kill_before 1 7) 0 0 5 0 3 0 race = Inr (Returned (-1), k')" "\<not> pipe_waits 5 k'"
    using killed_writer_strands_reader by blast
  have "\<forall>j k. in_pipe 0 0 5 k \<longrightarrow> meanwhile 0 0 5 k (kill_before 1 7 j k)" using kill_before_meanwhile by blast
  from pipewrite_appends [OF race_ok(1,2) this, of 0 3 0] k' race_ok show ?thesis by auto
qed

text \<open>C9: Reading from a pipe is taking from the front of a queue. A call of \<^verbatim>\<open>piperead\<close>, started or continued after a sleep, never stops the kernel; the bytes that
  leave the pipe are its oldest, and they are stored in this order in the caller's memory from \<open>addr\<close> on. The result counts the stored bytes; a count
  below \<open>n\<close> means that the pipe is now empty, or that a byte could not be stored, and that byte is lost. The call sleeps only on an empty pipe that can still be
  written. No process is left asleep that could go on.\<close>

theorem piperead_takes_oldest:
  assumes "in_pipe i p pi k" "pipe_waits pi k"
  shows "\<exists>r bs k'. piperead_from i p pi addr n k = Inr (r, k') \<and> sched_inv k' \<and> pipe_ok (k_pipe k' pi) \<and> pipe_waits pi k' \<and>
    contents (k_pipe k pi) = bs @ contents (k_pipe k' pi) \<and>
    k_mem k' = deliver (p_pagetable (k_proc k p)) addr bs (k_mem k) \<and>
    (case r of
       Returned x \<Rightarrow> x = -1 \<and> bs = [] \<and> p_killed (k_proc k p) \<or>
         x = int (length bs) \<and> accepted (p_pagetable (k_proc k p)) addr bs (k_mem k) \<and> (x \<ge> n \<or> contents (k_pipe k' pi) = []) \<or>
         x + 1 = int (length bs) \<and> \<not> accepted (p_pagetable (k_proc k p)) addr bs (k_mem k)
     | Asleep _ \<Rightarrow> contents (k_pipe k pi) = [] \<and> writeopen (k_pipe k pi))"
proof -
  obtain r bs k' where e: "piperead_from i p pi addr n k = Inr (r, k')" and t: "took p pi addr n bs k r k'"
    using piperead_from_total [OF assms(1)] by blast
  have "contents (k_pipe k pi) \<noteq> [] \<or> bs = []" using t by (auto simp: took_def)
  then have "pipe_waits pi k'" using pipe_waits_took [OF t assms(2)] by blast
  then show ?thesis
    using t e by (intro exI [of _ r] exI [of _ bs] exI [of _ k']) (auto simp: took_def split: progress.splits)
qed

theorem piperead_takes_oldest_witness:
  "in_pipe 0 0 5 pipe_demo \<and> pipe_waits 5 pipe_demo \<and>
   (\<exists>r bs k'. piperead_from 0 0 5 0 7 pipe_demo = Inr (r, k') \<and> [65, 66] = bs @ contents (k_pipe k' 5))"
  using piperead_takes_oldest [OF pipe_demo_ok, of 0 7] pipe_demo_ok by (auto simp: pipe_demo_contents)

end
