(* ===== verification/Console.thy ===== *)
theory Console
  imports Sleeplock
begin

text \<open>
  The UART driver, kernel \<^verbatim>\<open>printf\<close> and the console: \<^verbatim>\<open>kernel/uart.c\<close>, \<^verbatim>\<open>kernel/printf.c\<close>, \<^verbatim>\<open>kernel/console.c\<close>.

  The device is the argument \<open>busy\<close>: the \<open>n\<close>-th byte is accepted after the status register has been read \<open>busy n\<close> times since the byte before it. \<open>uart_out\<close> is
  what the device has been given and \<open>uart_polls\<close> counts the reads of the status register. A loop that waits for the device therefore ends. The input
  side is the list of bytes that the device has ready when it interrupts. After a panic the kernel does not run, so the tests of \<^verbatim>\<open>panicked\<close> are left out.
\<close>

section \<open>The UART\<close>

text \<open>The register writes of \<^verbatim>\<open>uartinit\<close>, in order.\<close>

definition uartinit :: "(nat \<times> byte) list" where
  "uartinit = [(1, 0), (3, 0x80), (0, 3), (1, 0), (3, 3), (2, 7), (1, 3)]"

definition upd_uart :: "(uart \<Rightarrow> uart) \<Rightarrow> kern \<Rightarrow> kern" where
  "upd_uart f k = k\<lparr>k_uart := f (k_uart k)\<rparr>"

definition tx_idle :: "(nat \<Rightarrow> nat) \<Rightarrow> uart \<Rightarrow> bool" where
  "tx_idle busy u \<longleftrightarrow> busy (length (uart_out u)) \<le> uart_polls u"

definition uart_thr :: "byte \<Rightarrow> uart \<Rightarrow> uart" where
  "uart_thr c u = u\<lparr>uart_out := uart_out u @ [c], uart_polls := 0\<rparr>"

definition uart_wait :: "(nat \<Rightarrow> nat) \<Rightarrow> uart \<Rightarrow> uart" where
  "uart_wait busy u = u\<lparr>uart_polls := max (uart_polls u) (busy (length (uart_out u)))\<rparr>"

definition uartputc_sync :: "(nat \<Rightarrow> nat) \<Rightarrow> nat \<Rightarrow> byte \<Rightarrow> kern \<Rightarrow> fault + kern" where
  "uartputc_sync busy i c k =
     (let k = kpush_off i k;
          k = upd_uart (uart_wait busy) k;
          k = upd_uart (uart_thr c) k
      in kpop_off i k)"

lemma wakeup1_uart: "wakeup1 i ch p k = Inr k' \<Longrightarrow> k_uart k' = k_uart k \<and> k_cons k' = k_cons k"
  by (auto simp: wakeup1_def acquire_p_def release_p_def kpop_off_def kpush_off_def bindE_def upd_cpu_def upd_proc_def Let_def
      split: if_splits sum.splits)

lemma wakeup_uart: "wakeup i ch k = Inr k' \<Longrightarrow> k_uart k' = k_uart k \<and> k_cons k' = k_cons k"
proof -
  have "forE ps (wakeup1 i ch) k = Inr k' \<Longrightarrow> k_uart k' = k_uart k \<and> k_cons k' = k_cons k" for ps
  proof (induction ps arbitrary: k)
    case (Cons p ps)
    then show ?case using wakeup1_uart [of i ch p k] by (cases "wakeup1 i ch p k") auto
  qed simp
  then show "wakeup i ch k = Inr k' \<Longrightarrow> ?thesis" by (simp add: wakeup_def)
qed

lemma word_dec_measure: "a \<noteq> (b :: 'a::len word) \<Longrightarrow> unat (a - (b + 1)) < unat (a - b)"
proof -
  assume "a \<noteq> b"
  then have "a - b \<noteq> 0" by simp
  then have "unat (a - b - 1) < unat (a - b)" by (simp add: unat_minus_one unat_gt_0)
  then show ?thesis by (simp add: diff_diff_eq)
qed

function uartstart :: "(nat \<Rightarrow> nat) \<Rightarrow> nat \<Rightarrow> kern \<Rightarrow> fault + kern" where
  "uartstart busy i k =
     (let u = k_uart k in
      if uart_tx_w u = uart_tx_r u then Inr k
      else if \<not> tx_idle busy u then Inr (upd_uart (\<lambda>u. u\<lparr>uart_polls := uart_polls u + 1\<rparr>) k)
      else
        let c = uart_tx_buf u ! (unat (uart_tx_r u) mod UART_TX_BUF_SIZE);
            k = upd_uart (\<lambda>u. u\<lparr>uart_tx_r := uart_tx_r u + 1\<rparr>) k
        in bindE (wakeup i Chan_uart k) (\<lambda>k. uartstart busy i (upd_uart (uart_thr c) k)))"
  by pat_completeness auto
termination
  by (relation "measure (\<lambda>(busy, i, k). unat (uart_tx_w (k_uart k) - uart_tx_r (k_uart k)))")
    (auto dest!: wakeup_uart simp: upd_uart_def uart_thr_def intro: word_dec_measure)

declare uartstart.simps [simp del]

definition uartputc_from :: "(nat \<Rightarrow> nat) \<Rightarrow> nat \<Rightarrow> byte \<Rightarrow> kern \<Rightarrow> fault + progress \<times> kern" where
  "uartputc_from busy i c k =
     (let u = k_uart k in
      if uart_tx_w u = uart_tx_r u + word_of_nat UART_TX_BUF_SIZE
      then bindE (sleep i Chan_uart k) (\<lambda>k. Inr (Asleep 0, k))
      else
        let k = upd_uart (\<lambda>u. u\<lparr>uart_tx_buf := (uart_tx_buf u)[unat (uart_tx_w u) mod UART_TX_BUF_SIZE := c], uart_tx_w := uart_tx_w u + 1\<rparr>) k
        in bindE (uartstart busy i k) (\<lambda>k.
           bindE (kpop_off i k) (\<lambda>k. Inr (Returned 0, k))))"

definition uartputc :: "(nat \<Rightarrow> nat) \<Rightarrow> nat \<Rightarrow> byte \<Rightarrow> kern \<Rightarrow> fault + progress \<times> kern" where
  "uartputc busy i c k = uartputc_from busy i c (kpush_off i k)"

section \<open>Console output and printf\<close>

definition BACKSPACE :: nat where "BACKSPACE = 0x100"

definition consputc :: "(nat \<Rightarrow> nat) \<Rightarrow> nat \<Rightarrow> nat \<Rightarrow> kern \<Rightarrow> fault + kern" where
  "consputc busy i c k =
     (if c = BACKSPACE
      then bindE (uartputc_sync busy i 8 k) (\<lambda>k. bindE (uartputc_sync busy i 32 k) (uartputc_sync busy i 8))
      else uartputc_sync busy i (word_of_nat c) k)"

definition hex_digits :: "byte list" where
  "hex_digits = [48, 49, 50, 51, 52, 53, 54, 55, 56, 57, 97, 98, 99, 100, 101, 102]"

function printint_buf :: "nat \<Rightarrow> nat \<Rightarrow> byte list" where
  "printint_buf b x =
     (if b < 2 then []
      else hex_digits ! (x mod b) # (if x div b \<noteq> 0 then printint_buf b (x div b) else []))"
  by pat_completeness auto
termination
  by (relation "measure (\<lambda>(b, x). x)") (auto simp: div_greater_zero_iff intro!: div_less_dividend)

declare printint_buf.simps [simp del]

definition printint :: "u32 \<Rightarrow> nat \<Rightarrow> bool \<Rightarrow> byte list" where
  "printint xx b sign =
     (let neg = sign \<and> sint xx < 0;
          x = (if neg then - xx else xx);
          buf = printint_buf b (unat x);
          buf = (if neg then buf @ [45] else buf)
      in rev buf)"

primrec printptr_digits :: "nat \<Rightarrow> u64 \<Rightarrow> byte list" where
  "printptr_digits 0 x = []"
| "printptr_digits (Suc n) x = hex_digits ! unat (drop_bit 60 x) # printptr_digits n (push_bit 4 x)"

definition printptr :: "u64 \<Rightarrow> byte list" where
  "printptr x = [48, 120] @ printptr_digits 16 x"

text \<open>The variable arguments of \<^verbatim>\<open>printf\<close>; a missing one, or one of another type than the format asks for, is undefined behaviour.\<close>

datatype parg = PInt u32 | PPtr u64 | PStr "byte list option"

fun printf_out :: "byte list \<Rightarrow> parg list \<Rightarrow> fault + byte list" where
  "printf_out [] args = Inr []"
| "printf_out (c # cs) args =
     (if c \<noteq> 37 then bindE (printf_out cs args) (\<lambda>out. Inr (c # out))
      else case cs of
        [] \<Rightarrow> Inr []
      | d # ds \<Rightarrow>
          if d = 100 then
            (case args of PInt x # rest \<Rightarrow> bindE (printf_out ds rest) (\<lambda>out. Inr (printint x 10 True @ out)) | _ \<Rightarrow> Inl (Undefined ''va_arg''))
          else if d = 120 then
            (case args of PInt x # rest \<Rightarrow> bindE (printf_out ds rest) (\<lambda>out. Inr (printint x 16 True @ out)) | _ \<Rightarrow> Inl (Undefined ''va_arg''))
          else if d = 112 then
            (case args of PPtr x # rest \<Rightarrow> bindE (printf_out ds rest) (\<lambda>out. Inr (printptr x @ out)) | _ \<Rightarrow> Inl (Undefined ''va_arg''))
          else if d = 115 then
            (case args of
               PStr s # rest \<Rightarrow>
                 bindE (printf_out ds rest) (\<lambda>out.
                 Inr ((case s of None \<Rightarrow> [40, 110, 117, 108, 108, 41] | Some t \<Rightarrow> t) @ out))
             | _ \<Rightarrow> Inl (Undefined ''va_arg''))
          else if d = 37 then bindE (printf_out ds args) (\<lambda>out. Inr (37 # out))
          else bindE (printf_out ds args) (\<lambda>out. Inr (37 # d # out)))"

definition printf :: "(nat \<Rightarrow> nat) \<Rightarrow> nat \<Rightarrow> byte list \<Rightarrow> parg list \<Rightarrow> kern \<Rightarrow> fault + kern" where
  "printf busy i fmt args k =
     bindE (printf_out fmt args) (\<lambda>out.
     bindE (forE out (\<lambda>c. consputc busy i (unat c)) (kpush_off i k)) (kpop_off i))"

text \<open>ASCII strings as byte lists.\<close>

definition ascii :: "string \<Rightarrow> byte list" where
  "ascii s = map (\<lambda>c. word_of_nat (of_char c)) s"

definition state_name :: "procstate \<Rightarrow> byte list" where
  "state_name st = ascii (case st of UNUSED \<Rightarrow> ''unused'' | USED \<Rightarrow> ''used'' | SLEEPING \<Rightarrow> ''sleep '' | RUNNABLE \<Rightarrow> ''runble''
     | RUNNING \<Rightarrow> ''run   '' | ZOMBIE \<Rightarrow> ''zombie'')"

definition procdump :: "(nat \<Rightarrow> nat) \<Rightarrow> nat \<Rightarrow> kern \<Rightarrow> fault + kern" where
  "procdump busy i k =
     bindE (printf busy i [10] [] k)
       (forE [0..<NPROC] (\<lambda>p k.
          let v = k_proc k p in
          if p_state v = UNUSED then Inr k
          else
            bindE (printf busy i (ascii ''%d %s %s'') [PInt (p_pid v), PStr (Some (state_name (p_state v))), PStr (Some (takeWhile (\<lambda>c. c \<noteq> 0) (p_name v)))] k)
              (printf busy i [10] [])))"

section \<open>Reading and writing the console\<close>

definition upd_cons :: "(console \<Rightarrow> console) \<Rightarrow> kern \<Rightarrow> kern" where
  "upd_cons f k = k\<lparr>k_cons := f (k_cons k)\<rparr>"

text \<open>
  \<^verbatim>\<open>consolewrite\<close> can sleep in \<^verbatim>\<open>uartputc\<close> with the character \<open>c\<close> in hand; \<open>consolewrite_put\<close> is where it continues.
\<close>

function consolewrite_loop :: "(nat \<Rightarrow> nat) \<Rightarrow> nat \<Rightarrow> nat \<Rightarrow> bool \<Rightarrow> u64 \<Rightarrow> int \<Rightarrow> nat \<Rightarrow> kern \<Rightarrow> fault + progress \<times> kern" where
  "consolewrite_loop busy i pt user_src src n j k =
     (if int j < n then
        (case either_copyin pt user_src (src + word_of_nat j) 1 (k_mem k) of (r, bs) \<Rightarrow>
           if r = -1 then Inr (Returned (int j), k)
           else
             bindE (uartputc busy i (hd bs) k) (\<lambda>(st, k).
             case st of Asleep _ \<Rightarrow> Inr (Asleep j, k)
             | Returned _ \<Rightarrow> consolewrite_loop busy i pt user_src src n (j + 1) k))
      else Inr (Returned (int j), k))"
  by pat_completeness auto
termination
  by (relation "measure (\<lambda>(busy, i, pt, user_src, src, n, j, k). nat (n - int j))") auto

declare consolewrite_loop.simps [simp del]

definition consolewrite :: "(nat \<Rightarrow> nat) \<Rightarrow> nat \<Rightarrow> nat \<Rightarrow> bool \<Rightarrow> u64 \<Rightarrow> int \<Rightarrow> kern \<Rightarrow> fault + progress \<times> kern" where
  "consolewrite busy i pt user_src src n k = consolewrite_loop busy i pt user_src src n 0 k"

definition consolewrite_put :: "(nat \<Rightarrow> nat) \<Rightarrow> nat \<Rightarrow> nat \<Rightarrow> bool \<Rightarrow> u64 \<Rightarrow> int \<Rightarrow> nat \<Rightarrow> byte \<Rightarrow> kern \<Rightarrow> fault + progress \<times> kern" where
  "consolewrite_put busy i pt user_src src n j c k =
     bindE (uartputc_from busy i c k) (\<lambda>(st, k).
     case st of Asleep _ \<Rightarrow> Inr (Asleep j, k)
     | Returned _ \<Rightarrow> consolewrite_loop busy i pt user_src src n (j + 1) k)"

text \<open>
  \<^verbatim>\<open>consoleread\<close> with \<open>n\<close> the requested count and \<open>j\<close> the bytes delivered so far, from the test of the outer loop on; a sleeping call continues at the inner loop,
  which the outer test precedes without effect.
\<close>

definition cons_head :: "console \<Rightarrow> byte" where
  "cons_head v = cons_buf v ! (unat (cons_r v) mod INPUT_BUF_SIZE)"

function consoleread_loop :: "nat \<Rightarrow> nat \<Rightarrow> bool \<Rightarrow> u64 \<Rightarrow> int \<Rightarrow> nat \<Rightarrow> kern \<Rightarrow> fault + progress \<times> kern" where
  "consoleread_loop i p user_dst dst n j k =
     (let finish = (\<lambda>j k. bindE (kpop_off i k) (\<lambda>k. Inr (Returned (int j), k))) in
      if int j < n then
        if cons_r (k_cons k) = cons_w (k_cons k) then
          bindE (killed i p k) (\<lambda>(dead, k).
          if dead then bindE (kpop_off i k) (\<lambda>k. Inr (Returned (-1), k))
          else bindE (sleep i Chan_cons k) (\<lambda>k. Inr (Asleep j, k)))
        else
          let c = cons_head (k_cons k);
              k = upd_cons (\<lambda>v. v\<lparr>cons_r := cons_r v + 1\<rparr>) k
          in if c = 4 then
               finish j (if j > 0 then upd_cons (\<lambda>v. v\<lparr>cons_r := cons_r v - 1\<rparr>) k else k)
             else
               (case either_copyout (p_pagetable (k_proc k p)) user_dst (dst + word_of_nat j) [c] (k_mem k) of (r, m) \<Rightarrow>
                  let k = k\<lparr>k_mem := m\<rparr> in
                  if r = -1 then finish j k
                  else if c = 10 then finish (j + 1) k
                  else consoleread_loop i p user_dst dst n (j + 1) k)
      else finish j k)"
  by pat_completeness auto
termination
  by (relation "measure (\<lambda>(i, p, user_dst, dst, n, j, k). nat (n - int j))") auto

declare consoleread_loop.simps [simp del]

definition consoleread :: "nat \<Rightarrow> bool \<Rightarrow> u64 \<Rightarrow> int \<Rightarrow> kern \<Rightarrow> fault + progress \<times> kern" where
  "consoleread i user_dst dst n k =
     bindE (myproc i k) (\<lambda>p. consoleread_loop i p user_dst dst n 0 (kpush_off i k))"

section \<open>Input\<close>

lemma consputc_cons: "consputc busy i c k = Inr k' \<Longrightarrow> k_cons k' = k_cons k"
  by (auto simp: consputc_def uartputc_sync_def kpop_off_def kpush_off_def bindE_def upd_cpu_def upd_uart_def Let_def
      split: if_splits sum.splits)

lemma word_dec_measure': "a \<noteq> (b :: 'a::len word) \<Longrightarrow> unat (a - 1 - b) < unat (a - b)"
  using word_dec_measure [of a b] by (simp add: algebra_simps)

function kill_line :: "(nat \<Rightarrow> nat) \<Rightarrow> nat \<Rightarrow> kern \<Rightarrow> fault + kern" where
  "kill_line busy i k =
     (let v = k_cons k in
      if cons_e v \<noteq> cons_w v \<and> cons_buf v ! (unat (cons_e v - 1) mod INPUT_BUF_SIZE) \<noteq> 10
      then bindE (consputc busy i BACKSPACE (upd_cons (\<lambda>v. v\<lparr>cons_e := cons_e v - 1\<rparr>) k)) (kill_line busy i)
      else Inr k)"
  by pat_completeness auto
termination
  by (relation "measure (\<lambda>(busy, i, k). unat (cons_e (k_cons k) - cons_w (k_cons k)))")
    (auto dest!: consputc_cons simp: upd_cons_def intro: word_dec_measure')

declare kill_line.simps [simp del]

definition cons_put :: "byte \<Rightarrow> console \<Rightarrow> console" where
  "cons_put c v = v\<lparr>cons_buf := (cons_buf v)[unat (cons_e v) mod INPUT_BUF_SIZE := c], cons_e := cons_e v + 1\<rparr>"

definition consoleintr :: "(nat \<Rightarrow> nat) \<Rightarrow> nat \<Rightarrow> byte \<Rightarrow> kern \<Rightarrow> fault + kern" where
  "consoleintr busy i c k =
     (let k = kpush_off i k; v = k_cons k in
      bindE
       (if c = 16 then procdump busy i k
        else if c = 21 then kill_line busy i k
        else if c = 8 \<or> c = 0x7f then
          (if cons_e v \<noteq> cons_w v then consputc busy i BACKSPACE (upd_cons (\<lambda>v. v\<lparr>cons_e := cons_e v - 1\<rparr>) k) else Inr k)
        else if c \<noteq> 0 \<and> cons_e v - cons_r v < word_of_nat INPUT_BUF_SIZE then
          let c = (if c = 13 then 10 else c) in
          bindE (consputc busy i (unat c) k) (\<lambda>k.
          let k = upd_cons (cons_put c) k; v = k_cons k in
          if c = 10 \<or> c = 4 \<or> cons_e v - cons_r v = word_of_nat INPUT_BUF_SIZE
          then wakeup i Chan_cons (upd_cons (\<lambda>v. v\<lparr>cons_w := cons_e v\<rparr>) k)
          else Inr k)
        else Inr k)
       (kpop_off i))"

definition uartintr :: "(nat \<Rightarrow> nat) \<Rightarrow> nat \<Rightarrow> byte list \<Rightarrow> kern \<Rightarrow> fault + kern" where
  "uartintr busy i rx k =
     bindE (forE rx (consoleintr busy i) k) (\<lambda>k.
     bindE (uartstart busy i (kpush_off i k)) (kpop_off i))"

definition consoleinit :: "kern \<Rightarrow> kern" where
  "consoleinit k = k\<lparr>k_devsw := [CONSOLE]\<rparr>"

section \<open>The line editor\<close>

text \<open>
  The input buffer is a ring indexed by 32-bit counters. Its contents are two lists: the committed input \<open>pending\<close>, which \<^verbatim>\<open>consoleread\<close> takes from, and the
  line being edited \<open>edit\<close>. \<open>edit_char\<close> is what an input byte does to them.
\<close>

definition ring_bytes :: "nat \<Rightarrow> byte list \<Rightarrow> u32 \<Rightarrow> nat \<Rightarrow> byte list" where
  "ring_bytes N xs a n = map (\<lambda>m. xs ! ((unat a + m) mod N)) [0..<n]"

definition cons_all :: "console \<Rightarrow> byte list" where
  "cons_all v = ring_bytes INPUT_BUF_SIZE (cons_buf v) (cons_r v) (unat (cons_e v - cons_r v))"

definition pending :: "console \<Rightarrow> byte list" where
  "pending v = take (unat (cons_w v - cons_r v)) (cons_all v)"

definition edit :: "console \<Rightarrow> byte list" where
  "edit v = drop (unat (cons_w v - cons_r v)) (cons_all v)"

definition cons_ok :: "console \<Rightarrow> bool" where
  "cons_ok v \<longleftrightarrow> length (cons_buf v) = INPUT_BUF_SIZE \<and> unat (cons_e v - cons_r v) \<le> INPUT_BUF_SIZE \<and>
     unat (cons_w v - cons_r v) \<le> unat (cons_e v - cons_r v) \<and> 10 \<notin> set (edit v)"

definition edit_char :: "byte \<Rightarrow> byte list \<times> byte list \<Rightarrow> byte list \<times> byte list" where
  "edit_char c = (\<lambda>(pend, ed).
     if c = 16 then (pend, ed)
     else if c = 21 then (pend, [])
     else if c = 8 \<or> c = 0x7f then (pend, butlast ed)
     else if c \<noteq> 0 \<and> length (pend @ ed) < INPUT_BUF_SIZE then
       let ed = ed @ [if c = 13 then 10 else c]
       in if last ed = 10 \<or> last ed = 4 \<or> length (pend @ ed) = INPUT_BUF_SIZE then (pend @ ed, []) else (pend, ed)
     else (pend, ed))"

lemma length_ring [simp]: "length (ring_bytes N xs a n) = n"
  by (simp add: ring_bytes_def)

lemma take_ring: "n \<le> m \<Longrightarrow> take n (ring_bytes N xs a m) = ring_bytes N xs a n"
  by (simp add: ring_bytes_def take_map)

lemma unat_add_mod_dvd: "N dvd 2 ^ 32 \<Longrightarrow> unat ((a :: u32) + b) mod N = (unat a + unat b) mod N"
  by (simp add: unat_word_ariths mod_mod_cancel)

lemma ring_put:
  assumes "length xs = N" "N dvd 2 ^ 32" "n < N" "n < 2 ^ 32"
  shows "ring_bytes N (xs[unat (a + word_of_nat n) mod N := c]) a (Suc n) = ring_bytes N xs a n @ [c]"
proof -
  have i: "unat (a + word_of_nat n) mod N = (unat a + n) mod N"
    using assms(4) by (simp add: unat_add_mod_dvd [OF assms(2)] unat_of_nat take_bit_eq_mod)
  have "(unat a + n) mod N \<noteq> (unat a + m) mod N" if "m < n" for m
  proof
    assume "(unat a + n) mod N = (unat a + m) mod N"
    then have "N dvd (unat a + n) - (unat a + m)" using that by (intro mod_eq_dvd_iff_nat [THEN iffD1]) auto
    with that assms(3) show False by (simp add: nat_dvd_not_less)
  qed
  then show ?thesis
    using assms(1,3) unfolding ring_bytes_def i by (auto simp: nth_list_update mod_less_divisor)
qed

lemma view_split: "cons_all v = pending v @ edit v"
  by (simp add: pending_def edit_def)

lemma length_view:
  "unat (cons_w v - cons_r v) \<le> unat (cons_e v - cons_r v) \<Longrightarrow> length (pending v) = unat (cons_w v - cons_r v)"
  "length (edit v) = unat (cons_e v - cons_r v) - unat (cons_w v - cons_r v)"
  by (simp_all add: pending_def edit_def cons_all_def)

text \<open>Dropping the last byte of the edited line.\<close>

lemma erase_view:
  assumes "cons_ok v" "cons_e v \<noteq> cons_w v"
  shows "edit v \<noteq> []" "cons_ok (v\<lparr>cons_e := cons_e v - 1\<rparr>)" "pending (v\<lparr>cons_e := cons_e v - 1\<rparr>) = pending v"
    "edit (v\<lparr>cons_e := cons_e v - 1\<rparr>) = butlast (edit v)"
proof -
  let ?v = "v\<lparr>cons_e := cons_e v - 1\<rparr>"
  let ?w = "unat (cons_w v - cons_r v)" and ?e = "unat (cons_e v - cons_r v)"
  have "cons_e v - cons_r v \<noteq> cons_w v - cons_r v" using assms(2) by simp
  then have lt: "?w < ?e" using assms(1) by (simp add: cons_ok_def word_unat_eq_iff)
  then have "cons_e v - cons_r v \<noteq> 0" by auto
  then have "unat (cons_e v - cons_r v - 1) = ?e - 1" by (simp add: unat_minus_one)
  then have e: "unat (cons_e ?v - cons_r ?v) = ?e - 1" by (simp add: diff_right_commute)
  have all: "cons_all ?v = butlast (cons_all v)"
    unfolding cons_all_def e using take_ring [of "?e - 1" ?e] by (simp add: butlast_conv_take)
  show ne: "edit v \<noteq> []" using lt by (simp add: edit_def cons_all_def)
  show p: "pending ?v = pending v"
  proof -
    have "?w \<le> ?e - 1" using lt by simp
    then show ?thesis unfolding pending_def all by (simp add: cons_all_def butlast_conv_take min_def)
  qed
  show ed: "edit ?v = butlast (edit v)" unfolding edit_def all by (simp add: drop_butlast)
  show "cons_ok ?v"
    using assms(1) lt e ed by (auto simp: cons_ok_def dest: in_set_butlastD)
qed

lemma put_view:
  assumes "cons_ok v" "unat (cons_e v - cons_r v) < INPUT_BUF_SIZE"
  shows "cons_all (cons_put c v) = cons_all v @ [c]" "unat (cons_e (cons_put c v) - cons_r v) = Suc (unat (cons_e v - cons_r v))"
proof -
  let ?n = "unat (cons_e v - cons_r v)"
  have "cons_e v + 1 - cons_r v = cons_e v - cons_r v + 1" by simp
  moreover have "unat (cons_e v - cons_r v + 1) = Suc ?n"
    using assms(2) by (simp add: unat_word_ariths INPUT_BUF_SIZE_def)
  ultimately have n: "unat (cons_e v + 1 - cons_r v) = Suc ?n" by (simp only:)
  then show "unat (cons_e (cons_put c v) - cons_r v) = Suc ?n" by (simp add: cons_put_def)
  have "cons_e v = cons_r v + word_of_nat ?n" by simp
  then have "ring_bytes INPUT_BUF_SIZE ((cons_buf v)[unat (cons_e v) mod INPUT_BUF_SIZE := c]) (cons_r v) (Suc ?n) =
      ring_bytes INPUT_BUF_SIZE (cons_buf v) (cons_r v) ?n @ [c]"
    using ring_put [of "cons_buf v" INPUT_BUF_SIZE ?n "cons_r v" c] assms by (simp add: cons_ok_def INPUT_BUF_SIZE_def)
  then show "cons_all (cons_put c v) = cons_all v @ [c]"
    using n by (simp add: cons_all_def cons_put_def)
qed

text \<open>Printing changes nothing but the device, and never stops the kernel.\<close>

definition only_prints :: "kern \<Rightarrow> kern \<Rightarrow> bool" where
  "only_prints k k' \<longleftrightarrow> k_cons k' = k_cons k \<and> k_proc k' = k_proc k \<and> (\<forall>j. same_cpu (k_cpu k j) (k_cpu k' j))"

lemma only_prints_refl [simp]: "only_prints k k"
  by (simp add: only_prints_def)

lemma only_prints_trans: "only_prints a b \<Longrightarrow> only_prints b c \<Longrightarrow> only_prints a c"
  by (auto simp: only_prints_def intro: same_cpu_trans)

lemma only_prints_cpu: "only_prints k k' \<Longrightarrow> cpu_ok (k_cpu k i) \<Longrightarrow> cpu_ok (k_cpu k' i)"
  using same_cpu_ok by (simp add: only_prints_def) blast

lemma only_prints_inv:
  assumes "only_prints k k'" "sched_inv k"
  shows "sched_inv k'"
proof (rule sched_inv_cpus [OF assms(2)])
  show "k_proc k' = k_proc k" using assms(1) by (simp add: only_prints_def)
  show "on_cpu k' i = on_cpu k i" for i using assms(1) by (simp add: only_prints_def same_cpu_def)
  show "cpu_ok (k_cpu k' i)" for i by (rule only_prints_cpu [OF assms(1) cpu_ok_of [OF assms(2)]])
qed

lemma locked_section:
  assumes "cpu_ok (k_cpu k i)" "only_prints (kpush_off i k) k1"
  shows "\<exists>k'. kpop_off i k1 = Inr k' \<and> only_prints k k'"
proof -
  have c: "same_cpu (k_cpu (kpush_off i k) j) (k_cpu k1 j)" for j using assms(2) by (simp add: only_prints_def)
  have ok: "cpu_ok (k_cpu k1 i)" by (rule only_prints_cpu [OF assms(2)]) (rule cpu_ok_push [OF assms(1)])
  have "0 < c_noff (k_cpu k1 i)" using c [of i] assms(1) by (simp add: same_cpu_def cpu_ok_def)
  then have "kpop_off i k1 = Inr (popped i k1)" by (rule kpop_ok [OF ok])
  moreover have "same_cpu (k_cpu k j) (k_cpu (popped i k1) j)" for j
    using c [of j] assms(1) by (auto simp: same_cpu_def popped_def kpush_off_def cpu_ok_def Let_def split: if_splits)
  then have "only_prints k (popped i k1)" using assms(2) by (simp add: only_prints_def popped_def upd_cpu_def kpush_off_def)
  ultimately show ?thesis by blast
qed

lemma uartputc_sync_total:
  assumes "cpu_ok (k_cpu k i)"
  shows "\<exists>k'. uartputc_sync busy i c k = Inr k' \<and> only_prints k k'"
  unfolding uartputc_sync_def Let_def
  by (rule locked_section [OF assms]) (simp add: only_prints_def upd_uart_def)

lemma consputc_total:
  assumes "cpu_ok (k_cpu k i)"
  shows "\<exists>k'. consputc busy i c k = Inr k' \<and> only_prints k k'"
proof (cases "c = BACKSPACE")
  case True
  obtain k1 where k1: "uartputc_sync busy i 8 k = Inr k1" "only_prints k k1" using uartputc_sync_total [OF assms] by blast
  obtain k2 where k2: "uartputc_sync busy i 32 k1 = Inr k2" "only_prints k1 k2"
    using uartputc_sync_total [OF only_prints_cpu [OF k1(2) assms]] by blast
  obtain k3 where "uartputc_sync busy i 8 k2 = Inr k3" "only_prints k2 k3"
    using uartputc_sync_total [OF only_prints_cpu [OF k2(2) only_prints_cpu [OF k1(2) assms]]] by blast
  with k1 k2 show ?thesis
    using only_prints_trans [OF only_prints_trans [OF k1(2) k2(2)]] True by (auto simp: consputc_def)
next
  case False
  then show ?thesis using uartputc_sync_total [OF assms] by (simp add: consputc_def)
qed

lemma forE_prints:
  assumes "\<And>x k. cpu_ok (k_cpu k i) \<Longrightarrow> \<exists>k'. f x k = Inr k' \<and> only_prints k k'"
  shows "cpu_ok (k_cpu k i) \<Longrightarrow> \<exists>k'. forE xs f k = Inr k' \<and> only_prints k k'"
proof (induction xs arbitrary: k)
  case (Cons x xs)
  obtain k1 where k1: "f x k = Inr k1" "only_prints k k1" using assms Cons.prems by blast
  obtain k2 where "forE xs f k1 = Inr k2" "only_prints k1 k2" using Cons.IH only_prints_cpu [OF k1(2) Cons.prems] by blast
  with k1 show ?case using only_prints_trans by auto
qed simp

lemma printf_total:
  assumes "cpu_ok (k_cpu k i)" "printf_out fmt args = Inr out"
  shows "\<exists>k'. printf busy i fmt args k = Inr k' \<and> only_prints k k'"
proof -
  obtain k1 where "forE out (\<lambda>c. consputc busy i (unat c)) (kpush_off i k) = Inr k1" "only_prints (kpush_off i k) k1"
    using forE_prints [of i "\<lambda>c. consputc busy i (unat c)" "kpush_off i k" out] consputc_total cpu_ok_push [OF assms(1)] by blast
  then show ?thesis using locked_section [OF assms(1)] assms(2) by (auto simp: printf_def)
qed

lemma procdump_format: "\<exists>out. printf_out (ascii ''%d %s %s'') [PInt a, PStr (Some b), PStr (Some c)] = Inr out"
  by (simp add: ascii_def of_char_def)

lemma procdump_total:
  assumes "cpu_ok (k_cpu k i)"
  shows "\<exists>k'. procdump busy i k = Inr k' \<and> only_prints k k'"
proof -
  have nl: "\<exists>k'. printf busy i [10] [] k = Inr k' \<and> only_prints k k'" if "cpu_ok (k_cpu k i)" for k
    by (rule printf_total [OF that, of _ _ "[10]"]) simp
  let ?f = "\<lambda>p k. let v = k_proc k p in if p_state v = UNUSED then Inr k
    else bindE (printf busy i (ascii ''%d %s %s'') [PInt (p_pid v), PStr (Some (state_name (p_state v))), PStr (Some (takeWhile (\<lambda>c. c \<noteq> 0) (p_name v)))] k)
      (printf busy i [10] [])"
  have body: "\<exists>k'. ?f p k = Inr k' \<and> only_prints k k'" if c: "cpu_ok (k_cpu k i)" for p k
  proof (cases "p_state (k_proc k p) = UNUSED")
    case False
    obtain k1 where k1: "printf busy i (ascii ''%d %s %s'') [PInt (p_pid (k_proc k p)), PStr (Some (state_name (p_state (k_proc k p)))),
        PStr (Some (takeWhile (\<lambda>c. c \<noteq> 0) (p_name (k_proc k p))))] k = Inr k1" "only_prints k k1"
      using printf_total [OF c] procdump_format by metis
    then show ?thesis using nl [OF only_prints_cpu [OF k1(2) c]] False only_prints_trans by (auto simp: Let_def)
  qed (auto simp: Let_def)
  have loop: "\<exists>k'. forE ps ?f k = Inr k' \<and> only_prints k k'" if "cpu_ok (k_cpu k i)" for k ps
    by (rule forE_prints [OF body that])
  obtain k1 where k1: "printf busy i [10] [] k = Inr k1" "only_prints k k1" using nl [OF assms] by blast
  show ?thesis
    using loop [OF only_prints_cpu [OF k1(2) assms], of "[0..<NPROC]"] k1 only_prints_trans by (auto simp: procdump_def)
qed

lemma kill_line_total:
  assumes "cpu_ok (k_cpu k i)" "cons_ok (k_cons k)"
  shows "\<exists>k'. kill_line busy i k = Inr k' \<and> only_prints (k\<lparr>k_cons := k_cons k'\<rparr>) k' \<and> cons_ok (k_cons k') \<and>
    pending (k_cons k') = pending (k_cons k) \<and> edit (k_cons k') = []"
  using assms
proof (induction busy i k rule: kill_line.induct)
  case (1 busy i k)
  let ?v = "k_cons k"
  show ?case
  proof (cases "cons_e ?v = cons_w ?v")
    case True
    then have "edit ?v = []" using length_view(2) [of ?v] by (metis diff_self_eq_0 length_0_conv)
    then show ?thesis using True 1(3) by (simp add: kill_line.simps)
  next
    case False
    note er = erase_view [OF 1(3) False]
    have "last (edit ?v) \<noteq> 10" using er(1) 1(3) by (auto simp: cons_ok_def dest: last_in_set)
    moreover have "last (edit ?v) = cons_buf ?v ! (unat (cons_e ?v - 1) mod INPUT_BUF_SIZE)"
    proof -
      let ?n = "unat (cons_e ?v - cons_r ?v)"
      have n: "0 < ?n" using er(1) by (auto simp: edit_def cons_all_def)
      have "last (edit ?v) = last (cons_all ?v)" using er(1) by (simp add: view_split)
      also have "\<dots> = cons_buf ?v ! ((unat (cons_r ?v) + (?n - 1)) mod INPUT_BUF_SIZE)"
        using n by (simp add: cons_all_def ring_bytes_def last_map)
      also have "(unat (cons_r ?v) + (?n - 1)) mod INPUT_BUF_SIZE = unat (cons_e ?v - 1) mod INPUT_BUF_SIZE"
      proof -
        have "?n - 1 = unat (cons_e ?v - cons_r ?v - 1)" using n by (simp add: unat_minus_one unat_gt_0)
        then show ?thesis
          using unat_add_mod_dvd [of INPUT_BUF_SIZE "cons_r ?v" "cons_e ?v - cons_r ?v - 1"] by (simp add: INPUT_BUF_SIZE_def)
      qed
      finally show ?thesis .
    qed
    ultimately have go: "cons_e ?v \<noteq> cons_w ?v \<and> cons_buf ?v ! (unat (cons_e ?v - 1) mod INPUT_BUF_SIZE) \<noteq> 10" using False by simp
    let ?k = "upd_cons (\<lambda>v. v\<lparr>cons_e := cons_e v - 1\<rparr>) k"
    have "cpu_ok (k_cpu ?k i)" using 1(2) by (simp add: upd_cons_def)
    then obtain k1 where k1: "consputc busy i BACKSPACE ?k = Inr k1" "only_prints ?k k1" using consputc_total by blast
    have c1: "k_cons k1 = ?v\<lparr>cons_e := cons_e ?v - 1\<rparr>" using k1(2) by (simp add: only_prints_def upd_cons_def)
    have "cpu_ok (k_cpu k1 i)" by (rule only_prints_cpu [OF k1(2)]) fact
    then obtain k' where k': "kill_line busy i k1 = Inr k'" "only_prints (k1\<lparr>k_cons := k_cons k'\<rparr>) k'" "cons_ok (k_cons k')"
      "pending (k_cons k') = pending (k_cons k1)" "edit (k_cons k') = []"
      using 1(1) [OF refl go k1(1)] er(2) c1 by auto
    have "only_prints (k\<lparr>k_cons := k_cons k'\<rparr>) k'"
      using k1(2) k'(2) unfolding only_prints_def upd_cons_def by (auto intro: same_cpu_trans)
    then show ?thesis
      using k' c1 er(3) go k1(1) by (subst kill_line.simps) (simp add: Let_def)
  qed
qed

text \<open>No reader sleeps while there is committed input.\<close>

definition cons_waits :: "kern \<Rightarrow> bool" where
  "cons_waits k \<longleftrightarrow> (\<forall>q. q < NPROC \<and> sleeps_on Chan_cons k q \<longrightarrow> pending (k_cons k) = [])"

lemma intr_finish:
  assumes "sched_inv k" "only_prints ((kpush_off i k)\<lparr>k_cons := v\<rparr>) k1"
  shows "\<exists>k'. kpop_off i k1 = Inr k' \<and> sched_inv k' \<and> k_proc k' = k_proc k \<and> k_cons k' = v"
proof -
  let ?k = "k\<lparr>k_cons := v\<rparr>"
  have s: "sched_inv ?k" using assms(1) by (rule sched_inv_cpus) (auto intro: cpu_ok_of [OF assms(1)])
  have "kpush_off i ?k = (kpush_off i k)\<lparr>k_cons := v\<rparr>" by (simp add: kpush_off_def upd_cpu_def Let_def)
  then have "only_prints (kpush_off i ?k) k1" using assms(2) by simp
  then obtain k' where "kpop_off i k1 = Inr k'" "only_prints ?k k'"
    using locked_section cpu_ok_of [OF s] by blast
  moreover from this(2) have "sched_inv k'" using s by (rule only_prints_inv)
  ultimately show ?thesis by (auto simp: only_prints_def)
qed

lemma intr_wake_finish:
  assumes "sched_inv k" "only_prints ((kpush_off i k)\<lparr>k_cons := v\<rparr>) k1"
  shows "\<exists>k'. bindE (wakeup i Chan_cons k1) (kpop_off i) = Inr k' \<and> sched_inv k' \<and> k_cons k' = v \<and>
    (\<forall>q. q < NPROC \<longrightarrow> \<not> sleeps_on Chan_cons k' q)"
proof -
  have "sched_inv ((kpush_off i k)\<lparr>k_cons := v\<rparr>)"
    using sched_inv_push [OF assms(1), of i] by (rule sched_inv_cpus) (auto intro: cpu_ok_of [OF sched_inv_push [OF assms(1)]])
  then have s1: "sched_inv k1" using assms(2) only_prints_inv by blast
  obtain k2 where k2: "wakeup i Chan_cons k1 = Inr k2" "wakes k1 k2"
    "\<And>q. k_proc k2 q = (if q < NPROC \<and> Some q \<noteq> on_cpu k1 i then wake Chan_cons (k_proc k1 q) else k_proc k1 q)"
    by (rule wakeup_spec [OF sched_inv_free [OF s1]]) blast
  have s2: "sched_inv k2" by (rule sched_inv_wakes [OF s1 k2(2)])
  have "c_noff (k_cpu k1 i) = c_noff (k_cpu k i) + 1" using assms(2) by (simp add: only_prints_def same_cpu_def)
  then have n: "0 < c_noff (k_cpu k2 i)"
    using wakes_cpu [OF k2(2), of i] cpu_ok_of [OF assms(1), of i] by (simp add: same_cpu_def cpu_ok_def)
  then have e: "kpop_off i k2 = Inr (popped i k2)" by (rule kpop_ok [OF cpu_ok_of [OF s2]])
  have "\<not> sleeps_on Chan_cons (popped i k2) q" if "q < NPROC" for q
  proof (cases "Some q = on_cpu k1 i")
    case True
    then have "st_of k1 q = RUNNING"
      using s1 running_ok_on [of "on_cpu k1" "st_of k1" i q] by (simp add: sched_inv_def)
    then show ?thesis using k2(3) [of q] True by (simp add: sleeps_on_def)
  next
    case False
    then show ?thesis using k2(3) [of q] that by (simp add: sleeps_on_def wake_def)
  qed
  moreover have "k_cons (popped i k2) = v"
    using wakeup_uart [OF k2(1)] assms(2) by (simp add: only_prints_def popped_def upd_cpu_def)
  ultimately show ?thesis using e k2(1) sched_inv_popped [OF s2 n] by auto
qed

lemma cons_waits_keep:
  assumes "cons_waits k" "k_proc k' = k_proc k" "pending (k_cons k') = pending (k_cons k)"
  shows "cons_waits k'"
  using assms by (simp add: cons_waits_def sleeps_on_def)

text \<open>Storing a byte, without and with committing the line.\<close>

lemma store_view:
  assumes "cons_ok v" "length (pending v @ edit v) < INPUT_BUF_SIZE"
  shows "pending (cons_put c v) = pending v" "edit (cons_put c v) = edit v @ [c]"
    "c \<noteq> 10 \<Longrightarrow> cons_ok (cons_put c v)"
    "pending ((cons_put c v)\<lparr>cons_w := cons_e (cons_put c v)\<rparr>) = pending v @ edit v @ [c]"
    "edit ((cons_put c v)\<lparr>cons_w := cons_e (cons_put c v)\<rparr>) = []"
    "cons_ok ((cons_put c v)\<lparr>cons_w := cons_e (cons_put c v)\<rparr>)"
    "cons_e (cons_put c v) - cons_r (cons_put c v) = word_of_nat INPUT_BUF_SIZE \<longleftrightarrow> length (pending v @ edit v @ [c]) = INPUT_BUF_SIZE"
proof -
  let ?u = "cons_put c v" and ?n = "unat (cons_e v - cons_r v)"
  have le: "unat (cons_w v - cons_r v) \<le> ?n" using assms(1) by (simp add: cons_ok_def)
  have n: "?n = length (pending v @ edit v)" using length_view [of v] le by simp
  then have lt: "?n < INPUT_BUF_SIZE" using assms(2) by simp
  note put = put_view [OF assms(1) lt, of c]
  have f: "cons_r ?u = cons_r v" "cons_w ?u = cons_w v" "length (cons_buf ?u) = length (cons_buf v)" by (simp_all add: cons_put_def)
  have la: "length (cons_all v) = ?n" by (simp add: cons_all_def)
  show p: "pending ?u = pending v" using le la by (simp add: pending_def put(1) f)
  show e: "edit ?u = edit v @ [c]" using le la by (simp add: edit_def put(1) f)
  show "cons_ok ?u" if "c \<noteq> 10"
    using assms(1) lt le put(2) f e that by (auto simp: cons_ok_def)
  let ?c = "?u\<lparr>cons_w := cons_e ?u\<rparr>"
  have all: "cons_all ?c = cons_all v @ [c]" using put(1) by (simp add: cons_all_def)
  have w: "unat (cons_w ?c - cons_r ?c) = Suc ?n" using put(2) f by simp
  show "pending ?c = pending v @ edit v @ [c]" 
  proof -
    have "pending ?c = cons_all v @ [c]" unfolding pending_def all w using la by simp
    then show ?thesis using view_split [of v] by simp
  qed
  show ec: "edit ?c = []" unfolding edit_def all w using la by simp
  show "cons_ok ?c" using assms(1) lt put(2) f ec by (simp add: cons_ok_def)
  show "cons_e ?u - cons_r ?u = word_of_nat INPUT_BUF_SIZE \<longleftrightarrow> length (pending v @ edit v @ [c]) = INPUT_BUF_SIZE"
  proof -
    have "unat (cons_e ?u - cons_r ?u) = Suc ?n" using put(2) f(1) by (simp only:)
    then show ?thesis using n by (simp add: word_unat_eq_iff [where v = "cons_e ?u - cons_r ?u"] INPUT_BUF_SIZE_def)
  qed
qed

lemma input_room:
  "cons_ok v \<Longrightarrow> (cons_e v - cons_r v < word_of_nat INPUT_BUF_SIZE) = (length (pending v @ edit v) < INPUT_BUF_SIZE)"
  using length_view [of v] by (simp add: cons_ok_def word_less_nat_alt INPUT_BUF_SIZE_def)

lemma consoleintr_stores:
  assumes "sched_inv k" "cons_ok (k_cons k)" "cons_waits k" "c \<noteq> 0" "length (pending (k_cons k) @ edit (k_cons k)) < INPUT_BUF_SIZE"
    "c \<notin> {16, 21, 8, 0x7f}"
  shows "\<exists>k'. consoleintr busy i c k = Inr k' \<and> sched_inv k' \<and> cons_ok (k_cons k') \<and> cons_waits k' \<and>
    (pending (k_cons k'), edit (k_cons k')) = edit_char c (pending (k_cons k), edit (k_cons k))"
proof -
  let ?k = "kpush_off i k" and ?v = "k_cons k" and ?d = "if c = 13 then 10 else c"
  have kc: "k_cons ?k = ?v" by (simp add: kpush_off_def upd_cpu_def)
  obtain k1 where k1: "consputc busy i (unat ?d) ?k = Inr k1" "only_prints ?k k1"
    using consputc_total [OF cpu_ok_push [OF cpu_ok_of [OF assms(1)]]] by blast
  have c1: "k_cons k1 = ?v" using k1(2) kc by (simp add: only_prints_def)
  have room: "cons_e ?v - cons_r ?v < word_of_nat INPUT_BUF_SIZE" using input_room [OF assms(2)] assms(5) by simp
  note st = store_view [OF assms(2,5), of ?d]
  let ?u = "cons_put ?d ?v"
  let ?w = "?u\<lparr>cons_w := cons_e ?u\<rparr>"
  let ?commit = "?d = 10 \<or> ?d = 4 \<or> cons_e ?u - cons_r ?u = word_of_nat INPUT_BUF_SIZE"
  have pr: "only_prints (?k\<lparr>k_cons := v\<rparr>) (k1\<lparr>k_cons := v\<rparr>)" for v using k1(2) by (simp add: only_prints_def)
  have run: "consoleintr busy i c k = bindE (if ?commit then wakeup i Chan_cons (k1\<lparr>k_cons := ?w\<rparr>) else Inr (k1\<lparr>k_cons := ?u\<rparr>)) (kpop_off i)"
    using assms(4,6) k1(1) c1 kc room by (simp add: consoleintr_def Let_def upd_cons_def)
  show ?thesis
  proof (cases ?commit)
    case True
    obtain k' where k': "bindE (wakeup i Chan_cons (k1\<lparr>k_cons := ?w\<rparr>)) (kpop_off i) = Inr k'" "sched_inv k'" "k_cons k' = ?w"
      "\<forall>q. q < NPROC \<longrightarrow> \<not> sleeps_on Chan_cons k' q"
      using intr_wake_finish [OF assms(1) pr] by blast
    have "edit_char c (pending ?v, edit ?v) = (pending ?v @ edit ?v @ [?d], [])"
      using True st(7) assms(4-6) by (auto simp: edit_char_def Let_def)
    then show ?thesis using k' run True st(4-6) by (intro exI [of _ k']) (simp add: cons_waits_def)
  next
    case False
    have "edit_char c (pending ?v, edit ?v) = (pending ?v, edit ?v @ [?d])"
      using False st(7) assms(4-6) by (auto simp: edit_char_def Let_def)
    moreover obtain k' where "kpop_off i (k1\<lparr>k_cons := ?u\<rparr>) = Inr k'" "sched_inv k'" "k_proc k' = k_proc k" "k_cons k' = ?u"
      using intr_finish [OF assms(1) pr] by blast
    ultimately show ?thesis
      using run False st(1-3) cons_waits_keep [OF assms(3), of k'] by (intro exI [of _ k']) simp
  qed
qed

section \<open>Properties\<close>

text \<open>C11: The console input handler is a line editor. For every input byte \<^verbatim>\<open>consoleintr\<close> ends without stopping the kernel, keeps the indices of the input ring consistent
  although they wrap around, and changes the committed input and the edited line exactly as \<open>edit_char\<close> says: control-U drops the line, backspace and delete its
  last byte, any other byte is appended while the buffer has room (carriage return as newline), and a newline, an end-of-file byte or a full buffer commits the
  line. A reader that slept for input is not left asleep when there is some.\<close>

theorem consoleintr_edits_line:
  assumes "sched_inv k" "cons_ok (k_cons k)" "cons_waits k"
  shows "\<exists>k'. consoleintr busy i c k = Inr k' \<and> sched_inv k' \<and> cons_ok (k_cons k') \<and> cons_waits k' \<and>
    (pending (k_cons k'), edit (k_cons k')) = edit_char c (pending (k_cons k), edit (k_cons k))"
proof -
  let ?k = "kpush_off i k" and ?v = "k_cons k"
  have kc: "k_cons ?k = ?v" by (simp add: kpush_off_def upd_cpu_def)
  have same: "only_prints (?k\<lparr>k_cons := ?v\<rparr>) ?k" using kc by (simp add: only_prints_def)
  have ok: "cpu_ok (k_cpu ?k i)" by (rule cpu_ok_push [OF cpu_ok_of [OF assms(1)]])
  have fin: "\<exists>k'. bindE body (kpop_off i) = Inr k' \<and> sched_inv k' \<and> cons_ok (k_cons k') \<and> cons_waits k' \<and>
      (pending (k_cons k'), edit (k_cons k')) = (pending ?v, ed)"
    if "body = Inr k1" "only_prints (?k\<lparr>k_cons := k_cons k1\<rparr>) k1" "cons_ok (k_cons k1)" "pending (k_cons k1) = pending ?v" "edit (k_cons k1) = ed"
    for body k1 ed
    using intr_finish [OF assms(1) that(2)] that(1,3-5) cons_waits_keep [OF assms(3)] by auto
  have room: "(cons_e ?v - cons_r ?v < word_of_nat INPUT_BUF_SIZE) = (length (pending ?v @ edit ?v) < INPUT_BUF_SIZE)"
    by (rule input_room [OF assms(2)])
  consider "c = 16" | "c = 21" | "c = 8 \<or> c = 0x7f" | "c = 0 \<or> \<not> length (pending ?v @ edit ?v) < INPUT_BUF_SIZE" "c \<notin> {16, 21, 8, 0x7f}"
    | "c \<noteq> 0" "length (pending ?v @ edit ?v) < INPUT_BUF_SIZE" "c \<notin> {16, 21, 8, 0x7f}" by blast
  then show ?thesis
  proof cases
    case 1
    obtain k1 where "procdump busy i ?k = Inr k1" "only_prints ?k k1" using procdump_total [OF ok] by blast
    then show ?thesis
      using fin [of "procdump busy i ?k" k1 "edit ?v"] 1 assms(2) kc by (simp add: consoleintr_def edit_char_def only_prints_def)
  next
    case 2
    obtain k1 where "kill_line busy i ?k = Inr k1" "only_prints (?k\<lparr>k_cons := k_cons k1\<rparr>) k1" "cons_ok (k_cons k1)"
      "pending (k_cons k1) = pending ?v" "edit (k_cons k1) = []"
      using kill_line_total [OF ok, of busy] assms(2) unfolding kc by blast
    then show ?thesis using fin [of "kill_line busy i ?k" k1 "[]"] 2 by (simp add: consoleintr_def edit_char_def)
  next
    case 3
    show ?thesis
    proof (cases "cons_e ?v = cons_w ?v")
      case True
      then have "edit ?v = []" using length_view(2) [of ?v] by (metis diff_self_eq_0 length_0_conv)
      then show ?thesis
        using fin [of "Inr ?k" ?k "edit ?v"] same 3 True assms(2) kc by (auto simp: consoleintr_def edit_char_def)
    next
      case False
      let ?k1 = "upd_cons (\<lambda>v. v\<lparr>cons_e := cons_e v - 1\<rparr>) ?k"
      have "cpu_ok (k_cpu ?k1 i)" using ok by (simp add: upd_cons_def)
      then obtain k1 where k1: "consputc busy i BACKSPACE ?k1 = Inr k1" "only_prints ?k1 k1" using consputc_total by blast
      have c1: "k_cons k1 = ?v\<lparr>cons_e := cons_e ?v - 1\<rparr>" using k1(2) kc by (simp add: only_prints_def upd_cons_def)
      have "only_prints (?k\<lparr>k_cons := k_cons k1\<rparr>) k1" using k1(2) c1 kc by (simp add: upd_cons_def)
      then show ?thesis
        using fin [OF k1(1)] erase_view [OF assms(2) False] c1 False 3 kc by (auto simp: consoleintr_def edit_char_def Let_def)
    qed
  next
    case 4
    then show ?thesis
      using fin [of "Inr ?k" ?k "edit ?v"] same assms(2) kc room by (auto simp: consoleintr_def edit_char_def Let_def)
  next
    case 5
    then show ?thesis using consoleintr_stores [OF assms] by blast
  qed
qed

lemma cons_ok_blank: "cons_ok (k_cons blank_kern)" "cons_waits blank_kern" "pending (k_cons blank_kern) = []" "edit (k_cons blank_kern) = []"
  by (simp_all add: blank_kern_def static_kern_def cons_ok_def edit_def pending_def cons_all_def ring_bytes_def INPUT_BUF_SIZE_def cons_waits_def)

theorem consoleintr_edits_line_witness:
  "cons_ok (k_cons blank_kern) \<and> cons_waits blank_kern \<and>
   (\<exists>k'. consoleintr (\<lambda>_. 0) 0 65 blank_kern = Inr k' \<and> pending (k_cons k') = [] \<and> edit (k_cons k') = [65])"
proof -
  have "edit_char 65 ([], []) = ([], [65])" by (simp add: edit_char_def INPUT_BUF_SIZE_def)
  then show ?thesis
    using consoleintr_edits_line [OF sched_inv_blank cons_ok_blank(1,2), of "\<lambda>_. 0" 0 65] cons_ok_blank by auto
qed

text \<open>Reading a printed number back.\<close>

definition digit_val :: "byte \<Rightarrow> nat" where
  "digit_val c = (if c < 58 then unat c - 48 else unat c - 87)"

definition read_nat :: "nat \<Rightarrow> byte list \<Rightarrow> nat" where
  "read_nat b cs = foldl (\<lambda>a c. a * b + digit_val c) 0 cs"

definition read_int :: "nat \<Rightarrow> byte list \<Rightarrow> int" where
  "read_int b cs = (if cs \<noteq> [] \<and> hd cs = 45 then - int (read_nat b (tl cs)) else int (read_nat b cs))"

lemma digit_val_hex: "n < 16 \<Longrightarrow> digit_val (hex_digits ! n) = n" "n < 16 \<Longrightarrow> hex_digits ! n \<noteq> 45"
proof -
  have "list_all (\<lambda>n. digit_val (hex_digits ! n) = n \<and> hex_digits ! n \<noteq> 45) [0..<16]" by code_simp
  then show "n < 16 \<Longrightarrow> digit_val (hex_digits ! n) = n" "n < 16 \<Longrightarrow> hex_digits ! n \<noteq> 45"
    by (auto simp: list_all_iff)
qed

lemma printint_buf_props:
  assumes "2 \<le> b" "b \<le> 16"
  shows "read_nat b (rev (printint_buf b x)) = x" "45 \<notin> set (printint_buf b x)" "printint_buf b x \<noteq> []"
    "x < b ^ Suc n \<Longrightarrow> length (printint_buf b x) \<le> Suc n"
proof -
  have "read_nat b (rev (printint_buf b x)) = x \<and> 45 \<notin> set (printint_buf b x)"
    using assms
  proof (induction b x rule: printint_buf.induct)
    case (1 b x)
    have d: "x mod b < 16" using mod_less_divisor [of b x] 1(2,3) by linarith
    have "x div b = 0 \<Longrightarrow> x mod b = x" using div_mult_mod_eq [of x b] by simp
    then show ?case
      using 1 digit_val_hex [OF d] by (subst (1 2) printint_buf.simps) (auto simp: read_nat_def)
  qed
  then show "read_nat b (rev (printint_buf b x)) = x" "45 \<notin> set (printint_buf b x)" by auto
  show "printint_buf b x \<noteq> []" using assms by (subst printint_buf.simps) simp
  show "x < b ^ Suc n \<Longrightarrow> length (printint_buf b x) \<le> Suc n"
  proof (induction n arbitrary: x)
    case 0
    then show ?case using assms by (subst printint_buf.simps) simp
  next
    case (Suc n)
    have "x div b < b ^ Suc n" using Suc.prems assms by (simp add: less_mult_imp_div_less mult.commute)
    then show ?case using Suc.IH assms by (subst printint_buf.simps) simp
  qed
qed

lemma sint32: "sint (x :: u32) = (if uint x < 2 ^ 31 then uint x else uint x - 2 ^ 32)"
proof -
  have b: "0 \<le> uint x" "uint x < 2 ^ 32" using uint_bounded [of x] by simp_all
  have "sint x = (uint x + 2 ^ 31) mod 2 ^ 32 - 2 ^ 31"
    by (simp add: sint_uint signed_take_bit_eq_take_bit_shift take_bit_eq_mod)
  moreover have "(uint x + 2 ^ 31) mod 2 ^ 32 = (if uint x < 2 ^ 31 then uint x + 2 ^ 31 else uint x + 2 ^ 31 - 2 ^ 32)"
    using b by (auto simp: mod_pos_geq)
  ultimately show ?thesis by simp
qed

lemma unat_abs: "unat (if sint (x :: u32) < 0 then - x else x) = nat (abs (sint x))"
proof (cases "uint x < 2 ^ 31")
  case True
  then have "sint x = uint x" using sint32 [of x] by simp
  then show ?thesis by simp
next
  case False
  have b: "uint x < 2 ^ 32" using uint_bounded [of x] by simp
  have "uint (- x) = (- uint x) mod 2 ^ 32" by (simp add: uint_word_ariths)
  also have "\<dots> = 2 ^ 32 - uint x" using False b by (simp add: zmod_zminus1_eq_if)
  finally have u: "uint (- x) = 2 ^ 32 - uint x" .
  have s: "sint x = uint x - 2 ^ 32" using sint32 [of x] False by simp
  then have "sint x < 0" "abs (sint x) = uint (- x)" using b u by simp_all
  then show ?thesis by simp
qed

text \<open>C19: The kernel's number printing is right for every 32-bit value: the bytes that \<^verbatim>\<open>printint\<close> prints for the formats \<^verbatim>\<open>%d\<close> and \<^verbatim>\<open>%x\<close> read back as the
  signed value, including the most negative one, and they fit the 16-byte local buffer.\<close>

theorem printint_reads_back:
  "read_int 10 (printint x 10 True) = sint x \<and> read_int 16 (printint x 16 True) = sint x \<and>
   length (printint x 10 True) \<le> 11 \<and> length (printint x 16 True) \<le> 9"
proof -
  define m where "m = nat (abs (sint x))"
  have pr: "printint x b True = rev (if sint x < 0 then printint_buf b m @ [45] else printint_buf b m)" for b
    using unat_abs [of x] by (cases "sint x < 0") (simp_all add: printint_def Let_def m_def)
  have bnd: "m \<le> 2 ^ 31" using sint_ge [of x] sint_lt [of x] by (simp add: m_def)
  have "read_int b (printint x b True) = sint x" if "2 \<le> b" "b \<le> 16" for b
  proof (cases "sint x < 0")
    case True
    then show ?thesis unfolding pr using printint_buf_props(1) [OF that, of m] by (simp add: read_int_def m_def)
  next
    case False
    have "hd (rev (printint_buf b m)) \<in> set (printint_buf b m)"
      using printint_buf_props(3) [OF that, of m] hd_in_set [of "rev (printint_buf b m)"] by simp
    then have "hd (rev (printint_buf b m)) \<noteq> 45" using printint_buf_props(2) [OF that, of m] by metis
    then show ?thesis unfolding pr using False printint_buf_props(1) [OF that, of m] by (simp add: read_int_def m_def)
  qed
  moreover have "length (printint x b True) \<le> Suc (Suc n)" if "2 \<le> b" "b \<le> 16" "2 ^ 31 < b ^ Suc n" for b n
    unfolding pr using printint_buf_props(4) [OF that(1,2) le_less_trans [OF bnd that(3)]] by simp
  from this [of 10 9] this [of 16 7] have "length (printint x 10 True) \<le> 11" "length (printint x 16 True) \<le> 9" by simp_all
  ultimately show ?thesis by simp
qed

end
