(* ===== verification/File.thy ===== *)
theory File
  imports Pipe Console
begin

text \<open>
  The file table, \<^verbatim>\<open>kernel/file.c\<close>, and \<^verbatim>\<open>pipealloc\<close> of \<^verbatim>\<open>kernel/pipe.c\<close>. File-system operations act on the component \<open>k_fs\<close> of the kernel state, through \<open>on_fs\<close>.
  \<open>txn_begin\<close> and \<open>txn_end\<close> are \<^verbatim>\<open>begin_op\<close> and \<^verbatim>\<open>end_op\<close> as seen from above the log: the first waits for log space, the second commits when no other
  operation is running. Blocking on a pipe or the console is reported as \<open>Asleep\<close>; blocking on an inode, a buffer or the log is the outcome \<open>Sleeps\<close>.
\<close>

definition on_fs :: "(fs \<Rightarrow> fault + fs) \<Rightarrow> kern \<Rightarrow> fault + kern" where
  "on_fs f k = bindE (f (k_fs k)) (\<lambda>s. Inr (k\<lparr>k_fs := s\<rparr>))"

definition fs_call :: "(fs \<Rightarrow> fault + 'a \<times> fs) \<Rightarrow> kern \<Rightarrow> fault + 'a \<times> kern" where
  "fs_call f k = bindE (f (k_fs k)) (\<lambda>(x, s). Inr (x, k\<lparr>k_fs := s\<rparr>))"

definition txn_begin :: "kern \<Rightarrow> fault + kern" where
  "txn_begin k =
     (if length (tx (k_fs k)) + (k_outstanding k + 1) * MAXOPBLOCKS > LOGSIZE then Inl (Sleeps ''log'')
      else Inr (k\<lparr>k_outstanding := k_outstanding k + 1\<rparr>))"

definition txn_end :: "kern \<Rightarrow> kern" where
  "txn_end k =
     (let k = k\<lparr>k_outstanding := k_outstanding k - 1\<rparr> in
      if k_outstanding k = 0 then k\<lparr>k_fs := (k_fs k)\<lparr>tx := []\<rparr>\<rparr> else k)"

section \<open>The file table\<close>

definition filealloc :: "kern \<Rightarrow> nat option \<times> kern" where
  "filealloc k =
     (case List.find (\<lambda>f. f_ref (k_file k f) = 0) [0..<NFILE] of
        None \<Rightarrow> (None, k)
      | Some f \<Rightarrow> (Some f, upd_file f (\<lambda>v. v\<lparr>f_ref := 1\<rparr>) k))"

definition filedup :: "nat \<Rightarrow> kern \<Rightarrow> fault + kern" where
  "filedup f k =
     (if f_ref (k_file k f) < 1 then Inl (Panic ''filedup'')
      else Inr (upd_file f (\<lambda>v. v\<lparr>f_ref := f_ref v + 1\<rparr>) k))"

definition fileclose :: "machine \<Rightarrow> nat \<Rightarrow> nat \<Rightarrow> nat \<Rightarrow> kern \<Rightarrow> fault + kern" where
  "fileclose c i p f k =
     (if f_ref (k_file k f) < 1 then Inl (Panic ''fileclose'')
      else
        let k = upd_file f (\<lambda>v. v\<lparr>f_ref := f_ref v - 1\<rparr>) k in
        if f_ref (k_file k f) > 0 then Inr k
        else
          let ff = k_file k f;
              k = upd_file f (\<lambda>v. v\<lparr>f_ref := 0, f_type := FD_NONE\<rparr>) k
          in case f_type ff of
               FD_PIPE \<Rightarrow> pipeclose c i (f_pipe ff) (f_writable ff) k
             | FD_NONE \<Rightarrow> Inr k
             | _ \<Rightarrow>
                 bindE (txn_begin k) (\<lambda>k.
                 bindE (on_fs (iput p (f_ip ff)) k) (\<lambda>k. Inr (txn_end k))))"

text \<open>The four padding bytes of \<^verbatim>\<open>struct stat\<close> keep whatever was on the kernel stack, the argument \<open>pad\<close>.\<close>

definition bytes_of_stat :: "byte list \<Rightarrow> stat \<Rightarrow> byte list" where
  "bytes_of_stat pad st = bytes_le 4 (st_dev st) @ bytes_le 4 (st_ino st) @ bytes_le 2 (unat (st_type st)) @ bytes_le 2 (unat (st_nlink st)) @
     pad @ bytes_le 8 (st_size st)"

definition filestat :: "byte list \<Rightarrow> nat \<Rightarrow> nat \<Rightarrow> u64 \<Rightarrow> kern \<Rightarrow> fault + int \<times> kern" where
  "filestat pad p f addr k =
     (if f_type (k_file k f) = FD_INODE \<or> f_type (k_file k f) = FD_DEVICE then
        let ip = f_ip (k_file k f) in
        bindE (on_fs (ilock p ip) k) (\<lambda>k.
        let st = stati ip (k_fs k) in
        bindE (on_fs (iunlock p ip) k) (\<lambda>k.
        case copyout (p_pagetable (k_proc k p)) addr (bytes_of_stat pad st) (k_mem k) of (r, m) \<Rightarrow>
          Inr (if r < 0 then -1 else 0, k\<lparr>k_mem := m\<rparr>)))
      else Inr (-1, k))"

definition read_inode :: "nat \<Rightarrow> nat \<Rightarrow> u64 \<Rightarrow> int \<Rightarrow> kern \<Rightarrow> fault + int \<times> kern" where
  "read_inode p f addr n k =
     (let ip = f_ip (k_file k f) in
      bindE (on_fs (ilock p ip) k) (\<lambda>k.
      bindE (readi (fs_out (p_pagetable (k_proc k p)) True) ip (unat addr) (f_off (k_file k f)) (word_of_int n) (k_mem k) (k_fs k)) (\<lambda>(r, m, s).
      let k = k\<lparr>k_mem := m, k_fs := s\<rparr>;
          k = (if r > 0 then upd_file f (\<lambda>v. v\<lparr>f_off := f_off v + word_of_int r\<rparr>) k else k)
      in bindE (on_fs (iunlock p ip) k) (\<lambda>k. Inr (r, k)))))"

definition has_dev :: "u16 \<Rightarrow> kern \<Rightarrow> bool" where
  "has_dev major k \<longleftrightarrow> 0 \<le> sint major \<and> sint major < int NDEV \<and> nat (sint major) \<in> set (k_devsw k)"

definition fileread :: "nat \<Rightarrow> nat \<Rightarrow> nat \<Rightarrow> u64 \<Rightarrow> int \<Rightarrow> kern \<Rightarrow> fault + progress \<times> kern" where
  "fileread i p f addr n k =
     (let v = k_file k f in
      if \<not> f_readable v then Inr (Returned (-1), k)
      else case f_type v of
        FD_PIPE \<Rightarrow> piperead i (f_pipe v) addr n k
      | FD_DEVICE \<Rightarrow> if has_dev (f_major v) k then consoleread i True addr n k else Inr (Returned (-1), k)
      | FD_INODE \<Rightarrow> bindE (read_inode p f addr n k) (\<lambda>(r, k). Inr (Returned r, k))
      | FD_NONE \<Rightarrow> Inl (Panic ''fileread''))"

definition WRITE_MAX :: int where
  "WRITE_MAX = int ((MAXOPBLOCKS - 1 - 1 - 2) div 2 * BSIZE)"

definition write_chunk :: "nat \<Rightarrow> nat \<Rightarrow> u64 \<Rightarrow> int \<Rightarrow> kern \<Rightarrow> fault + int \<times> kern" where
  "write_chunk p f addr n1 k =
     (let ip = f_ip (k_file k f) in
      bindE (txn_begin k) (\<lambda>k.
      bindE (on_fs (ilock p ip) k) (\<lambda>k.
      bindE (fs_call (writei (fs_in (p_pagetable (k_proc k p)) True) ip (unat addr) (f_off (k_file k f)) (word_of_int n1) (k_mem k)) k) (\<lambda>(r, k).
      let k = (if r > 0 then upd_file f (\<lambda>v. v\<lparr>f_off := f_off v + word_of_int r\<rparr>) k else k) in
      bindE (on_fs (iunlock p ip) k) (\<lambda>k. Inr (r, txn_end k))))))"

function write_inode :: "nat \<Rightarrow> nat \<Rightarrow> u64 \<Rightarrow> int \<Rightarrow> int \<Rightarrow> kern \<Rightarrow> fault + int \<times> kern" where
  "write_inode p f addr n j k =
     (if j < n then
        let n1 = (if n - j > WRITE_MAX then WRITE_MAX else n - j) in
        bindE (write_chunk p f (addr + word_of_int j) n1 k) (\<lambda>(r, k).
        if r \<noteq> n1 then Inr (if j = n then n else -1, k)
        else write_inode p f addr n (j + r) k)
      else Inr (if j = n then n else -1, k))"
  by pat_completeness auto
termination
  by (relation "measure (\<lambda>(p, f, addr, n, j, k). nat (n - j))") (auto simp: WRITE_MAX_def MAXOPBLOCKS_def BSIZE_def)

declare write_inode.simps [simp del]

definition filewrite :: "(nat \<Rightarrow> kern \<Rightarrow> kern) \<Rightarrow> (nat \<Rightarrow> nat) \<Rightarrow> nat \<Rightarrow> nat \<Rightarrow> nat \<Rightarrow> u64 \<Rightarrow> int \<Rightarrow> kern \<Rightarrow> fault + progress \<times> kern" where
  "filewrite env busy i p f addr n k =
     (let v = k_file k f in
      if \<not> f_writable v then Inr (Returned (-1), k)
      else case f_type v of
        FD_PIPE \<Rightarrow> pipewrite env i (f_pipe v) addr n k
      | FD_DEVICE \<Rightarrow> if has_dev (f_major v) k then consolewrite busy i (p_pagetable (k_proc k p)) True addr n k else Inr (Returned (-1), k)
      | FD_INODE \<Rightarrow> bindE (write_inode p f addr n 0 k) (\<lambda>(r, k). Inr (Returned r, k))
      | FD_NONE \<Rightarrow> Inl (Panic ''filewrite''))"

section \<open>Creating a pipe\<close>

definition close_opt :: "machine \<Rightarrow> nat \<Rightarrow> nat \<Rightarrow> nat option \<Rightarrow> kern \<Rightarrow> fault + kern" where
  "close_opt c i p f k = (case f of None \<Rightarrow> Inr k | Some f \<Rightarrow> fileclose c i p f k)"

definition pipe_file :: "nat \<Rightarrow> bool \<Rightarrow> kfile \<Rightarrow> kfile" where
  "pipe_file pi w v = v\<lparr>f_type := FD_PIPE, f_readable := \<not> w, f_writable := w, f_pipe := pi\<rparr>"

text \<open>The lock of a fresh pipe takes the first 24 bytes of its page; the data area keeps what the page held.\<close>

definition fresh_pipe :: "kmem \<Rightarrow> nat \<Rightarrow> pipe" where
  "fresh_pipe m pi = \<lparr>pi_data = load_bytes (ram m) (pi + 24) PIPESIZE, nread = 0, nwrite = 0, readopen = True, writeopen = True\<rparr>"

definition pipealloc :: "machine \<Rightarrow> nat \<Rightarrow> nat \<Rightarrow> kern \<Rightarrow> fault + (nat \<times> nat) option \<times> kern" where
  "pipealloc c i p k =
     (let bad = (\<lambda>f0 f1 k. bindE (close_opt c i p f0 k) (\<lambda>k. bindE (close_opt c i p f1 k) (\<lambda>k. Inr (None, k)))) in
      case filealloc k of
        (None, k) \<Rightarrow> bad None None k
      | (Some f0, k) \<Rightarrow>
          (case filealloc k of
             (None, k) \<Rightarrow> bad (Some f0) None k
           | (Some f1, k) \<Rightarrow>
               (case kalloc (k_mem k) of (pi, m) \<Rightarrow>
                  let k = k\<lparr>k_mem := m\<rparr> in
                  if pi = 0 then bad (Some f0) (Some f1) k
                  else
                    let k = upd_pipe pi (\<lambda>_. fresh_pipe m pi) k;
                        k = upd_file f0 (pipe_file pi False) k;
                        k = upd_file f1 (pipe_file pi True) k
                    in Inr (Some (f0, f1), k))))"

end
