(* ===== verification/Proc.thy ===== *)
theory Proc
  imports File Blockdev
begin

text \<open>
  Creation and end of processes: the rest of \<^verbatim>\<open>kernel/proc.c\<close>, with the kernel page table of \<^verbatim>\<open>kernel/vm.c\<close> that maps the kernel stacks. \<open>c\<close> is the machine (the addresses the
  linker chose), \<open>entry\<close> the address of \<^verbatim>\<open>forkret\<close>. \<^verbatim>\<open>p->name\<close> is a byte list of length 16.
\<close>

section \<open>Kernel page table and stacks\<close>

definition proc_mapstacks :: "nat \<Rightarrow> kmem \<Rightarrow> fault + kmem" where
  "proc_mapstacks kpgtbl m =
     forE [0..<NPROC] (\<lambda>p m.
       case kalloc m of (pa, m) \<Rightarrow>
         if pa = 0 then Inl (Panic ''kalloc'')
         else kvmmap kpgtbl (KSTACK p) (word_of_nat pa) (word_of_nat PGSIZE) (PTE_R OR PTE_W) m) m"

definition kvmmake :: "machine \<Rightarrow> kmem \<Rightarrow> fault + nat \<times> kmem" where
  "kvmmake c m =
     (case kalloc m of (kpgtbl, m) \<Rightarrow>
        if kpgtbl = 0 then Inl (Undefined ''kvmmake: null page'')
        else
          bindE (kvmmap kpgtbl UART0 UART0 (word_of_nat PGSIZE) (PTE_R OR PTE_W) (m\<lparr>ram := memset (ram m) kpgtbl 0 PGSIZE\<rparr>)) (\<lambda>m.
          bindE (kvmmap kpgtbl VIRTIO0 VIRTIO0 (word_of_nat PGSIZE) (PTE_R OR PTE_W) m) (\<lambda>m.
          bindE (forE [VIRTIO_RAID_DISK_START..<VIRTIO_RAID_DISK_END c + 1]
                   (\<lambda>i m. kvmmap kpgtbl (VIRTIOX i) (VIRTIOX i) (word_of_nat PGSIZE) (PTE_R OR PTE_W) m) m) (\<lambda>m.
          bindE (kvmmap kpgtbl PLIC PLIC 0x400000 (PTE_R OR PTE_W) m) (\<lambda>m.
          bindE (kvmmap kpgtbl (word_of_nat KERNBASE) (word_of_nat KERNBASE) (word_of_nat (etext c) - word_of_nat KERNBASE) (PTE_R OR PTE_X) m) (\<lambda>m.
          bindE (kvmmap kpgtbl (word_of_nat (etext c)) (word_of_nat (etext c)) (word_of_nat (PHYSTOP c) - word_of_nat (etext c)) (PTE_R OR PTE_W) m) (\<lambda>m.
          bindE (kvmmap kpgtbl TRAMPOLINE (word_of_nat (trampoline c)) (word_of_nat PGSIZE) (PTE_R OR PTE_X) m) (\<lambda>m.
          bindE (proc_mapstacks kpgtbl m) (\<lambda>m. Inr (kpgtbl, m))))))))))"

section \<open>Process slots\<close>

definition allocpid :: "kern \<Rightarrow> u32 \<times> kern" where
  "allocpid k = (k_nextpid k, k\<lparr>k_nextpid := k_nextpid k + 1\<rparr>)"

definition proc_pagetable :: "machine \<Rightarrow> nat \<Rightarrow> kmem \<Rightarrow> fault + nat \<times> kmem" where
  "proc_pagetable c tf m =
     (case uvmcreate m of (pt, m) \<Rightarrow>
        if pt = 0 then Inr (0, m)
        else
          bindE (mappages pt TRAMPOLINE (word_of_nat PGSIZE) (word_of_nat (trampoline c)) (PTE_R OR PTE_X) m) (\<lambda>(r, m).
          if r < 0 then bindE (uvmfree c pt 0 m) (\<lambda>m. Inr (0, m))
          else
            bindE (mappages pt TRAPFRAME (word_of_nat PGSIZE) (word_of_nat tf) (PTE_R OR PTE_W) m) (\<lambda>(r, m).
            if r < 0 then
              bindE (uvmunmap c pt TRAMPOLINE 1 False m) (\<lambda>m.
              bindE (uvmfree c pt 0 m) (\<lambda>m. Inr (0, m)))
            else Inr (pt, m))))"

definition proc_freepagetable :: "machine \<Rightarrow> nat \<Rightarrow> u64 \<Rightarrow> kmem \<Rightarrow> fault + kmem" where
  "proc_freepagetable c pt sz m =
     bindE (uvmunmap c pt TRAMPOLINE 1 False m) (\<lambda>m.
     bindE (uvmunmap c pt TRAPFRAME 1 False m) (\<lambda>m. uvmfree c pt sz m))"

definition freeproc :: "machine \<Rightarrow> nat \<Rightarrow> kern \<Rightarrow> fault + kern" where
  "freeproc c p k =
     (let v = k_proc k p in
      bindE (if p_trapframe v \<noteq> 0 then kfree c (p_trapframe v) (k_mem k) else Inr (k_mem k)) (\<lambda>m.
      bindE (if p_pagetable v \<noteq> 0 then proc_freepagetable c (p_pagetable v) (p_sz v) m else Inr m) (\<lambda>m.
      Inr (upd_proc p (\<lambda>v. v\<lparr>p_trapframe := 0, p_pagetable := 0, p_sz := 0, p_pid := 0, p_parent := None, p_name := (p_name v)[0 := 0],
             p_chan := None, p_killed := False, p_xstate := 0, p_state := UNUSED\<rparr>) (k\<lparr>k_mem := m\<rparr>)))))"

primrec allocproc_scan :: "nat \<Rightarrow> nat list \<Rightarrow> kern \<Rightarrow> fault + nat option \<times> kern" where
  "allocproc_scan i [] k = Inr (None, k)"
| "allocproc_scan i (p # ps) k =
     bindE (acquire_p i p k) (\<lambda>k.
     if p_state (k_proc k p) = UNUSED then Inr (Some p, k)
     else bindE (release_p i p k) (\<lambda>k. allocproc_scan i ps k))"

definition allocproc :: "machine \<Rightarrow> u64 \<Rightarrow> nat \<Rightarrow> kern \<Rightarrow> fault + nat option \<times> kern" where
  "allocproc c entry i k =
     bindE (allocproc_scan i [0..<NPROC] k) (\<lambda>(found, k).
     case found of
       None \<Rightarrow> Inr (None, k)
     | Some p \<Rightarrow>
         (case allocpid k of (pid, k) \<Rightarrow>
          let k = upd_proc p (\<lambda>v. v\<lparr>p_pid := pid, p_state := USED\<rparr>) k;
              fail = (\<lambda>k. bindE (freeproc c p k) (\<lambda>k. bindE (release_p i p k) (\<lambda>k. Inr (None, k))))
          in case kalloc (k_mem k) of (tf, m) \<Rightarrow>
               let k = upd_proc p (\<lambda>v. v\<lparr>p_trapframe := tf\<rparr>) (k\<lparr>k_mem := m\<rparr>) in
               if tf = 0 then fail k
               else
                 bindE (proc_pagetable c tf (k_mem k)) (\<lambda>(pt, m).
                 let k = upd_proc p (\<lambda>v. v\<lparr>p_pagetable := pt\<rparr>) (k\<lparr>k_mem := m\<rparr>) in
                 if pt = 0 then fail k
                 else Inr (Some p, upd_proc p (\<lambda>v. v\<lparr>p_context := \<lparr>ctx_ra = entry, ctx_sp = p_kstack v + word_of_nat PGSIZE, ctx_s = replicate 12 0\<rparr>\<rparr>) k))))"

definition growproc :: "machine \<Rightarrow> nat \<Rightarrow> int \<Rightarrow> kern \<Rightarrow> fault + int \<times> kern" where
  "growproc c p n k =
     (let v = k_proc k p; sz = p_sz v in
      if n > 0 then
        bindE (uvmalloc c (p_pagetable v) sz (sz + word_of_int n) PTE_W (k_mem k)) (\<lambda>(sz, m).
        let k = k\<lparr>k_mem := m\<rparr> in
        if sz = 0 then Inr (-1, k) else Inr (0, upd_proc p (\<lambda>v. v\<lparr>p_sz := sz\<rparr>) k))
      else if n < 0 then
        bindE (uvmdealloc c (p_pagetable v) sz (sz + word_of_int n) (k_mem k)) (\<lambda>(sz, m).
        Inr (0, upd_proc p (\<lambda>v. v\<lparr>p_sz := sz\<rparr>) (k\<lparr>k_mem := m\<rparr>)))
      else Inr (0, k))"

text \<open>\<^verbatim>\<open>safestrcpy\<close> into a buffer \<open>old\<close> whose length is the size argument of the call.\<close>

definition safestr :: "byte list \<Rightarrow> byte list \<Rightarrow> byte list" where
  "safestr old t = (let u = take (length old - 1) (takeWhile (\<lambda>c. c \<noteq> 0) t) in u @ [0] @ drop (length u + 1) old)"

section \<open>The first process\<close>

definition initcode :: "byte list" where
  "initcode = [
     0x17, 0x05, 0x00, 0x00, 0x13, 0x05, 0x45, 0x02,
     0x97, 0x05, 0x00, 0x00, 0x93, 0x85, 0x35, 0x02,
     0x93, 0x08, 0x70, 0x00, 0x73, 0x00, 0x00, 0x00,
     0x93, 0x08, 0x20, 0x00, 0x73, 0x00, 0x00, 0x00,
     0xef, 0xf0, 0x9f, 0xff, 0x2f, 0x69, 0x6e, 0x69,
     0x74, 0x00, 0x00, 0x24, 0x00, 0x00, 0x00, 0x00,
     0x00, 0x00, 0x00, 0x00]"

definition userinit :: "machine \<Rightarrow> u64 \<Rightarrow> nat \<Rightarrow> kern \<Rightarrow> fault + kern" where
  "userinit c entry i k =
     bindE (allocproc c entry i k) (\<lambda>(r, k).
     let k = k\<lparr>k_initproc := r\<rparr> in
     case r of
       None \<Rightarrow> Inl (Undefined ''userinit: null proc'')
     | Some p \<Rightarrow>
         bindE (uvmfirst (p_pagetable (k_proc k p)) initcode (k_mem k)) (\<lambda>m.
         let k = upd_proc p (\<lambda>v. v\<lparr>p_sz := word_of_nat PGSIZE\<rparr>) (k\<lparr>k_mem := m\<rparr>);
             k = tf_put p tf_epc 0 k;
             k = tf_put p tf_sp (word_of_nat PGSIZE) k;
             k = upd_proc p (\<lambda>v. v\<lparr>p_name := safestr (p_name v) (ascii ''initcode'')\<rparr>) k
         in bindE (fs_call (namei p 0 [slash]) k) (\<lambda>(ip, k).
            release_p i p (upd_proc p (\<lambda>v. v\<lparr>p_cwd := ip, p_state := RUNNABLE\<rparr>) k))))"

definition forkret :: "(superblock \<Rightarrow> fs \<Rightarrow> fault + fs) \<Rightarrow> bool \<Rightarrow> nat \<Rightarrow> kern \<Rightarrow> fault + kern" where
  "forkret init_log is_first i k =
     bindE (myproc i k) (\<lambda>p.
     bindE (release_p i p k) (\<lambda>k.
     if is_first then on_fs (fsinit init_log) k else Inr k))"

section \<open>Fork\<close>

definition fork_file :: "nat \<Rightarrow> nat \<Rightarrow> nat \<Rightarrow> kern \<Rightarrow> fault + kern" where
  "fork_file p np fd k =
     (case p_ofile (k_proc k p) ! fd of
        None \<Rightarrow> Inr k
      | Some f \<Rightarrow> bindE (filedup f k) (\<lambda>k. Inr (upd_proc np (\<lambda>v. v\<lparr>p_ofile := (p_ofile v)[fd := Some f]\<rparr>) k)))"

definition copy_trapframe :: "nat \<Rightarrow> nat \<Rightarrow> kern \<Rightarrow> kern" where
  "copy_trapframe p np k = k\<lparr>k_mem := (k_mem k)\<lparr>ram :=
     store_bytes (ram (k_mem k)) (p_trapframe (k_proc k np)) (load_bytes (ram (k_mem k)) (p_trapframe (k_proc k p)) tf_size)\<rparr>\<rparr>"

text \<open>\<open>fork_child\<close> is \<^verbatim>\<open>fork\<close> once the child has its memory; the caller holds the child's lock.\<close>

definition fork_child :: "nat \<Rightarrow> nat \<Rightarrow> nat \<Rightarrow> kern \<Rightarrow> fault + int \<times> kern" where
  "fork_child i p np k =
     (let k = upd_proc np (\<lambda>v. v\<lparr>p_sz := p_sz (k_proc k p)\<rparr>) k;
          k = copy_trapframe p np k;
          k = tf_put np (tf_a 0) 0 k
      in bindE (forE [0..<NOFILE] (fork_file p np) k) (\<lambda>k.
         case p_cwd (k_proc k p) of
           None \<Rightarrow> Inl (Undefined ''idup: null inode'')
         | Some cwd \<Rightarrow>
             let k = k\<lparr>k_fs := idup cwd (k_fs k)\<rparr>;
                 k = upd_proc np (\<lambda>v. v\<lparr>p_cwd := Some cwd, p_name := safestr (p_name v) (p_name (k_proc k p))\<rparr>) k;
                 pid = p_pid (k_proc k np)
             in bindE (release_p i np k) (\<lambda>k.
                bindE (acquire_p i np (upd_proc np (\<lambda>v. v\<lparr>p_parent := Some p\<rparr>) k)) (\<lambda>k.
                bindE (release_p i np (upd_proc np (\<lambda>v. v\<lparr>p_state := RUNNABLE\<rparr>) k)) (\<lambda>k.
                Inr (sint pid, k))))))"

definition fork :: "machine \<Rightarrow> u64 \<Rightarrow> nat \<Rightarrow> kern \<Rightarrow> fault + int \<times> kern" where
  "fork c entry i k =
     bindE (myproc i k) (\<lambda>p.
     bindE (allocproc c entry i k) (\<lambda>(r, k).
     case r of
       None \<Rightarrow> Inr (-1, k)
     | Some np \<Rightarrow>
         bindE (uvmcopy c (p_pagetable (k_proc k p)) (p_pagetable (k_proc k np)) (p_sz (k_proc k p)) (k_mem k)) (\<lambda>(e, m).
         let k = k\<lparr>k_mem := m\<rparr> in
         if e < 0 then
           bindE (freeproc c np k) (\<lambda>k.
           bindE (release_p i np k) (\<lambda>k. Inr (-1, k)))
         else fork_child i p np k)))"

section \<open>Exit and wait\<close>

definition wake_proc :: "nat \<Rightarrow> nat option \<Rightarrow> kern \<Rightarrow> fault + kern" where
  "wake_proc i q k = (case q of None \<Rightarrow> Inr k | Some q \<Rightarrow> wakeup i (Chan_proc q) k)"

definition reparent1 :: "nat \<Rightarrow> nat \<Rightarrow> nat \<Rightarrow> kern \<Rightarrow> fault + kern" where
  "reparent1 i p pp k =
     (if p_parent (k_proc k pp) = Some p
      then wake_proc i (k_initproc k) (upd_proc pp (\<lambda>v. v\<lparr>p_parent := k_initproc k\<rparr>) k)
      else Inr k)"

definition reparent :: "nat \<Rightarrow> nat \<Rightarrow> kern \<Rightarrow> fault + kern" where
  "reparent i p k = forE [0..<NPROC] (reparent1 i p) k"

definition close_fd :: "machine \<Rightarrow> nat \<Rightarrow> nat \<Rightarrow> nat \<Rightarrow> kern \<Rightarrow> fault + kern" where
  "close_fd c i p fd k =
     (case p_ofile (k_proc k p) ! fd of
        None \<Rightarrow> Inr k
      | Some f \<Rightarrow> bindE (fileclose c i p f k) (\<lambda>k. Inr (upd_proc p (\<lambda>v. v\<lparr>p_ofile := (p_ofile v)[fd := None]\<rparr>) k)))"

definition exit :: "machine \<Rightarrow> nat \<Rightarrow> u32 \<Rightarrow> kern \<Rightarrow> fault + kern" where
  "exit c i status k =
     bindE (myproc i k) (\<lambda>p.
     if Some p = k_initproc k then Inl (Panic ''init exiting'')
     else
       bindE (forE [0..<NOFILE] (close_fd c i p) k) (\<lambda>k.
       bindE (txn_begin k) (\<lambda>k.
       bindE (case p_cwd (k_proc k p) of None \<Rightarrow> Inl (Undefined ''iput: null inode'') | Some cwd \<Rightarrow> on_fs (iput p cwd) k) (\<lambda>k.
       let k = upd_proc p (\<lambda>v. v\<lparr>p_cwd := None\<rparr>) (txn_end k) in
       bindE (reparent i p (kpush_off i k)) (\<lambda>k.
       bindE (wake_proc i (p_parent (k_proc k p)) k) (\<lambda>k.
       bindE (acquire_p i p k) (\<lambda>k.
       bindE (kpop_off i (upd_proc p (\<lambda>v. v\<lparr>p_xstate := status, p_state := ZOMBIE\<rparr>) k)) (\<lambda>k.
       sched i k))))))))"

text \<open>
  \<open>wait_reap\<close> is what \<^verbatim>\<open>wait\<close> does with a zombie child whose lock it holds. One pass over the process table either returns, or says whether there are children.
\<close>

definition wait_reap :: "machine \<Rightarrow> nat \<Rightarrow> nat \<Rightarrow> u64 \<Rightarrow> nat \<Rightarrow> kern \<Rightarrow> fault + int \<times> kern" where
  "wait_reap c i p addr pp k =
     (let pid = p_pid (k_proc k pp);
          (r, m) = (if addr \<noteq> 0 then copyout (p_pagetable (k_proc k p)) addr (bytes_le 4 (unat (p_xstate (k_proc k pp)))) (k_mem k) else (0, k_mem k));
          k = k\<lparr>k_mem := m\<rparr>
      in if r < 0 then
           bindE (release_p i pp k) (\<lambda>k. bindE (kpop_off i k) (\<lambda>k. Inr (-1, k)))
         else
           bindE (freeproc c pp k) (\<lambda>k.
           bindE (release_p i pp k) (\<lambda>k.
           bindE (kpop_off i k) (\<lambda>k. Inr (sint pid, k)))))"

primrec wait_scan :: "machine \<Rightarrow> nat \<Rightarrow> nat \<Rightarrow> u64 \<Rightarrow> nat list \<Rightarrow> bool \<Rightarrow> kern \<Rightarrow> fault + (int + bool) \<times> kern" where
  "wait_scan c i p addr [] havekids k = Inr (Inr havekids, k)"
| "wait_scan c i p addr (pp # ps) havekids k =
     (if p_parent (k_proc k pp) = Some p then
        bindE (acquire_p i pp k) (\<lambda>k.
        if p_state (k_proc k pp) = ZOMBIE then bindE (wait_reap c i p addr pp k) (\<lambda>(x, k). Inr (Inl x, k))
        else bindE (release_p i pp k) (\<lambda>k. wait_scan c i p addr ps True k))
      else wait_scan c i p addr ps havekids k)"

definition wait_from :: "machine \<Rightarrow> nat \<Rightarrow> nat \<Rightarrow> u64 \<Rightarrow> kern \<Rightarrow> fault + progress \<times> kern" where
  "wait_from c i p addr k =
     bindE (wait_scan c i p addr [0..<NPROC] False k) (\<lambda>(r, k).
     case r of
       Inl x \<Rightarrow> Inr (Returned x, k)
     | Inr havekids \<Rightarrow>
         bindE (if \<not> havekids then Inr (True, k) else killed i p k) (\<lambda>(stop, k).
         if stop then bindE (kpop_off i k) (\<lambda>k. Inr (Returned (-1), k))
         else bindE (sleep i (Chan_proc p) k) (\<lambda>k. Inr (Asleep 0, k))))"

definition wait :: "machine \<Rightarrow> nat \<Rightarrow> u64 \<Rightarrow> kern \<Rightarrow> fault + progress \<times> kern" where
  "wait c i addr k = bindE (myproc i k) (\<lambda>p. wait_from c i p addr (kpush_off i k))"

end
