(* ===== verification/Proc_Inv.thy ===== *)
theory Proc_Inv
  imports Proc
begin

text \<open>
  The life cycle of processes: \<^verbatim>\<open>fork\<close>, \<^verbatim>\<open>exit\<close> and \<^verbatim>\<open>wait\<close> of theory \<open>Proc\<close> together with everything else that happens to the process table. \<open>stirs\<close> is what a call may do to the process table that is not about the life cycle: it may
  wake sleepers and change the other fields of a process.
\<close>

definition same_cpus :: "kern \<Rightarrow> kern \<Rightarrow> bool" where
  "same_cpus k k' \<longleftrightarrow> (\<forall>j. same_cpu (k_cpu k j) (k_cpu k' j)) \<and> k_initproc k' = k_initproc k"

lemma same_cpus_refl [simp]: "same_cpus k k"
  by (simp add: same_cpus_def)

lemma same_cpus_trans: "same_cpus a b \<Longrightarrow> same_cpus b c \<Longrightarrow> same_cpus a c"
  unfolding same_cpus_def using same_cpu_trans by metis

lemma same_cpus_cpu: "same_cpus k k' \<Longrightarrow> same_cpu (k_cpu k j) (k_cpu k' j)"
  and same_cpus_init: "same_cpus k k' \<Longrightarrow> k_initproc k' = k_initproc k"
  by (simp_all add: same_cpus_def)

lemma same_cpus_on: "same_cpus k k' \<Longrightarrow> on_cpu k' j = on_cpu k j"
  and same_cpus_noff: "same_cpus k k' \<Longrightarrow> c_noff (k_cpu k' j) = c_noff (k_cpu k j)"
  and same_cpus_ok: "same_cpus k k' \<Longrightarrow> cpu_ok (k_cpu k' j) = cpu_ok (k_cpu k j)"
  using same_cpus_cpu [of k k' j] same_cpu_ok by (auto simp: same_cpu_def)

lemma wakes_same_cpus: "wakes k k' \<Longrightarrow> same_cpus k k'"
proof -
  assume w: "wakes k k'"
  then have "k'\<lparr>k_proc := k_proc k, k_cpu := k_cpu k\<rparr> = k" by (simp add: wakes_def)
  from arg_cong [OF this, of k_initproc] show ?thesis using w by (simp add: same_cpus_def wakes_def)
qed

lemma same_cpus_settle: "same_cpus k (settle i k)"
  by (simp add: wakes_same_cpus wakes_settle)

text \<open>A section between \<^verbatim>\<open>push_off\<close> and \<^verbatim>\<open>pop_off\<close> leaves the CPUs as they were.\<close>

lemma popped_same_cpus:
  assumes "cpu_ok (k_cpu k i)" "same_cpus (kpush_off i k) k1"
  shows "kpop_off i k1 = Inr (popped i k1)" "same_cpus k (popped i k1)"
proof -
  have c: "same_cpu (k_cpu (kpush_off i k) j) (k_cpu k1 j)" for j by (rule same_cpus_cpu [OF assms(2)])
  have ok: "cpu_ok (k_cpu k1 i)" using same_cpu_ok [OF c] cpu_ok_push [OF assms(1)] by simp
  have "0 < c_noff (k_cpu k1 i)" using c [of i] assms(1) by (simp add: same_cpu_def cpu_ok_def)
  then show "kpop_off i k1 = Inr (popped i k1)" by (rule kpop_ok [OF ok])
  have "same_cpu (k_cpu k j) (k_cpu (popped i k1) j)" for j
    using c [of j] assms(1) by (auto simp: same_cpu_def popped_def kpush_off_def cpu_ok_def Let_def split: if_splits)
  then show "same_cpus k (popped i k1)"
    using same_cpus_init [OF assms(2)] by (simp add: same_cpus_def popped_def upd_cpu_def kpush_off_def)
qed

section \<open>Calls that leave processes alone\<close>

definition stirred :: "proc \<Rightarrow> proc \<Rightarrow> bool" where
  "stirred v v' \<longleftrightarrow> p_lock v' = p_lock v \<and> p_chan v' = p_chan v \<and> p_parent v' = p_parent v \<and>
     (p_state v' = p_state v \<or> p_state v = SLEEPING \<and> p_state v' = RUNNABLE)"

lemma stirred_refl [simp]: "stirred v v"
  by (simp add: stirred_def)

lemma stirred_trans: "stirred a b \<Longrightarrow> stirred b c \<Longrightarrow> stirred a c"
  by (auto simp: stirred_def)

lemma woken_stirred: "woken v v' \<Longrightarrow> stirred v v'"
  by (auto simp: woken_def stirred_def)

definition stirs :: "kern \<Rightarrow> kern \<Rightarrow> bool" where
  "stirs k k' \<longleftrightarrow> same_cpus k k' \<and> (\<forall>p. stirred (k_proc k p) (k_proc k' p))"

lemma stirs_refl [simp]: "stirs k k"
  by (simp add: stirs_def)

lemma stirs_trans: "stirs a b \<Longrightarrow> stirs b c \<Longrightarrow> stirs a c"
proof -
  assume "stirs a b" "stirs b c"
  then have "stirred (k_proc a p) (k_proc c p)" for p using stirred_trans [of "k_proc a p" "k_proc b p"] by (simp add: stirs_def)
  with \<open>stirs a b\<close> \<open>stirs b c\<close> show ?thesis using same_cpus_trans [of a b c] by (simp add: stirs_def)
qed

lemma wakes_stirs: "wakes k k' \<Longrightarrow> stirs k k'"
  by (simp add: stirs_def wakes_same_cpus woken_stirred wakes_proc)

lemma stirs_locks_free: "stirs k k' \<Longrightarrow> locks_free k \<Longrightarrow> locks_free k'"
proof -
  assume s: "stirs k k'" and l: "locks_free k"
  have "p_lock (k_proc k' p) = None" for p
  proof -
    have "stirred (k_proc k p) (k_proc k' p)" using s by (simp add: stirs_def)
    then show ?thesis using l by (simp add: stirred_def locks_free_def)
  qed
  moreover have "cpu_ok (k_cpu k' j)" for j
    using same_cpus_ok [of k k' j] s l by (simp add: stirs_def locks_free_def)
  ultimately show ?thesis by (simp add: locks_free_def)
qed

lemma stirs_fields: "k_proc k' = k_proc k \<Longrightarrow> k_cpu k' = k_cpu k \<Longrightarrow> k_initproc k' = k_initproc k \<Longrightarrow> stirs k k'"
  by (simp add: stirs_def same_cpus_def)

lemma stirs_section:
  assumes "cpu_ok (k_cpu k i)" "stirs (kpush_off i k) k1"
  shows "kpop_off i k1 = Inr (popped i k1)" "stirs k (popped i k1)"
  using popped_same_cpus [OF assms(1)] assms(2) by (simp_all add: stirs_def)

lemma stirs_wakeup:
  assumes "locks_free k" "wakeup i ch k = Inr k'"
  shows "stirs k k'"
  using wakeup_spec [OF assms(1), of i ch] assms(2) wakes_stirs by fastforce

lemma pipeclose_stirs:
  assumes "locks_free k" "pipeclose c i pi w k = Inr k'"
  shows "stirs k k'"
proof -
  let ?k = "if w then upd_pipe pi (\<lambda>v. v\<lparr>writeopen := False\<rparr>) (kpush_off i k) else upd_pipe pi (\<lambda>v. v\<lparr>readopen := False\<rparr>) (kpush_off i k)"
  have f: "stirs (kpush_off i k) ?k" by (rule stirs_fields) (simp_all add: upd_pipe_def)
  have ok: "cpu_ok (k_cpu k i)" using assms(1) by (simp add: locks_free_def)
  have lf: "locks_free ?k" using assms(1) cpu_ok_push by (simp add: locks_free_def)
  obtain k1 where k1: "wakeup i (if w then Chan_nread pi else Chan_nwrite pi) ?k = Inr k1"
    using wakeup_spec [OF lf] by blast
  note pop = stirs_section [OF ok stirs_trans [OF f stirs_wakeup [OF lf k1]]]
  have "stirs (popped i k1) k'"
    using assms(2) k1 pop(1) by (intro stirs_fields) (auto simp: pipeclose_def Let_def bindE_Inr_iff split: if_splits)
  then show ?thesis using stirs_trans [OF pop(2)] by blast
qed

lemma txn_begin_stirs: "txn_begin k = Inr k' \<Longrightarrow> stirs k k'"
  and on_fs_stirs: "on_fs f k = Inr k' \<Longrightarrow> stirs k k'"
  and fs_call_stirs: "fs_call g k = Inr (x, k') \<Longrightarrow> stirs k k'"
  and txn_end_stirs: "stirs k (txn_end k)"
  by (rule stirs_fields; auto simp: txn_begin_def on_fs_def fs_call_def txn_end_def Let_def bindE_Inr_iff split: if_splits)+

lemma iput_txn_stirs: "bindE (txn_begin k) (\<lambda>k. bindE (on_fs f k) (\<lambda>k. Inr (txn_end k))) = Inr k' \<Longrightarrow> stirs k k'"
proof -
  assume "bindE (txn_begin k) (\<lambda>k. bindE (on_fs f k) (\<lambda>k. Inr (txn_end k))) = Inr k'"
  then obtain k1 k2 where "txn_begin k = Inr k1" "on_fs f k1 = Inr k2" "k' = txn_end k2" by (auto simp: bindE_Inr_iff)
  then show ?thesis
    using stirs_trans [OF txn_begin_stirs stirs_trans [OF on_fs_stirs txn_end_stirs]] by blast
qed

lemma fileclose_stirs:
  assumes "locks_free k" "fileclose c i p f k = Inr k'"
  shows "stirs k k'"
proof -
  let ?k1 = "upd_file f (\<lambda>v. v\<lparr>f_ref := f_ref v - 1\<rparr>) k"
  let ?k2 = "upd_file f (\<lambda>v. v\<lparr>f_ref := 0, f_type := FD_NONE\<rparr>) ?k1"
  have s: "stirs k ?k1" "stirs k ?k2" by (rule stirs_fields; simp add: upd_file_def)+
  have "locks_free ?k2" by (rule stirs_locks_free [OF s(2) assms(1)])
  note pc = pipeclose_stirs [OF this]
  have "stirs ?k1 k' \<or> stirs ?k2 k'"
    using assms(2) iput_txn_stirs [of ?k2] pc
    by (auto simp: fileclose_def Let_def split: if_splits ftype.splits)
  then show ?thesis using s stirs_trans by blast
qed

section \<open>The invariant\<close>

definition alive :: "procstate \<Rightarrow> bool" where
  "alive s \<longleftrightarrow> s \<noteq> UNUSED \<and> s \<noteq> ZOMBIE"

abbreviation par_of :: "kern \<Rightarrow> nat \<Rightarrow> nat option" where
  "par_of k p \<equiv> p_parent (k_proc k p)"

text \<open>
  The family tree: parents are alive, every process but the first one has a parent, free slots have none, and the first process never goes away.
\<close>

definition family_ok :: "(nat \<Rightarrow> procstate) \<Rightarrow> (nat \<Rightarrow> nat option) \<Rightarrow> nat option \<Rightarrow> bool" where
  "family_ok st par ini \<longleftrightarrow>
     (\<forall>q p. par q = Some p \<longrightarrow> alive (st p)) \<and>
     (\<forall>q. st q \<noteq> UNUSED \<longrightarrow> q < NPROC \<and> (Some q \<noteq> ini \<longrightarrow> par q \<noteq> None)) \<and>
     (\<forall>q. st q = UNUSED \<longrightarrow> par q = None) \<and>
     (\<exists>q. ini = Some q \<and> alive (st q))"

text \<open>Nobody sleeps in \<^verbatim>\<open>wait\<close> while one of its children is a zombie.\<close>

definition waits_ok :: "kern \<Rightarrow> bool" where
  "waits_ok k \<longleftrightarrow> (\<forall>p q z. sleeps_on (Chan_proc p) k q \<longrightarrow> q = p \<and> (par_of k z = Some p \<longrightarrow> st_of k z \<noteq> ZOMBIE))"

definition life_inv :: "kern \<Rightarrow> bool" where
  "life_inv k \<longleftrightarrow> sched_inv k \<and> family_ok (st_of k) (par_of k) (k_initproc k) \<and> waits_ok k"

lemma family_parent: "family_ok st par ini \<Longrightarrow> par q = Some p \<Longrightarrow> alive (st p)"
  and family_used: "family_ok st par ini \<Longrightarrow> st q \<noteq> UNUSED \<Longrightarrow> q < NPROC \<and> (Some q \<noteq> ini \<longrightarrow> par q \<noteq> None)"
  and family_unused: "family_ok st par ini \<Longrightarrow> st q = UNUSED \<Longrightarrow> par q = None"
  and family_init: "family_ok st par ini \<Longrightarrow> \<exists>q. ini = Some q \<and> alive (st q)"
  unfolding family_ok_def by blast+

text \<open>A change of states within the same class keeps the tree.\<close>

lemma family_states:
  assumes "family_ok st par ini" "\<And>q. alive (st' q) = alive (st q)" "\<And>q. (st' q = UNUSED) = (st q = UNUSED)"
  shows "family_ok st' par ini"
  using assms(1) unfolding family_ok_def assms(2,3) .

lemma stirred_state:
  assumes "stirred v v'"
  shows "alive (p_state v') = alive (p_state v)" "(p_state v' = UNUSED) = (p_state v = UNUSED)" "(p_state v' = ZOMBIE) = (p_state v = ZOMBIE)"
    "(p_state v' = RUNNING) = (p_state v = RUNNING)"
    "p_parent v' = p_parent v" "p_chan v' = p_chan v" "p_lock v' = p_lock v" "p_state v' = SLEEPING \<Longrightarrow> p_state v = SLEEPING"
  using assms by (auto simp: stirred_def alive_def)

lemma stirs_proc: "stirs k k' \<Longrightarrow> stirred (k_proc k p) (k_proc k' p)"
  by (simp add: stirs_def)

lemma stirs_sleeps: "stirs k k' \<Longrightarrow> sleeps_on ch k' q \<Longrightarrow> sleeps_on ch k q"
  using stirred_state(6,8) [OF stirs_proc, of k k' q] by (simp add: sleeps_on_def)

lemma waits_ok_mono:
  assumes "waits_ok k" "\<And>p q. sleeps_on (Chan_proc p) k' q \<Longrightarrow> sleeps_on (Chan_proc p) k q"
    "\<And>q z p. sleeps_on (Chan_proc p) k' q \<Longrightarrow> par_of k' z = Some p \<Longrightarrow> st_of k' z = ZOMBIE \<Longrightarrow> par_of k z = Some p \<and> st_of k z = ZOMBIE"
  shows "waits_ok k'"
  using assms unfolding waits_ok_def by blast

text \<open>The scheduling part of the invariant only depends on locks, states and channels.\<close>

lemma sched_inv_same:
  assumes "sched_inv k" "same_cpus k k'" "\<And>p. p_lock (k_proc k' p) = None"
    "\<And>p. (st_of k' p = RUNNING) = (st_of k p = RUNNING)" "\<And>p. st_of k' p = SLEEPING \<Longrightarrow> p_chan (k_proc k' p) \<noteq> None"
  shows "sched_inv k'"
proof -
  have "on_cpu k' = on_cpu k" using same_cpus_on [OF assms(2)] by auto
  then have "running_ok (on_cpu k') (st_of k')"
    using running_ok_states [of "on_cpu k" "st_of k" "st_of k'"] assms(1,4) by (simp add: sched_inv_def)
  moreover have "locks_free k'"
    using assms(1,3) same_cpus_ok [OF assms(2)] by (simp add: sched_inv_def locks_free_def)
  ultimately show ?thesis using assms(5) by (simp add: sched_inv_def sleepers_ok_def)
qed

lemma sched_inv_stirs:
  assumes "sched_inv k" "stirs k k'"
  shows "sched_inv k'"
proof (rule sched_inv_same [OF assms(1)])
  show "same_cpus k k'" using assms(2) by (simp add: stirs_def)
  note w = stirred_state [OF stirs_proc [OF assms(2)]]
  show "p_lock (k_proc k' p) = None" for p using assms(1) w(7) [of p] by (simp add: sched_inv_def locks_free_def)
  show "(st_of k' p = RUNNING) = (st_of k p = RUNNING)" for p by (rule w(4))
  show "p_chan (k_proc k' p) \<noteq> None" if "st_of k' p = SLEEPING" for p
    using w(8) [OF that] w(6) [of p] assms(1) by (simp add: sched_inv_def sleepers_ok_def)
qed

lemma family_stirs:
  assumes "family_ok (st_of k) (par_of k) (k_initproc k)" "stirs k k'"
  shows "family_ok (st_of k') (par_of k') (k_initproc k')"
proof -
  note w = stirred_state [OF stirs_proc [OF assms(2)]]
  have "par_of k' = par_of k" "k_initproc k' = k_initproc k"
    using w(5) assms(2) by (auto simp: stirs_def same_cpus_def)
  then show ?thesis using family_states [OF assms(1), of "st_of k'"] w(1,2) by simp
qed

lemma waits_stirs: "waits_ok k \<Longrightarrow> stirs k k' \<Longrightarrow> waits_ok k'"
  by (rule waits_ok_mono, assumption, erule (1) stirs_sleeps) (simp add: stirred_state [OF stirs_proc])

lemma life_inv_stirs: "life_inv k \<Longrightarrow> stirs k k' \<Longrightarrow> life_inv k'"
  unfolding life_inv_def using sched_inv_stirs family_stirs waits_stirs by blast

section \<open>Exit\<close>

text \<open>\<open>adopt\<close> is what \<^verbatim>\<open>reparent\<close> does to a process.\<close>

definition adopt :: "nat \<Rightarrow> nat \<Rightarrow> proc \<Rightarrow> proc" where
  "adopt p ini v = (if p_parent v = Some p then v\<lparr>p_parent := Some ini\<rparr> else v)"

lemma adopt_fields [simp]: "p_state (adopt p ini v) = p_state v" "p_chan (adopt p ini v) = p_chan v" "p_lock (adopt p ini v) = p_lock v"
  "p_parent (adopt p ini v) = (if p_parent v = Some p then Some ini else p_parent v)"
  by (simp_all add: adopt_def)

lemma stirred_adopt: "stirred v v' \<Longrightarrow> stirred (adopt p ini v) (adopt p ini v')"
  by (auto simp: stirred_def adopt_def)

lemma adopt_idem: "ini \<noteq> p \<Longrightarrow> adopt p ini (adopt p ini v) = adopt p ini v"
  by (simp add: adopt_def)

definition awake :: "chan \<Rightarrow> nat \<Rightarrow> kern \<Rightarrow> bool" where
  "awake ch i k \<longleftrightarrow> (\<forall>q<NPROC. Some q \<noteq> on_cpu k i \<longrightarrow> \<not> sleeps_on ch k q)"

lemma awake_mono: "awake ch i k \<Longrightarrow> on_cpu k' i = on_cpu k i \<Longrightarrow> (\<And>q. sleeps_on ch k' q \<Longrightarrow> sleeps_on ch k q) \<Longrightarrow> awake ch i k'"
  unfolding awake_def by metis

lemma wakeup_awake:
  assumes "locks_free k"
  obtains k' where "wakeup i ch k = Inr k'" "stirs k k'" "awake ch i k'"
proof -
  obtain k' where k': "wakeup i ch k = Inr k'" "wakes k k'"
    "\<And>p. k_proc k' p = (if p < NPROC \<and> Some p \<noteq> on_cpu k i then wake ch (k_proc k p) else k_proc k p)"
    by (rule wakeup_spec [OF assms]) blast
  have "on_cpu k' i = on_cpu k i" using same_cpus_on [OF wakes_same_cpus [OF k'(2)]] .
  then have "awake ch i k'" by (simp add: awake_def sleeps_on_def k'(3) wake_def)
  with that k' wakes_stirs show ?thesis by blast
qed

text \<open>What \<^verbatim>\<open>reparent\<close> leaves: the children of \<open>p\<close> adopted, sleepers at most stirred, and nobody asleep in \<^verbatim>\<open>wait\<close> for \<open>ini\<close> if there was a child.\<close>

definition reparented :: "nat \<Rightarrow> nat \<Rightarrow> nat \<Rightarrow> nat set \<Rightarrow> kern \<Rightarrow> kern \<Rightarrow> bool" where
  "reparented i p ini S k k' \<longleftrightarrow> same_cpus k k' \<and>
     (\<forall>q. stirred (if q \<in> S then adopt p ini (k_proc k q) else k_proc k q) (k_proc k' q)) \<and>
     ((\<exists>z\<in>S. par_of k z = Some p) \<longrightarrow> awake (Chan_proc ini) i k')"

lemma reparented_stirred: "reparented i p ini S k k' \<Longrightarrow> stirred (if q \<in> S then adopt p ini (k_proc k q) else k_proc k q) (k_proc k' q)"
  and reparented_cpus: "reparented i p ini S k k' \<Longrightarrow> same_cpus k k'"
  and reparented_awake: "reparented i p ini S k k' \<Longrightarrow> z \<in> S \<Longrightarrow> par_of k z = Some p \<Longrightarrow> awake (Chan_proc ini) i k'"
  by (auto simp: reparented_def)

lemma reparented_lock: "reparented i p ini S k k' \<Longrightarrow> locks_free k \<Longrightarrow> locks_free k'"
proof -
  assume r: "reparented i p ini S k k'" and l: "locks_free k"
  have "p_lock (k_proc k' q) = None" for q
    using stirred_state(7) [OF reparented_stirred [OF r, of q]] l by (simp add: locks_free_def split: if_splits)
  then show ?thesis using same_cpus_ok [OF reparented_cpus [OF r]] l by (simp add: locks_free_def)
qed

lemma reparented_sleeps: "reparented i p ini S k k' \<Longrightarrow> sleeps_on ch k' q \<Longrightarrow> sleeps_on ch k q"
  using stirred_state(6,8) [OF reparented_stirred, of i p ini S k k' q] by (simp add: sleeps_on_def split: if_splits)

lemma reparent1_reparented:
  assumes "locks_free k" "k_initproc k = Some ini"
  obtains k' where "reparent1 i p z k = Inr k'" "reparented i p ini {z} k k'"
proof (cases "par_of k z = Some p")
  case True
  let ?k = "upd_proc z (\<lambda>v. v\<lparr>p_parent := Some ini\<rparr>) k"
  have "locks_free ?k" using assms(1) by (simp add: locks_free_def)
  then obtain k' where k': "wakeup i (Chan_proc ini) ?k = Inr k'" "stirs ?k k'" "awake (Chan_proc ini) i k'"
    using wakeup_awake by blast
  have "stirred (if q \<in> {z} then adopt p ini (k_proc k q) else k_proc k q) (k_proc k' q)" for q
    using stirs_proc [OF k'(2), of q] True by (simp add: adopt_def split: if_splits)
  moreover have "same_cpus k k'" using k'(2) by (simp add: stirs_def same_cpus_def upd_proc_def)
  ultimately have "reparented i p ini {z} k k'" using k'(3) by (simp add: reparented_def)
  moreover have "reparent1 i p z k = Inr k'" using True k'(1) assms(2) by (simp add: reparent1_def wake_proc_def)
  ultimately show ?thesis using that by blast
next
  case False
  then show ?thesis using that [of k] by (simp add: reparent1_def reparented_def adopt_def)
qed

lemma reparented_trans:
  assumes "reparented i p ini S k k1" "reparented i p ini T k1 k2" "ini \<noteq> p"
  shows "reparented i p ini (S \<union> T) k k2"
proof -
  have "stirred (if q \<in> S \<union> T then adopt p ini (k_proc k q) else k_proc k q) (k_proc k2 q)" for q
  proof -
    note a = reparented_stirred [OF assms(1), of q] reparented_stirred [OF assms(2), of q]
    show ?thesis
      using stirred_trans [OF a(1)] stirred_trans [OF stirred_adopt [OF a(1), of p ini]] a(2) adopt_idem [OF assms(3), of "k_proc k q"]
      by (cases "q \<in> S"; cases "q \<in> T") simp_all
  qed
  moreover have "awake (Chan_proc ini) i k2" if "z \<in> S \<union> T" "par_of k z = Some p" for z
  proof (cases "z \<in> S")
    case True
    show ?thesis
      by (rule awake_mono [OF reparented_awake [OF assms(1) True that(2)]])
        (use same_cpus_on [OF reparented_cpus [OF assms(2)]] reparented_sleeps [OF assms(2)] in auto)
  next
    case False
    then have "par_of k1 z = Some p" using stirred_state(5) [OF reparented_stirred [OF assms(1), of z]] that(2) by simp
    then show ?thesis using reparented_awake [OF assms(2)] that(1) False by blast
  qed
  ultimately show ?thesis
    using same_cpus_trans [OF reparented_cpus [OF assms(1)] reparented_cpus [OF assms(2)]] by (auto simp: reparented_def)
qed

lemma reparent_list:
  "locks_free k \<Longrightarrow> k_initproc k = Some ini \<Longrightarrow> ini \<noteq> p \<Longrightarrow>
   \<exists>k'. forE ps (reparent1 i p) k = Inr k' \<and> reparented i p ini (set ps) k k'"
proof (induction ps arbitrary: k)
  case (Cons z ps)
  obtain k1 where k1: "reparent1 i p z k = Inr k1" "reparented i p ini {z} k k1"
    using reparent1_reparented Cons.prems(1,2) by blast
  have "k_initproc k1 = Some ini" using same_cpus_init [OF reparented_cpus [OF k1(2)]] Cons.prems(2) by simp
  then obtain k2 where "forE ps (reparent1 i p) k1 = Inr k2" "reparented i p ini (set ps) k1 k2"
    using Cons.IH [OF reparented_lock [OF k1(2) Cons.prems(1)]] Cons.prems(3) by blast
  then show ?case using k1(1) reparented_trans [OF k1(2) _ Cons.prems(3)] by auto
qed (simp add: reparented_def)

lemma close_fd_stirs:
  assumes "locks_free k" "close_fd c i p fd k = Inr k'"
  shows "stirs k k'"
proof (cases "p_ofile (k_proc k p) ! fd")
  case None
  then show ?thesis using assms(2) by (simp add: close_fd_def)
next
  case (Some f)
  then obtain k1 where k1: "fileclose c i p f k = Inr k1" "k' = upd_proc p (\<lambda>v. v\<lparr>p_ofile := (p_ofile v)[fd := None]\<rparr>) k1"
    using assms(2) by (auto simp: close_fd_def bindE_Inr_iff)
  have "stirs k1 k'" by (simp add: k1(2) stirs_def same_cpus_def stirred_def upd_proc_def)
  then show ?thesis using stirs_trans [OF fileclose_stirs [OF assms(1) k1(1)]] by blast
qed

lemma forE_stirs:
  assumes "\<And>x k k'. locks_free k \<Longrightarrow> f x k = Inr k' \<Longrightarrow> stirs k k'"
  shows "locks_free k \<Longrightarrow> forE xs f k = Inr k' \<Longrightarrow> stirs k k'"
proof (induction xs arbitrary: k)
  case (Cons x xs)
  then obtain k1 where k1: "f x k = Inr k1" "forE xs f k1 = Inr k'" by (auto simp: bindE_Inr_iff)
  have s: "stirs k k1" by (rule assms [OF Cons.prems(1) k1(1)])
  show ?case by (rule stirs_trans [OF s Cons.IH [OF stirs_locks_free [OF s Cons.prems(1)] k1(2)]])
qed simp

lemma kpop_upd_proc: "kpop_off i (upd_proc p f k) = bindE (kpop_off i k) (\<lambda>k. Inr (upd_proc p f k))"
  by (simp add: kpop_off_def upd_proc_cpu Let_def)

lemma locks_free_push: "locks_free k \<Longrightarrow> locks_free (kpush_off i k)"
  using cpu_ok_push by (simp add: locks_free_def)

text \<open>The end of \<^verbatim>\<open>exit\<close>, after the parent was woken.\<close>

definition buried :: "nat \<Rightarrow> nat \<Rightarrow> u32 \<Rightarrow> kern \<Rightarrow> kern" where
  "buried i p status k = leave_cpu i p (c_intena (k_cpu k i)) (\<lambda>v. v\<lparr>p_xstate := status, p_state := ZOMBIE\<rparr>) k"

lemma exit_end:
  assumes "locks_free k" "on_cpu k i = Some p" "c_noff (k_cpu k i) = 1"
  shows "bindE (acquire_p i p k) (\<lambda>k. bindE (kpop_off i (upd_proc p (\<lambda>v. v\<lparr>p_xstate := status, p_state := ZOMBIE\<rparr>) k)) (sched i)) =
    Inr (buried i p status k)"
  using switch_out [OF assms, of "\<lambda>v. v\<lparr>p_xstate := status, p_state := ZOMBIE\<rparr>"]
  by (simp add: kpop_upd_proc bindE_assoc buried_def)

lemma exit_rest:
  assumes "locks_free k1" "on_cpu k1 i = Some p" "c_noff (k_cpu k1 i) = 0" "k_initproc k1 = Some ini" "ini \<noteq> p"
  obtains k2 k3 where "reparented i p ini {0..<NPROC} (kpush_off i k1) k2" "stirs k2 k3" "\<forall>r. par_of k2 p = Some r \<longrightarrow> awake (Chan_proc r) i k3"
    "bindE (reparent i p (kpush_off i k1)) (\<lambda>k. bindE (wake_proc i (p_parent (k_proc k p)) k) (\<lambda>k. bindE (acquire_p i p k) (\<lambda>k.
       bindE (kpop_off i (upd_proc p (\<lambda>v. v\<lparr>p_xstate := status, p_state := ZOMBIE\<rparr>) k)) (sched i)))) = Inr (buried i p status k3)"
proof -
  have lf1: "locks_free (kpush_off i k1)" by (rule locks_free_push [OF assms(1)])
  have "k_initproc (kpush_off i k1) = Some ini" using assms(4) by (simp add: kpush_off_def upd_cpu_def)
  then obtain k2 where k2: "reparent i p (kpush_off i k1) = Inr k2" "reparented i p ini {0..<NPROC} (kpush_off i k1) k2"
    using reparent_list [OF lf1 _ assms(5), of "[0..<NPROC]" i] by (auto simp: reparent_def)
  have lf2: "locks_free k2" by (rule reparented_lock [OF k2(2) lf1])
  obtain k3 where k3: "wake_proc i (par_of k2 p) k2 = Inr k3" "stirs k2 k3" "\<forall>r. par_of k2 p = Some r \<longrightarrow> awake (Chan_proc r) i k3"
  proof (cases "par_of k2 p")
    case None
    then show ?thesis using that [of k2] by (simp add: wake_proc_def)
  next
    case (Some r)
    obtain k3 where "wakeup i (Chan_proc r) k2 = Inr k3" "stirs k2 k3" "awake (Chan_proc r) i k3"
      by (rule wakeup_awake [OF lf2])
    then show ?thesis using that [of k3] Some by (simp add: wake_proc_def)
  qed
  have c: "same_cpus (kpush_off i k1) k3" using same_cpus_trans [OF reparented_cpus [OF k2(2)]] k3(2) by (simp add: stirs_def)
  have "on_cpu k3 i = Some p" "c_noff (k_cpu k3 i) = 1"
    using same_cpus_on [OF c, of i] same_cpus_noff [OF c, of i] assms(2,3) by simp_all
  from exit_end [OF stirs_locks_free [OF k3(2) lf2] this, of status] show ?thesis
    using that [OF k2(2) k3(2,3)] k2(1) k3(1) by simp
qed

text \<open>The beginning of \<^verbatim>\<open>exit\<close>: what it does to files and the current directory leaves the process table alone but for wakeups.\<close>

lemma exit_begin:
  assumes "locks_free k" "forE [0..<NOFILE] (close_fd c i p) k = Inr ka" "txn_begin ka = Inr kb" "on_fs (iput p cwd) kb = Inr kc"
  shows "stirs k (upd_proc p (\<lambda>v. v\<lparr>p_cwd := None\<rparr>) (txn_end kc))"
proof -
  have "stirs (txn_end kc) (upd_proc p (\<lambda>v. v\<lparr>p_cwd := None\<rparr>) (txn_end kc))" by (simp add: stirs_def same_cpus_def stirred_def upd_proc_def)
  from stirs_trans [OF stirs_trans [OF on_fs_stirs [OF assms(4)] txn_end_stirs] this]
  have "stirs kb (upd_proc p (\<lambda>v. v\<lparr>p_cwd := None\<rparr>) (txn_end kc))" .
  from stirs_trans [OF stirs_trans [OF forE_stirs [OF close_fd_stirs assms(1,2)] txn_begin_stirs [OF assms(3)]] this] show ?thesis .
qed

lemma exit_spec:
  assumes "life_inv k" "on_cpu k i = Some p" "c_noff (k_cpu k i) = 0" "exit c i status k = Inr k'"
  obtains ini k1 k2 k3 where "k_initproc k = Some ini" "ini \<noteq> p" "stirs k k1" "reparented i p ini {0..<NPROC} (kpush_off i k1) k2"
    "stirs k2 k3" "\<forall>r. par_of k2 p = Some r \<longrightarrow> awake (Chan_proc r) i k3" "k' = buried i p status k3"
proof -
  have lf: "locks_free k" using assms(1) by (simp add: life_inv_def sched_inv_free)
  obtain ini where ini: "k_initproc k = Some ini" using assms(1) family_init by (fastforce simp: life_inv_def)
  have np: "ini \<noteq> p" using assms(2,4) ini by (auto simp: exit_def myproc_def)
  obtain ka kb cwd kc where files: "forE [0..<NOFILE] (close_fd c i p) k = Inr ka" and tb: "txn_begin ka = Inr kb"
    and ip: "on_fs (iput p cwd) kb = Inr kc"
    and rest: "bindE (reparent i p (kpush_off i (upd_proc p (\<lambda>v. v\<lparr>p_cwd := None\<rparr>) (txn_end kc)))) (\<lambda>k.
       bindE (wake_proc i (p_parent (k_proc k p)) k) (\<lambda>k.
       bindE (acquire_p i p k) (\<lambda>k.
       bindE (kpop_off i (upd_proc p (\<lambda>v. v\<lparr>p_xstate := status, p_state := ZOMBIE\<rparr>) k)) (sched i)))) = Inr k'"
    using assms(2,4) ini np by (auto simp: exit_def myproc_def bindE_Inr_iff Let_def split: option.splits)
  let ?k1 = "upd_proc p (\<lambda>v. v\<lparr>p_cwd := None\<rparr>) (txn_end kc)"
  have s1: "stirs k ?k1" by (rule exit_begin [OF lf files tb ip])
  then have c: "same_cpus k ?k1" by (simp add: stirs_def)
  have k1: "on_cpu ?k1 i = Some p" "c_noff (k_cpu ?k1 i) = 0" "k_initproc ?k1 = Some ini"
    using same_cpus_on [OF c, of i] same_cpus_noff [OF c, of i] same_cpus_init [OF c] assms(2,3) ini by simp_all
  obtain k2 k3 where e: "reparented i p ini {0..<NPROC} (kpush_off i ?k1) k2" "stirs k2 k3" "\<forall>r. par_of k2 p = Some r \<longrightarrow> awake (Chan_proc r) i k3"
    "bindE (reparent i p (kpush_off i ?k1)) (\<lambda>k. bindE (wake_proc i (p_parent (k_proc k p)) k) (\<lambda>k. bindE (acquire_p i p k) (\<lambda>k.
       bindE (kpop_off i (upd_proc p (\<lambda>v. v\<lparr>p_xstate := status, p_state := ZOMBIE\<rparr>) k)) (sched i)))) = Inr (buried i p status k3)"
    by (rule exit_rest [OF stirs_locks_free [OF s1 lf] k1 np])
  have "k' = buried i p status k3" using rest e(4) by simp
  then show ?thesis using that [OF ini np s1 e(1-3)] by blast
qed

lemma buried_fields:
  "k_proc (buried i p status k) q = (if q = p then (k_proc k p)\<lparr>p_xstate := status, p_state := ZOMBIE, p_intena := c_intena (k_cpu k i)\<rparr> else k_proc k q)"
  "k_initproc (buried i p status k) = k_initproc k" "on_cpu (buried i p status k) i = None"
  by (simp_all add: buried_def leave_cpu_def upd_proc_def upd_cpu_def)

lemma family_bury:
  assumes "family_ok st par (Some ini)" "ini \<noteq> p" "alive (st p)"
  shows "family_ok (st(p := ZOMBIE)) (\<lambda>q. if q < NPROC \<and> par q = Some p then Some ini else par q) (Some ini)"
proof -
  have out: "par q = None" if "\<not> q < NPROC" for q
    using family_used [OF assms(1), of q] family_unused [OF assms(1), of q] that by blast
  have i: "alive (st ini)" using family_init [OF assms(1)] by simp
  have used: "(st(p := ZOMBIE)) q = UNUSED \<longleftrightarrow> st q = UNUSED" for q using assms(3) by (simp add: alive_def)
  show ?thesis
    unfolding family_ok_def used
  proof (intro conjI allI impI)
    fix q r assume "(if q < NPROC \<and> par q = Some p then Some ini else par q) = Some r"
    then show "alive ((st(p := ZOMBIE)) r)"
      using i assms(2) family_parent [OF assms(1), of q] out [of q] by (auto split: if_splits)
  next
    fix q assume "st q \<noteq> UNUSED"
    from family_used [OF assms(1) this] show "q < NPROC" "Some q \<noteq> Some ini \<Longrightarrow> (if q < NPROC \<and> par q = Some p then Some ini else par q) \<noteq> None"
      by simp_all
  next
    fix q assume "st q = UNUSED"
    then show "(if q < NPROC \<and> par q = Some p then Some ini else par q) = None" using family_unused [OF assms(1)] by simp
  qed (use i assms(2) in simp)
qed

lemma exit_waits:
  assumes "waits_ok k1" "reparented i p ini {0..<NPROC} (kpush_off i k1) k2" "stirs k2 k3"
    "\<forall>r. par_of k2 p = Some r \<longrightarrow> awake (Chan_proc r) i k3" "on_cpu k1 i = Some p"
    "\<And>q. st_of k1 q \<noteq> UNUSED \<Longrightarrow> q < NPROC" "\<And>q. st_of k1 q = UNUSED \<Longrightarrow> par_of k1 q = None"
  shows "waits_ok (buried i p status k3)"
proof -
  let ?k = "buried i p status k3"
  have on: "on_cpu k2 i = Some p" "on_cpu k3 i = Some p"
    using same_cpus_on [OF reparented_cpus [OF assms(2)], of i] same_cpus_on [of k2 k3 i] assms(3,5) by (simp_all add: stirs_def)
  have sl: "q \<noteq> p \<and> sleeps_on ch k3 q \<and> sleeps_on ch k2 q \<and> sleeps_on ch k1 q \<and> q < NPROC" if "sleeps_on ch ?k q" for ch q
  proof -
    have "q \<noteq> p" using that by (auto simp: sleeps_on_def buried_fields)
    then have 3: "sleeps_on ch k3 q" using that by (simp add: sleeps_on_def buried_fields)
    then have 2: "sleeps_on ch k2 q" by (rule stirs_sleeps [OF assms(3)])
    from reparented_sleeps [OF assms(2) this] have "sleeps_on ch k1 q" by (simp add: sleeps_on_def)
    moreover from this have "q < NPROC" by (intro assms(6)) (simp add: sleeps_on_def)
    ultimately show ?thesis using \<open>q \<noteq> p\<close> 2 3 by blast
  qed
  show ?thesis
    unfolding waits_ok_def
  proof (intro allI impI conjI)
    fix r q z assume s: "sleeps_on (Chan_proc r) ?k q"
    note q = sl [OF s]
    show "q = r" using q assms(1) unfolding waits_ok_def by blast
    assume "par_of ?k z = Some r"
    then have pz: "par_of k2 z = Some r"
      using stirred_state(5) [OF stirs_proc [OF assms(3), of z]] by (simp add: buried_fields split: if_splits)
    show "st_of ?k z \<noteq> ZOMBIE"
    proof (cases "z = p")
      case True
      then have "awake (Chan_proc r) i k3" using assms(4) pz by blast
      then show ?thesis using q on unfolding awake_def by fastforce
    next
      case False
      note w = stirred_state [OF reparented_stirred [OF assms(2), of z]]
      show ?thesis
      proof (cases "z \<in> {0..<NPROC} \<and> par_of k1 z = Some p")
        case True
        then have "awake (Chan_proc ini) i k2" using reparented_awake [OF assms(2), of z] by simp
        moreover have "r = ini" using w(5) True pz by simp
        ultimately show ?thesis using q on unfolding awake_def by fastforce
      next
        case adopted: False
        then have "par_of k1 z = Some r" using w(5) pz by (auto split: if_splits)
        moreover have "sleeps_on (Chan_proc r) k1 q" using q by blast
        ultimately have "st_of k1 z \<noteq> ZOMBIE" using assms(1) unfolding waits_ok_def by blast
        then have "st_of k2 z \<noteq> ZOMBIE" using w(3) by (simp split: if_splits)
        then show ?thesis using False stirred_state(3) [OF stirs_proc [OF assms(3), of z]] by (simp add: buried_fields)
      qed
    qed
  qed
qed

lemma on_cpu_running: "sched_inv k \<Longrightarrow> on_cpu k i = Some p \<Longrightarrow> st_of k p = RUNNING \<and> p < NPROC"
  using running_ok_on [of "on_cpu k" "st_of k" i p] by (simp add: sched_inv_def)

lemma exit_life:
  assumes "life_inv k" "on_cpu k i = Some p" "c_noff (k_cpu k i) = 0" "exit c i status k = Inr k'"
  shows "life_inv k'" "st_of k' p = ZOMBIE" "on_cpu k' i = None" "\<And>q. par_of k' q \<noteq> Some p"
proof -
  obtain ini k1 k2 k3 where e: "k_initproc k = Some ini" "ini \<noteq> p" "stirs k k1" "reparented i p ini {0..<NPROC} (kpush_off i k1) k2"
    "stirs k2 k3" "\<forall>r. par_of k2 p = Some r \<longrightarrow> awake (Chan_proc r) i k3" "k' = buried i p status k3"
    by (rule exit_spec [OF assms])
  have l1: "life_inv k1" by (rule life_inv_stirs [OF assms(1) e(3)])
  then have s1: "sched_inv k1" and f1: "family_ok (st_of k1) (par_of k1) (k_initproc k1)" by (simp_all add: life_inv_def)
  have on1: "on_cpu k1 i = Some p" using same_cpus_on [of k k1 i] e(3) assms(2) by (simp add: stirs_def)
  have c: "same_cpus (kpush_off i k1) k3" using same_cpus_trans [OF reparented_cpus [OF e(4)]] e(5) by (simp add: stirs_def)
  note w2 = stirred_state [OF reparented_stirred [OF e(4)]]
  note w3 = stirred_state [OF stirs_proc [OF e(5)]]
  have w: "stirred (if q \<in> {0..<NPROC} then adopt p ini (k_proc k1 q) else k_proc k1 q) (k_proc k3 q)" for q
    using stirred_trans [OF reparented_stirred [OF e(4), of q] stirs_proc [OF e(5), of q]] unfolding kpush_off_fields(1) .
  note w' = stirred_state [OF w]
  have i1: "k_initproc k1 = Some ini" using same_cpus_init [of k k1] e(1,3) by (simp add: stirs_def)
  have s3: "sched_inv k3"
  proof (rule sched_inv_same [OF sched_inv_push [OF s1] c])
    show "p_lock (k_proc k3 q) = None" for q using w'(7) [of q] s1 by (simp add: sched_inv_def locks_free_def split: if_splits)
    show "(st_of k3 q = RUNNING) = (st_of (kpush_off i k1) q = RUNNING)" for q using w'(4) [of q] by (simp split: if_splits)
    show "p_chan (k_proc k3 q) \<noteq> None" if "st_of k3 q = SLEEPING" for q
      using w'(8) [OF that] w'(6) [of q] s1 by (simp add: sched_inv_def sleepers_ok_def split: if_splits)
  qed
  have on3: "on_cpu k3 i = Some p" using same_cpus_on [OF c, of i] on1 by simp
  have st3: "st_of k3 p = RUNNING" using on_cpu_running [OF s3 on3] by simp
  have sk: "sched_inv k'"
    unfolding e(7) buried_def using sched_inv_free [OF s3] by (intro sched_inv_leave s3 on3) (auto simp: locks_free_def)
  have par: "par_of k' = (\<lambda>q. if q < NPROC \<and> par_of k1 q = Some p then Some ini else par_of k1 q)"
    using w'(5) by (auto simp: e(7) buried_fields fun_eq_iff split: if_splits)
  have "family_ok (st_of k3) (par_of k1) (Some ini)"
    using family_states [OF f1, of "st_of k3"] w'(1,2) i1 by (simp split: if_splits)
  from family_bury [OF this e(2)] st3 have "family_ok ((st_of k3)(p := ZOMBIE)) (par_of k') (Some ini)" by (simp add: par alive_def)
  moreover have "(st_of k3)(p := ZOMBIE) = st_of k'" by (auto simp: e(7) buried_fields)
  moreover have "k_initproc k' = Some ini"
    using same_cpus_init [OF c] i1 by (simp add: e(7) buried_fields kpush_off_def upd_cpu_def)
  moreover have "waits_ok k'"
    unfolding e(7) using l1 by (intro exit_waits [OF _ e(4-6) on1]) (auto simp: life_inv_def dest: family_used [OF f1] family_unused [OF f1])
  ultimately show "life_inv k'" using sk by (simp add: life_inv_def)
  show "st_of k' p = ZOMBIE" "on_cpu k' i = None" by (simp_all add: e(7) buried_fields)
  show "par_of k' q \<noteq> Some p" for q
  proof
    assume "par_of k' q = Some p"
    then have "par_of k1 q = Some p" "\<not> q < NPROC" using e(2) fun_cong [OF par, of q] by (auto split: if_splits)
    then show False using family_used [OF f1, of q] family_unused [OF f1, of q] by auto
  qed
qed

section \<open>Wait\<close>

abbreviation kids :: "kern \<Rightarrow> nat \<Rightarrow> nat list" where
  "kids k p \<equiv> filter (\<lambda>q. par_of k q = Some p) [0..<NPROC]"

abbreviation zombies :: "kern \<Rightarrow> nat \<Rightarrow> nat list" where
  "zombies k p \<equiv> filter (\<lambda>q. st_of k q = ZOMBIE) (kids k p)"

definition grab :: "nat \<Rightarrow> nat \<Rightarrow> kern \<Rightarrow> kern" where
  "grab i z k = upd_proc z (\<lambda>v. v\<lparr>p_lock := Some i\<rparr>) (kpush_off i k)"

lemma grab_free: "locks_free k \<Longrightarrow> acquire_p i z k = Inr (grab i z k)"
  by (simp add: acquire_free grab_def locks_free_def)

lemma grab_fields [simp]: "k_proc (grab i z k) = (k_proc k)(z := (k_proc k z)\<lparr>p_lock := Some i\<rparr>)" "k_mem (grab i z k) = k_mem k"
  "same_cpus (kpush_off i k) (grab i z k)"
  by (simp_all add: grab_def same_cpus_def upd_proc_def)

lemma release_grab: "locks_free k \<Longrightarrow> release_p i z (grab i z k) = Inr (settle i k)"
  using release_held_same [of k i z] by (simp add: grab_def locks_free_def upd_proc_def fun_upd_idem)

text \<open>Releasing a lock that was taken in state \<open>k\<close>, whatever was done under it.\<close>

lemma release_section:
  assumes "cpu_ok (k_cpu k i)" "same_cpus (kpush_off i k) k1" "p_lock (k_proc k1 z) = Some i"
  obtains k' where "release_p i z k1 = Inr k'" "same_cpus k k'" "k_proc k' = (k_proc k1)(z := (k_proc k1 z)\<lparr>p_lock := None\<rparr>)" "k_mem k' = k_mem k1"
proof -
  have "same_cpus (kpush_off i k) (upd_proc z (\<lambda>v. v\<lparr>p_lock := None\<rparr>) k1)" using assms(2) by (simp add: same_cpus_def upd_proc_def)
  note p = popped_same_cpus [OF assms(1) this]
  show ?thesis using that [of "popped i (upd_proc z (\<lambda>v. v\<lparr>p_lock := None\<rparr>) k1)"] p assms(3) by (simp add: release_p_def holding_p_def)
qed

lemma wait_scan_spec:
  "locks_free k \<Longrightarrow> \<exists>k1. wakes k k1 \<and> k_proc k1 = k_proc k \<and>
     wait_scan c i p a ps hk k =
       (case filter (\<lambda>q. st_of k q = ZOMBIE) (filter (\<lambda>q. par_of k q = Some p) ps) of
          [] \<Rightarrow> Inr (Inr (hk \<or> filter (\<lambda>q. par_of k q = Some p) ps \<noteq> []), k1)
        | z # _ \<Rightarrow> bindE (wait_reap c i p a z (grab i z k1)) (\<lambda>(x, k). Inr (Inl x, k)))"
proof (induction ps arbitrary: k hk)
  case (Cons q ps)
  show ?case
  proof (cases "par_of k q = Some p \<and> st_of k q = ZOMBIE")
    case True
    then show ?thesis by (intro exI [of _ k]) (simp add: grab_free [OF Cons.prems])
  next
    case False
    let ?k = "if par_of k q = Some p then settle i k else k"
    have w: "wakes k ?k" "k_proc ?k = k_proc k" using wakes_settle by simp_all
    obtain k1 where k1: "wakes ?k k1" "k_proc k1 = k_proc ?k" "wait_scan c i p a ps (hk \<or> par_of k q = Some p) ?k =
       (case filter (\<lambda>q. st_of ?k q = ZOMBIE) (filter (\<lambda>q. par_of ?k q = Some p) ps) of
          [] \<Rightarrow> Inr (Inr ((hk \<or> par_of k q = Some p) \<or> filter (\<lambda>q. par_of ?k q = Some p) ps \<noteq> []), k1)
        | z # _ \<Rightarrow> bindE (wait_reap c i p a z (grab i z k1)) (\<lambda>(x, k). Inr (Inl x, k)))"
      using Cons.IH [OF wakes_locks_free [OF w(1) Cons.prems]] by blast
    have "wait_scan c i p a (q # ps) hk k = wait_scan c i p a ps (hk \<or> par_of k q = Some p) ?k"
      using False grab_free [OF Cons.prems] release_grab [OF Cons.prems] by simp
    with k1 w(2) wakes_trans [OF w(1) k1(1)] False show ?thesis by (intro exI [of _ k1]) (auto split: list.splits)
  qed
qed auto

text \<open>Does the status of child \<open>z\<close> reach the address that the parent gave?\<close>

definition status_fails :: "nat \<Rightarrow> u64 \<Rightarrow> nat \<Rightarrow> kern \<Rightarrow> bool" where
  "status_fails p a z k \<longleftrightarrow> a \<noteq> 0 \<and> fst (copyout (p_pagetable (k_proc k p)) a (bytes_le 4 (unat (p_xstate (k_proc k z)))) (k_mem k)) < 0"

lemma freeproc_spec:
  assumes "freeproc c z k = Inr k'"
  obtains m where "k' = upd_proc z (\<lambda>v. v\<lparr>p_trapframe := 0, p_pagetable := 0, p_sz := 0, p_pid := 0, p_parent := None, p_name := (p_name v)[0 := 0],
             p_chan := None, p_killed := False, p_xstate := 0, p_state := UNUSED\<rparr>) (k\<lparr>k_mem := m\<rparr>)"
  using assms unfolding freeproc_def Let_def bindE_Inr_iff by blast

definition reaped :: "nat \<Rightarrow> kern \<Rightarrow> kern \<Rightarrow> bool" where
  "reaped z k k' \<longleftrightarrow> (\<forall>q. q \<noteq> z \<longrightarrow> k_proc k' q = k_proc k q) \<and>
     st_of k' z = UNUSED \<and> par_of k' z = None \<and> p_lock (k_proc k' z) = None"

lemma wait_reap_spec:
  assumes "locks_free k" "0 < c_noff (k_cpu k i)" "z \<noteq> p" "wait_reap c i p a z (grab i z k) = Inr (x, k')"
  shows "\<exists>k1. k' = popped i k1 \<and> same_cpus k k1 \<and>
    (if status_fails p a z k then x = -1 \<and> k_proc k1 = k_proc k else x = sint (p_pid (k_proc k z)) \<and> reaped z k k1)"
proof -
  have ok: "cpu_ok (k_cpu k i)" and l: "p_lock (k_proc k z) = None" using assms(1) by (simp_all add: locks_free_def)
  have pop: "kpop_off i k1 = Inr (popped i k1)" if "same_cpus k k1" for k1
    using same_cpus_ok [OF that, of i] same_cpus_noff [OF that, of i] ok assms(2) by (intro kpop_ok) simp_all
  let ?r = "if a \<noteq> 0 then copyout (p_pagetable (k_proc k p)) a (bytes_le 4 (unat (p_xstate (k_proc k z)))) (k_mem k) else (0, k_mem k)"
  obtain r m where rm: "?r = (r, m)" by fastforce
  have sf: "status_fails p a z k \<longleftrightarrow> r < 0" using rm by (auto simp: status_fails_def split: if_splits)
  let ?k = "(grab i z k)\<lparr>k_mem := m\<rparr>"
  have sc: "same_cpus (kpush_off i k) ?k" using grab_fields(3) by (simp add: same_cpus_def)
  have w: "(if r < 0 then bindE (release_p i z ?k) (\<lambda>k. bindE (kpop_off i k) (\<lambda>k. Inr (-1, k)))
      else bindE (freeproc c z ?k) (\<lambda>k1. bindE (release_p i z k1) (\<lambda>k1. bindE (kpop_off i k1) (\<lambda>k1. Inr (sint (p_pid (k_proc k z)), k1))))) = Inr (x, k')"
    using assms(3,4) rm by (cases "a = 0") (simp_all add: wait_reap_def Let_def)
  show ?thesis
  proof (cases "r < 0")
    case True
    obtain k1 where k1: "release_p i z ?k = Inr k1" "same_cpus k k1" "k_proc k1 = (k_proc ?k)(z := (k_proc ?k z)\<lparr>p_lock := None\<rparr>)"
      by (rule release_section [OF ok sc, of z]) simp_all
    then have "k_proc k1 = k_proc k" using l by (simp add: fun_upd_idem)
    then show ?thesis using w True k1(1) pop [OF k1(2)] k1(2) sf by auto
  next
    case False
    then obtain k2 where k2: "freeproc c z ?k = Inr k2" using w by (auto simp: bindE_Inr_iff)
    then obtain m' where m': "k2 = upd_proc z (\<lambda>v. v\<lparr>p_trapframe := 0, p_pagetable := 0, p_sz := 0, p_pid := 0, p_parent := None, p_name := (p_name v)[0 := 0],
             p_chan := None, p_killed := False, p_xstate := 0, p_state := UNUSED\<rparr>) (?k\<lparr>k_mem := m'\<rparr>)"
      by (rule freeproc_spec)
    have sc2: "same_cpus (kpush_off i k) k2" using sc by (simp add: m' same_cpus_def upd_proc_def)
    obtain k1 where k1: "release_p i z k2 = Inr k1" "same_cpus k k1" "k_proc k1 = (k_proc k2)(z := (k_proc k2 z)\<lparr>p_lock := None\<rparr>)"
      by (rule release_section [OF ok sc2, of z]) (simp_all add: m')
    then have "reaped z k k1" by (simp add: reaped_def m')
    then show ?thesis using w False k2 k1(1) pop [OF k1(2)] k1(2) sf by auto
  qed
qed

lemma initproc_nesting [simp]: "k_initproc (kpush_off i k) = k_initproc k" "k_initproc (popped i k) = k_initproc k"
  by (simp_all add: kpush_off_def popped_def upd_cpu_def)

lemma life_inv_push: "life_inv k \<Longrightarrow> life_inv (kpush_off i k)"
  by (simp add: life_inv_def sched_inv_push waits_ok_def sleeps_on_def)

lemma life_inv_popped: "life_inv k \<Longrightarrow> 0 < c_noff (k_cpu k i) \<Longrightarrow> life_inv (popped i k)"
  by (simp add: life_inv_def sched_inv_popped waits_ok_def sleeps_on_def)

lemma life_inv_same: "life_inv k \<Longrightarrow> same_cpus k k' \<Longrightarrow> k_proc k' = k_proc k \<Longrightarrow> life_inv k'"
  by (erule life_inv_stirs) (simp add: stirs_def)

lemma family_reap:
  assumes "family_ok st par ini" "\<not> alive (st z)"
  shows "family_ok (st(z := UNUSED)) (par(z := None)) ini"
proof -
  have i: "\<exists>q. ini = Some q \<and> alive (st q)" by (rule family_init [OF assms(1)])
  have "alive ((st(z := UNUSED)) q) = alive (st q)" for q using assms(2) by (auto simp: alive_def)
  then show ?thesis
    using i family_parent [OF assms(1)] family_used [OF assms(1)] family_unused [OF assms(1)]
    unfolding family_ok_def by (auto split: if_splits)
qed

lemma life_inv_reaped:
  assumes "life_inv k" "same_cpus k k'" "reaped z k k'" "\<not> alive (st_of k z)"
  shows "life_inv k'"
proof -
  have s: "sched_inv k" and f: "family_ok (st_of k) (par_of k) (k_initproc k)" and w: "waits_ok k" using assms(1) by (simp_all add: life_inv_def)
  have q: "k_proc k' q = k_proc k q" if "q \<noteq> z" for q using assms(3) that by (simp add: reaped_def)
  have z: "st_of k' z = UNUSED" "par_of k' z = None" "p_lock (k_proc k' z) = None" using assms(3) by (simp_all add: reaped_def)
  have "sched_inv k'"
  proof (rule sched_inv_same [OF s assms(2)])
    fix x
    show "p_lock (k_proc k' x) = None" using z(3) q [of x] s by (cases "x = z") (simp_all add: sched_inv_def locks_free_def)
    show "(st_of k' x = RUNNING) = (st_of k x = RUNNING)" using z(1) q [of x] assms(4) by (cases "x = z") (auto simp: alive_def)
    show "p_chan (k_proc k' x) \<noteq> None" if "st_of k' x = SLEEPING"
      using that z(1) q [of x] s by (cases "x = z") (simp_all add: sched_inv_def sleepers_ok_def)
  qed
  moreover have "st_of k' = (st_of k)(z := UNUSED)" "par_of k' = (par_of k)(z := None)" using z q by auto
  then have "family_ok (st_of k') (par_of k') (k_initproc k')" using family_reap [OF f assms(4)] same_cpus_init [OF assms(2)] by simp
  moreover have "waits_ok k'"
  proof (rule waits_ok_mono [OF w])
    show "sleeps_on (Chan_proc x) k y" if "sleeps_on (Chan_proc x) k' y" for x y
      using that z(1) q [of y] by (cases "y = z") (simp_all add: sleeps_on_def)
    show "par_of k y = Some x \<and> st_of k y = ZOMBIE" if "par_of k' y = Some x" "st_of k' y = ZOMBIE" for x y
      using that z(1) q [of y] by (cases "y = z") simp_all
  qed
  ultimately show ?thesis by (simp add: life_inv_def)
qed

lemma life_inv_leave:
  assumes "life_inv k" "on_cpu k i = Some p" "p_lock (f (k_proc k p)) = None" "par_of k p = p_parent (f (k_proc k p))"
    "p_state (f (k_proc k p)) = RUNNABLE \<or> p_state (f (k_proc k p)) = SLEEPING \<and> p_chan (f (k_proc k p)) \<noteq> None \<and>
      (\<forall>q. p_chan (f (k_proc k p)) = Some (Chan_proc q) \<longrightarrow> q = p \<and> zombies k p = [])"
  shows "life_inv (leave_cpu i p b f k)"
proof -
  let ?k = "leave_cpu i p b f k"
  have s: "sched_inv k" and fam: "family_ok (st_of k) (par_of k) (k_initproc k)" and w: "waits_ok k" using assms(1) by (simp_all add: life_inv_def)
  have r: "st_of k p = RUNNING" using on_cpu_running [OF s assms(2)] by simp
  have "sched_inv ?k" using assms(3,5) by (intro sched_inv_leave s assms(2)) auto
  moreover have pr: "k_proc ?k q = (if q = p then (f (k_proc k p))\<lparr>p_intena := b\<rparr> else k_proc k q)" "k_initproc ?k = k_initproc k" for q
    by (simp_all add: leave_cpu_def upd_proc_def upd_cpu_def)
  have "par_of ?k = par_of k" using assms(4) by (auto simp: pr)
  moreover from this have "family_ok (st_of ?k) (par_of ?k) (k_initproc ?k)"
    using family_states [OF fam, of "st_of ?k"] assms(5) r by (auto simp: pr alive_def)
  moreover have "waits_ok ?k"
    unfolding waits_ok_def
  proof (intro allI impI conjI)
    fix x y z assume sl: "sleeps_on (Chan_proc x) ?k y"
    have "y = p \<and> x = p \<and> zombies k p = [] \<or> sleeps_on (Chan_proc x) k y"
      using sl assms(5) by (auto simp: sleeps_on_def pr split: if_splits)
    then show "y = x" using w unfolding waits_ok_def by blast
    assume pz: "par_of ?k z = Some x"
    have zn: "st_of ?k p \<noteq> ZOMBIE" using assms(5) by (auto simp: pr)
    show "st_of ?k z \<noteq> ZOMBIE"
    proof (cases "z = p")
      case False
      then have "par_of k z = Some x" "st_of ?k z = st_of k z" using pz by (simp_all add: pr)
      moreover from this have "z < NPROC" using family_used [OF fam, of z] family_unused [OF fam, of z] by auto
      moreover note \<open>y = p \<and> x = p \<and> zombies k p = [] \<or> sleeps_on (Chan_proc x) k y\<close> w
      ultimately show ?thesis unfolding waits_ok_def filter_empty_conv by auto
    qed (use zn in simp)
  qed
  ultimately show ?thesis by (simp add: life_inv_def)
qed

definition wait_outcome :: "nat \<Rightarrow> u64 \<Rightarrow> kern \<Rightarrow> progress \<Rightarrow> kern \<Rightarrow> bool" where
  "wait_outcome p a k r k' \<longleftrightarrow>
     (case zombies k p of
        z # _ \<Rightarrow>
          if status_fails p a z k then r = Returned (-1) \<and> k_proc k' = k_proc k
          else r = Returned (sint (p_pid (k_proc k z))) \<and> reaped z k k'
      | [] \<Rightarrow>
          if kids k p = [] \<or> p_killed (k_proc k p) then r = Returned (-1) \<and> k_proc k' = k_proc k
          else r = Asleep 0 \<and> sleeps_on (Chan_proc p) k' p \<and> (\<forall>q. q \<noteq> p \<longrightarrow> k_proc k' q = k_proc k q))"

lemma wait_from_spec:
  assumes "life_inv k" "on_cpu k i = Some p" "c_noff (k_cpu k i) = 1" "wait_from c i p a k = Inr (r, k')"
  shows "life_inv k' \<and> wait_outcome p a k r k'"
proof -
  have s: "sched_inv k" using assms(1) by (simp add: life_inv_def)
  have lf: "locks_free k" by (rule sched_inv_free [OF s])
  obtain k1 where k1: "wakes k k1" "k_proc k1 = k_proc k" "wait_scan c i p a [0..<NPROC] False k =
       (case zombies k p of [] \<Rightarrow> Inr (Inr (kids k p \<noteq> []), k1)
        | z # _ \<Rightarrow> bindE (wait_reap c i p a z (grab i z k1)) (\<lambda>(x, k). Inr (Inl x, k)))"
    using wait_scan_spec [OF lf, of c i p a "[0..<NPROC]" False, unfolded simp_thms] by blast
  have c1: "same_cpus k k1" by (rule wakes_same_cpus [OF k1(1)])
  have l1: "life_inv k1" by (rule life_inv_same [OF assms(1) c1 k1(2)])
  have lf1: "locks_free k1" by (rule wakes_locks_free [OF k1(1) lf])
  have n1: "c_noff (k_cpu k1 i) = 1" "on_cpu k1 i = Some p" using same_cpus_noff [OF c1] same_cpus_on [OF c1] assms(2,3) by simp_all
  have ok: "cpu_ok (k_cpu k1 i)" using lf1 by (simp add: locks_free_def)
  show ?thesis
  proof (cases "zombies k p")
    case (Cons z zs)
    then have "z \<in> set (zombies k p)" by simp
    then have z: "st_of k z = ZOMBIE" by simp
    then have "z \<noteq> p" using on_cpu_running [OF s assms(2)] by auto
    moreover obtain x where x: "wait_reap c i p a z (grab i z k1) = Inr (x, k')" "r = Returned x"
      using assms(4) k1(3) Cons by (auto simp: wait_from_def bindE_Inr_iff)
    ultimately obtain k2 where k2: "k' = popped i k2" "same_cpus k1 k2"
      "if status_fails p a z k1 then x = -1 \<and> k_proc k2 = k_proc k1 else x = sint (p_pid (k_proc k1 z)) \<and> reaped z k1 k2"
      using wait_reap_spec [OF lf1, of i z p c a x k'] n1(1) by auto
    have m: "status_fails p a z k1 = status_fails p a z k" using k1(2) wakes_rest [OF k1(1)] by (simp add: status_fails_def)
    have "life_inv k2"
      using life_inv_same [OF l1 k2(2)] life_inv_reaped [OF l1 k2(2)] k2(3) z k1(2) by (auto simp: alive_def split: if_splits)
    moreover have "0 < c_noff (k_cpu k2 i)" using same_cpus_noff [OF k2(2)] n1 by simp
    ultimately have "life_inv k'" unfolding k2(1) by (rule life_inv_popped)
    moreover have "wait_outcome p a k r k'"
      using k2(3) x(2) k1(2) Cons m by (simp add: wait_outcome_def k2(1) reaped_def split: if_splits)
    ultimately show ?thesis ..
  next
    case Nil
    show ?thesis
    proof (cases "kids k p = [] \<or> p_killed (k_proc k p)")
      case True
      let ?k = "if kids k p = [] then k1 else settle i k1"
      have sc: "same_cpus k1 ?k" "k_proc ?k = k_proc k1" using same_cpus_settle by simp_all
      have "kpop_off i ?k = Inr (popped i ?k)" using same_cpus_ok [OF sc(1)] same_cpus_noff [OF sc(1)] ok n1 by (intro kpop_ok) simp_all
      then have k': "k' = popped i ?k" "r = Returned (-1)"
        using assms(4) k1(2,3) Nil True killed_spec [OF lf1] by (auto simp: wait_from_def split: if_splits)
      have "life_inv k'" unfolding k'(1) using same_cpus_noff [OF sc(1)] n1 by (intro life_inv_popped life_inv_same [OF l1] sc) simp
      then show ?thesis using Nil True k1(2) sc(2) k' by (auto simp: wait_outcome_def)
    next
      case False
      let ?k = "settle i k1"
      have lfs: "locks_free ?k" by (rule wakes_locks_free [OF wakes_settle lf1])
      have ons: "on_cpu ?k i = Some p" "c_noff (k_cpu ?k i) = 1"
        using same_cpus_on [OF same_cpus_settle] same_cpus_noff [OF same_cpus_settle] n1 by simp_all
      have ls: "life_inv ?k" by (rule life_inv_same [OF l1 same_cpus_settle]) simp
      let ?f = "\<lambda>v. v\<lparr>p_chan := Some (Chan_proc p), p_state := SLEEPING\<rparr>"
      have k': "k' = leave_cpu i p (c_intena (k_cpu ?k i)) ?f ?k" "r = Asleep 0"
        using assms(4) k1(2,3) Nil False killed_spec [OF lf1] sleep_spec [OF lfs ons] by (auto simp: wait_from_def)
      have "life_inv k'"
        unfolding k'(1) using lfs Nil k1(2) by (intro life_inv_leave [OF ls ons(1)]) (simp_all add: locks_free_def)
      then show ?thesis using Nil False k1(2) k' by (auto simp: wait_outcome_def sleeps_on_def leave_cpu_def)
    qed
  qed
qed

section \<open>Fork\<close>

text \<open>\<open>slot_held i np k k2\<close>: since state \<open>k\<close>, CPU \<open>i\<close> took the lock of slot \<open>np\<close> and changed no other process.\<close>

definition slot_held :: "nat \<Rightarrow> nat \<Rightarrow> kern \<Rightarrow> kern \<Rightarrow> bool" where
  "slot_held i np k k2 \<longleftrightarrow> same_cpus (kpush_off i k) k2 \<and> (\<forall>q. q \<noteq> np \<longrightarrow> k_proc k2 q = k_proc k q) \<and> p_lock (k_proc k2 np) = Some i"

lemma held_other: "slot_held i np k k2 \<Longrightarrow> q \<noteq> np \<Longrightarrow> k_proc k2 q = k_proc k q"
  by (simp add: slot_held_def)

lemma held_upd: "slot_held i np k k2 \<Longrightarrow> p_lock (f (k_proc k2 np)) = p_lock (k_proc k2 np) \<Longrightarrow> slot_held i np k (upd_proc np f k2)"
  by (simp add: slot_held_def same_cpus_def upd_proc_def)

lemma held_rest: "slot_held i np k k2 \<Longrightarrow> k_proc k3 = k_proc k2 \<Longrightarrow> k_cpu k3 = k_cpu k2 \<Longrightarrow> k_initproc k3 = k_initproc k2 \<Longrightarrow> slot_held i np k k3"
  by (simp add: slot_held_def same_cpus_def)

lemma held_release:
  assumes "locks_free k" "slot_held i np k k2"
  obtains k' where "release_p i np k2 = Inr k'" "same_cpus k k'" "\<And>q. q \<noteq> np \<Longrightarrow> k_proc k' q = k_proc k q"
    "k_proc k' np = (k_proc k2 np)\<lparr>p_lock := None\<rparr>"
proof -
  have "cpu_ok (k_cpu k i)" using assms(1) by (simp add: locks_free_def)
  from release_section [OF this, of k2 np] assms(2) obtain k' where
    "release_p i np k2 = Inr k'" "same_cpus k k'" "k_proc k' = (k_proc k2)(np := (k_proc k2 np)\<lparr>p_lock := None\<rparr>)"
    by (auto simp: slot_held_def)
  then show ?thesis using that [of k'] assms(2) by (simp add: slot_held_def)
qed

lemma same_cpus_push: "same_cpus k k' \<Longrightarrow> same_cpus (kpush_off i k) (kpush_off i k')"
  unfolding same_cpus_def by (auto simp: same_cpu_def kpush_off_def upd_cpu_def Let_def)

lemma allocproc_scan_spec:
  "locks_free k \<Longrightarrow> \<exists>k1. wakes k k1 \<and> k_proc k1 = k_proc k \<and>
     allocproc_scan i ps k = (case List.find (\<lambda>p. st_of k p = UNUSED) ps of None \<Rightarrow> Inr (None, k1) | Some np \<Rightarrow> Inr (Some np, grab i np k1))"
proof (induction ps arbitrary: k)
  case (Cons p ps)
  show ?case
  proof (cases "st_of k p = UNUSED")
    case True
    then show ?thesis by (intro exI [of _ k]) (simp add: grab_free [OF Cons.prems])
  next
    case False
    obtain k1 where "wakes (settle i k) k1" "k_proc k1 = k_proc k"
      "allocproc_scan i ps (settle i k) = (case List.find (\<lambda>p. st_of k p = UNUSED) ps of None \<Rightarrow> Inr (None, k1) | Some np \<Rightarrow> Inr (Some np, grab i np k1))"
      using Cons.IH [OF wakes_locks_free [OF wakes_settle Cons.prems], unfolded settle_fields(1)] by blast
    then show ?thesis
      using False wakes_trans [OF wakes_settle] by (auto simp: grab_free [OF Cons.prems] release_grab [OF Cons.prems])
  qed
qed auto

lemma freeproc_held:
  assumes "locks_free k" "slot_held i np k k2" "bindE (freeproc c np k2) (\<lambda>k. bindE (release_p i np k) (\<lambda>k. Inr (x, k))) = Inr (y, k')"
  shows "y = x \<and> same_cpus k k' \<and> reaped np k k'"
proof -
  obtain k3 where k3: "freeproc c np k2 = Inr k3" "bindE (release_p i np k3) (\<lambda>k. Inr (x, k)) = Inr (y, k')"
    using assms(3) by (auto simp: bindE_Inr_iff)
  obtain m where m: "k3 = upd_proc np (\<lambda>v. v\<lparr>p_trapframe := 0, p_pagetable := 0, p_sz := 0, p_pid := 0, p_parent := None, p_name := (p_name v)[0 := 0],
             p_chan := None, p_killed := False, p_xstate := 0, p_state := UNUSED\<rparr>) (k2\<lparr>k_mem := m\<rparr>)"
    by (rule freeproc_spec [OF k3(1)])
  have "slot_held i np k k3"
    unfolding m by (rule held_upd [OF held_rest [OF assms(2)]]) simp_all
  from held_release [OF assms(1) this] obtain k4 where
    "release_p i np k3 = Inr k4" "same_cpus k k4" "\<And>q. q \<noteq> np \<Longrightarrow> k_proc k4 q = k_proc k q" "k_proc k4 np = (k_proc k3 np)\<lparr>p_lock := None\<rparr>"
    by blast
  then show ?thesis using k3(2) by (auto simp: reaped_def m)
qed

text \<open>A process slot under construction: still without a parent and the memory of it private to the caller.\<close>

definition allocated :: "nat \<Rightarrow> nat \<Rightarrow> kern \<Rightarrow> kern \<Rightarrow> bool" where
  "allocated i np k k2 \<longleftrightarrow> np < NPROC \<and> st_of k np = UNUSED \<and> slot_held i np k k2 \<and> st_of k2 np = USED \<and>
     p_pid (k_proc k2 np) = k_nextpid k \<and> p_ofile (k_proc k2 np) = p_ofile (k_proc k np) \<and> par_of k2 np = par_of k np"

lemma allocproc_spec:
  assumes "locks_free k" "allocproc c entry i k = Inr (x, k')"
  shows "case x of None \<Rightarrow> same_cpus k k' \<and> (k_proc k' = k_proc k \<or> (\<exists>np. st_of k np = UNUSED \<and> reaped np k k')) | Some np \<Rightarrow> allocated i np k k'"
proof -
  obtain k1 where k1: "wakes k k1" "k_proc k1 = k_proc k"
    "allocproc_scan i [0..<NPROC] k = (case List.find (\<lambda>p. st_of k p = UNUSED) [0..<NPROC] of None \<Rightarrow> Inr (None, k1) | Some np \<Rightarrow> Inr (Some np, grab i np k1))"
    using allocproc_scan_spec [OF assms(1)] by blast
  have c1: "same_cpus k k1" by (rule wakes_same_cpus [OF k1(1)])
  show ?thesis
  proof (cases "List.find (\<lambda>p. st_of k p = UNUSED) [0..<NPROC]")
    case None
    then show ?thesis using assms(2) k1 c1 by (auto simp: allocproc_def)
  next
    case (Some np)
    then have np: "np < NPROC" "st_of k np = UNUSED" by (auto simp: find_Some_iff)
    have nx: "k_nextpid k1 = k_nextpid k"
    proof -
      have "k1\<lparr>k_proc := k_proc k, k_cpu := k_cpu k\<rparr> = k" using k1(1) by (simp add: wakes_def)
      from arg_cong [OF this, of k_nextpid] show ?thesis by simp
    qed
    have h0: "slot_held i np k (grab i np k1)"
      using same_cpus_trans [OF same_cpus_push [OF c1] grab_fields(3)] k1(2) by (simp add: slot_held_def)
    let ?g = "grab i np k1"
    let ?k2 = "upd_proc np (\<lambda>v. v\<lparr>p_pid := k_nextpid ?g, p_state := USED\<rparr>) (?g\<lparr>k_nextpid := k_nextpid ?g + 1\<rparr>)"
    obtain tf m where tf: "kalloc (k_mem k1) = (tf, m)" by fastforce
    let ?k3 = "upd_proc np (\<lambda>v. v\<lparr>p_trapframe := tf\<rparr>) (?k2\<lparr>k_mem := m\<rparr>)"
    have h3: "slot_held i np k ?k3"
      by (rule held_upd [OF held_rest [OF held_upd [OF held_rest [OF h0]]]]) simp_all
    have gn: "k_nextpid ?g = k_nextpid k" using nx by (simp add: grab_def upd_proc_def kpush_off_def upd_cpu_def)
    let ?fail = "\<lambda>k. bindE (freeproc c np k) (\<lambda>k. bindE (release_p i np k) (\<lambda>k. Inr (None, k)))"
    have a: "(if tf = 0 then ?fail ?k3 else
        bindE (proc_pagetable c tf (k_mem ?k3)) (\<lambda>(pt, m).
          let k = upd_proc np (\<lambda>v. v\<lparr>p_pagetable := pt\<rparr>) (?k3\<lparr>k_mem := m\<rparr>) in
          if pt = 0 then ?fail k
          else Inr (Some np, upd_proc np (\<lambda>v. v\<lparr>p_context := \<lparr>ctx_ra = entry, ctx_sp = p_kstack v + word_of_nat PGSIZE, ctx_s = replicate 12 0\<rparr>\<rparr>) k))) = Inr (x, k')"
      using assms(2) k1(3) Some tf by (cases "tf = 0") (simp_all add: allocproc_def allocpid_def Let_def)
    show ?thesis
    proof (cases "tf = 0")
      case True
      then show ?thesis using freeproc_held [OF assms(1) h3, of c None x k'] a np by auto
    next
      case False
      then obtain pt m' where pt: "proc_pagetable c tf (k_mem ?k3) = Inr (pt, m')" using a by (auto simp: bindE_Inr_iff)
      let ?k4 = "upd_proc np (\<lambda>v. v\<lparr>p_pagetable := pt\<rparr>) (?k3\<lparr>k_mem := m'\<rparr>)"
      have h4: "slot_held i np k ?k4" by (rule held_upd [OF held_rest [OF h3]]) simp_all
      show ?thesis
      proof (cases "pt = 0")
        case True
        then show ?thesis using freeproc_held [OF assms(1) h4, of c None x k'] a np False pt by (auto simp: Let_def)
      next
        case pos: False
        then have "x = Some np" "k' = upd_proc np (\<lambda>v. v\<lparr>p_context := \<lparr>ctx_ra = entry, ctx_sp = p_kstack v + word_of_nat PGSIZE, ctx_s = replicate 12 0\<rparr>\<rparr>) ?k4"
          using a False pt by (simp_all add: Let_def)
        moreover have "slot_held i np k (upd_proc np (\<lambda>v. v\<lparr>p_context := \<lparr>ctx_ra = entry, ctx_sp = p_kstack v + word_of_nat PGSIZE, ctx_s = replicate 12 0\<rparr>\<rparr>) ?k4)"
          by (rule held_upd [OF h4]) simp
        ultimately show ?thesis using np k1(2) gn by (simp add: allocated_def)
      qed
    qed
  qed
qed

lemma fork_file_held:
  assumes "np \<noteq> p" "slot_held i np k k2" "fork_file p np fd k2 = Inr k3"
  shows "slot_held i np k k3 \<and> k_proc k3 np = (k_proc k2 np)\<lparr>p_ofile := p_ofile (k_proc k3 np)\<rparr> \<and>
    (\<forall>f. p_ofile (k_proc k p) ! fd = Some f \<longrightarrow> fd < length (p_ofile (k_proc k2 np)) \<longrightarrow> p_ofile (k_proc k3 np) ! fd = Some f) \<and>
    (\<forall>e. e \<noteq> fd \<longrightarrow> p_ofile (k_proc k3 np) ! e = p_ofile (k_proc k2 np) ! e) \<and>
    length (p_ofile (k_proc k3 np)) = length (p_ofile (k_proc k2 np))"
proof (cases "p_ofile (k_proc k2 p) ! fd")
  case None
  then show ?thesis using assms held_other [OF assms(2)] by (simp add: fork_file_def)
next
  case (Some f)
  then have "k3 = upd_proc np (\<lambda>v. v\<lparr>p_ofile := (p_ofile v)[fd := Some f]\<rparr>) (upd_file f (\<lambda>v. v\<lparr>f_ref := f_ref v + 1\<rparr>) k2)"
    using assms(3) by (auto simp: fork_file_def filedup_def split: if_splits)
  moreover have "slot_held i np k (upd_proc np (\<lambda>v. v\<lparr>p_ofile := (p_ofile v)[fd := Some f]\<rparr>) (upd_file f (\<lambda>v. v\<lparr>f_ref := f_ref v + 1\<rparr>) k2))"
    by (rule held_upd [OF held_rest [OF assms(2)]]) (simp_all add: upd_file_def)
  ultimately show ?thesis using Some held_other [OF assms(2)] assms(1) by (simp add: upd_file_def)
qed

lemma fork_files_held:
  assumes "np \<noteq> p"
  shows "slot_held i np k k2 \<Longrightarrow> distinct fds \<Longrightarrow> forE fds (fork_file p np) k2 = Inr k3 \<Longrightarrow>
    slot_held i np k k3 \<and> k_proc k3 np = (k_proc k2 np)\<lparr>p_ofile := p_ofile (k_proc k3 np)\<rparr> \<and>
    (\<forall>fd f. fd \<in> set fds \<longrightarrow> p_ofile (k_proc k p) ! fd = Some f \<longrightarrow> fd < length (p_ofile (k_proc k2 np)) \<longrightarrow> p_ofile (k_proc k3 np) ! fd = Some f) \<and>
    (\<forall>e. e \<notin> set fds \<longrightarrow> p_ofile (k_proc k3 np) ! e = p_ofile (k_proc k2 np) ! e) \<and>
    length (p_ofile (k_proc k3 np)) = length (p_ofile (k_proc k2 np))"
proof (induction fds arbitrary: k2)
  case (Cons fd fds)
  obtain ka where ka: "fork_file p np fd k2 = Inr ka" "forE fds (fork_file p np) ka = Inr k3"
    using Cons.prems(3) by (auto simp: bindE_Inr_iff)
  note a = fork_file_held [OF assms Cons.prems(1) ka(1)]
  have "distinct fds" "fd \<notin> set fds" using Cons.prems(2) by simp_all
  note b = Cons.IH [OF conjunct1 [OF a] this(1) ka(2)]
  have "k_proc k3 np = (k_proc ka np)\<lparr>p_ofile := p_ofile (k_proc k3 np)\<rparr>" using b by blast
  also have "\<dots> = (k_proc k2 np)\<lparr>p_ofile := p_ofile (k_proc k3 np)\<rparr>"
    by (subst conjunct1 [OF conjunct2 [OF a]]) simp
  finally show ?case using a b \<open>fd \<notin> set fds\<close> by auto
qed auto

text \<open>What a successful \<^verbatim>\<open>fork\<close> adds: a runnable child with the next process id, and the size, working directory and open files of its parent.\<close>

definition begets :: "nat \<Rightarrow> nat \<Rightarrow> kern \<Rightarrow> kern \<Rightarrow> bool" where
  "begets p np k k' \<longleftrightarrow> np < NPROC \<and> st_of k np = UNUSED \<and> (\<forall>q. q \<noteq> np \<longrightarrow> k_proc k' q = k_proc k q) \<and>
     st_of k' np = RUNNABLE \<and> par_of k' np = Some p \<and> p_lock (k_proc k' np) = None \<and> p_pid (k_proc k' np) = k_nextpid k \<and>
     p_sz (k_proc k' np) = p_sz (k_proc k p) \<and> p_cwd (k_proc k' np) = p_cwd (k_proc k p) \<and>
     (\<forall>fd f. fd < NOFILE \<longrightarrow> fd < length (p_ofile (k_proc k np)) \<longrightarrow> p_ofile (k_proc k p) ! fd = Some f \<longrightarrow> p_ofile (k_proc k' np) ! fd = Some f)"

lemma fork_end:
  assumes "locks_free k"
  shows "bindE (acquire_p i np (upd_proc np (\<lambda>v. v\<lparr>p_parent := Some p\<rparr>) k)) (\<lambda>k.
      bindE (release_p i np (upd_proc np (\<lambda>v. v\<lparr>p_state := RUNNABLE\<rparr>) k)) f) =
    f (settle i (upd_proc np (\<lambda>v. v\<lparr>p_parent := Some p, p_state := RUNNABLE\<rparr>) k))"
proof -
  let ?k = "upd_proc np (\<lambda>v. v\<lparr>p_parent := Some p\<rparr>) k"
  have l: "p_lock (k_proc ?k np) = None" "cpu_ok (k_cpu ?k i)" using assms by (simp_all add: locks_free_def)
  have "upd_proc np (\<lambda>v. v\<lparr>p_lock := Some i, p_state := RUNNABLE, p_lock := None\<rparr>) ?k = upd_proc np (\<lambda>v. v\<lparr>p_parent := Some p, p_state := RUNNABLE\<rparr>) k"
    using l(1) by (simp add: upd_proc_def)
  then show ?thesis
    using release_held [OF l(2), of "\<lambda>v. v\<lparr>p_state := RUNNABLE\<rparr>" np] acquire_free [OF l(1), of i] by simp
qed

lemma fork_child_begets:
  assumes "locks_free k" "allocated i np k k2" "p \<noteq> np" "fork_child i p np (k2\<lparr>k_mem := m\<rparr>) = Inr (r, k')"
  shows "same_cpus k k' \<and> r = sint (k_nextpid k) \<and> begets p np k k'"
proof -
  have h2: "slot_held i np k k2" and a: "np < NPROC" "st_of k np = UNUSED" "p_pid (k_proc k2 np) = k_nextpid k" "p_ofile (k_proc k2 np) = p_ofile (k_proc k np)"
    using assms(2) by (simp_all add: allocated_def)
  let ?k3 = "upd_proc np (\<lambda>v. v\<lparr>p_sz := p_sz (k_proc k2 p)\<rparr>) (k2\<lparr>k_mem := m\<rparr>)"
  let ?k4 = "tf_put np (tf_a 0) 0 (copy_trapframe p np ?k3)"
  have "slot_held i np k ?k3" by (rule held_upd [OF held_rest [OF h2]]) simp_all
  then have h4: "slot_held i np k ?k4" by (rule held_rest) (simp_all add: tf_put_def copy_trapframe_def)
  obtain k5 where k5: "forE [0..<NOFILE] (fork_file p np) ?k4 = Inr k5" using assms(4) by (auto simp: fork_child_def bindE_Inr_iff Let_def)
  note files = fork_files_held [OF assms(3) [symmetric] h4 distinct_upt k5]
  have h5: "slot_held i np k k5" using files by blast
  obtain cwd where cwd: "p_cwd (k_proc k5 p) = Some cwd"
    using assms(4) k5 by (cases "p_cwd (k_proc k5 p)") (auto simp: fork_child_def Let_def)
  let ?k7 = "upd_proc np (\<lambda>v. v\<lparr>p_cwd := Some cwd, p_name := safestr (p_name v) (p_name (k_proc k5 p))\<rparr>) (k5\<lparr>k_fs := idup cwd (k_fs k5)\<rparr>)"
  have h7: "slot_held i np k ?k7" by (rule held_upd [OF held_rest [OF h5]]) simp_all
  obtain k8 where k8: "release_p i np ?k7 = Inr k8" "same_cpus k k8" "\<And>q. q \<noteq> np \<Longrightarrow> k_proc k8 q = k_proc k q"
    "k_proc k8 np = (k_proc ?k7 np)\<lparr>p_lock := None\<rparr>"
    using held_release [OF assms(1) h7] by blast
  have "p_lock (k_proc k8 q) = None" for q
    using k8(3) [of q] k8(4) assms(1) by (cases "q = np") (simp_all add: locks_free_def)
  then have lf8: "locks_free k8" using assms(1) same_cpus_ok [OF k8(2)] by (simp add: locks_free_def)
  let ?k9 = "upd_proc np (\<lambda>v. v\<lparr>p_parent := Some p, p_state := RUNNABLE\<rparr>) k8"
  have "bindE (acquire_p i np (upd_proc np (\<lambda>v. v\<lparr>p_parent := Some p\<rparr>) k8)) (\<lambda>k.
      bindE (release_p i np (upd_proc np (\<lambda>v. v\<lparr>p_state := RUNNABLE\<rparr>) k)) (\<lambda>k. Inr (sint (p_pid (k_proc k5 np)), k))) = Inr (r, k')"
    using assms(4) k5 cwd k8(1) by (simp add: fork_child_def Let_def)
  then have r: "r = sint (p_pid (k_proc k5 np))" "k' = settle i ?k9" unfolding fork_end [OF lf8] by simp_all
  have "same_cpus k ?k9" using k8(2) by (simp add: same_cpus_def upd_proc_def)
  then have c: "same_cpus k k'" unfolding r(2) using same_cpus_trans same_cpus_settle by blast
  have "k_proc k5 np = (k_proc ?k4 np)\<lparr>p_ofile := p_ofile (k_proc k5 np)\<rparr>" using files by blast
  then have np: "k_proc k5 np = (k_proc k2 np)\<lparr>p_sz := p_sz (k_proc k2 p), p_ofile := p_ofile (k_proc k5 np)\<rparr>"
    by (simp add: tf_put_def copy_trapframe_def)
  have p5: "k_proc k5 p = k_proc k p" "k_proc k2 p = k_proc k p" using held_other [OF h5] held_other [OF h2] assms(3) by simp_all
  have f5: "p_pid (k_proc k5 np) = k_nextpid k" "p_sz (k_proc k5 np) = p_sz (k_proc k p)" by (subst np; simp add: a p5)+
  have "p_ofile (k_proc ?k4 np) = p_ofile (k_proc k np)" by (simp add: tf_put_def copy_trapframe_def a)
  then have of: "p_ofile (k_proc k5 np) ! fd = Some f" if "fd < NOFILE" "fd < length (p_ofile (k_proc k np))" "p_ofile (k_proc k p) ! fd = Some f" for fd f
    using files that by simp
  have "begets p np k k'"
    using a cwd p5 f5 of k8(3) by (simp add: begets_def r(2) k8(4))
  with c r(1) f5(1) show ?thesis by simp
qed

lemma fork_spec:
  assumes "locks_free k" "on_cpu k i = Some p" "st_of k p \<noteq> UNUSED" "fork c entry i k = Inr (r, k')"
  shows "same_cpus k k' \<and> (r = -1 \<and> (k_proc k' = k_proc k \<or> (\<exists>np. st_of k np = UNUSED \<and> reaped np k k')) \<or>
    (\<exists>np. r = sint (k_nextpid k) \<and> begets p np k k'))"
proof -
  obtain x k2 where x: "allocproc c entry i k = Inr (x, k2)" using assms(2,4) by (auto simp: fork_def myproc_def bindE_Inr_iff)
  note alloc = allocproc_spec [OF assms(1) x]
  show ?thesis
  proof (cases x)
    case None
    then show ?thesis using alloc x assms(2,4) by (auto simp: fork_def myproc_def)
  next
    case (Some np)
    then have a: "allocated i np k k2" using alloc by simp
    then have h2: "slot_held i np k k2" and pn: "p \<noteq> np" using assms(3) by (auto simp: allocated_def)
    obtain e m where e: "uvmcopy c (p_pagetable (k_proc k2 p)) (p_pagetable (k_proc k2 np)) (p_sz (k_proc k2 p)) (k_mem k2) = Inr (e, m)"
      using assms(2,4) x Some by (auto simp: fork_def myproc_def bindE_Inr_iff)
    show ?thesis
    proof (cases "e < 0")
      case True
      have "slot_held i np k (k2\<lparr>k_mem := m\<rparr>)" by (rule held_rest [OF h2]) simp_all
      from freeproc_held [OF assms(1) this, of c "-1" r k'] show ?thesis
        using a assms(2,4) x Some e True by (auto simp: allocated_def fork_def myproc_def)
    next
      case False
      then show ?thesis
        using fork_child_begets [OF assms(1) a pn, of m r k'] assms(2,4) x Some e by (auto simp: fork_def myproc_def)
    qed
  qed
qed

lemma life_inv_begets:
  assumes "life_inv k" "same_cpus k k'" "begets p np k k'" "alive (st_of k p)"
  shows "life_inv k'"
proof -
  have s: "sched_inv k" and f: "family_ok (st_of k) (par_of k) (k_initproc k)" and w: "waits_ok k" using assms(1) by (simp_all add: life_inv_def)
  have q: "k_proc k' q = k_proc k q" if "q \<noteq> np" for q using assms(3) that by (simp add: begets_def)
  have z: "st_of k np = UNUSED" "np < NPROC" "st_of k' np = RUNNABLE" "par_of k' np = Some p" "p_lock (k_proc k' np) = None"
    using assms(3) by (simp_all add: begets_def)
  have "sched_inv k'"
  proof (rule sched_inv_same [OF s assms(2)])
    fix x
    show "p_lock (k_proc k' x) = None" using z(5) q [of x] s by (cases "x = np") (simp_all add: sched_inv_def locks_free_def)
    show "(st_of k' x = RUNNING) = (st_of k x = RUNNING)" using z q [of x] by (cases "x = np") simp_all
    show "p_chan (k_proc k' x) \<noteq> None" if "st_of k' x = SLEEPING"
      using that z q [of x] s by (cases "x = np") (simp_all add: sched_inv_def sleepers_ok_def)
  qed
  moreover have "st_of k' = (st_of k)(np := RUNNABLE)" "par_of k' = (par_of k)(np := Some p)" using z q by auto
  moreover have "family_ok ((st_of k)(np := RUNNABLE)) ((par_of k)(np := Some p)) (k_initproc k)"
    using f z(1,2) assms(4) unfolding family_ok_def by (auto simp: alive_def split: if_splits)
  moreover have "waits_ok k'"
  proof (rule waits_ok_mono [OF w])
    show "sleeps_on (Chan_proc x) k y" if "sleeps_on (Chan_proc x) k' y" for x y
      using that z q [of y] by (cases "y = np") (simp_all add: sleeps_on_def)
    show "par_of k y = Some x \<and> st_of k y = ZOMBIE" if "par_of k' y = Some x" "st_of k' y = ZOMBIE" for x y
      using that z q [of y] by (cases "y = np") simp_all
  qed
  ultimately show ?thesis using same_cpus_init [OF assms(2)] by (simp add: life_inv_def)
qed

lemma fork_life:
  assumes "life_inv k" "on_cpu k i = Some p" "fork c entry i k = Inr (r, k')"
  shows "life_inv k'"
proof -
  have s: "sched_inv k" using assms(1) by (simp add: life_inv_def)
  then have "st_of k p = RUNNING" using on_cpu_running assms(2) by simp
  with fork_spec [OF sched_inv_free [OF s] assms(2) _ assms(3)] show ?thesis
    using life_inv_same [OF assms(1)] life_inv_reaped [OF assms(1)] life_inv_begets [OF assms(1)] by (auto simp: alive_def)
qed

section \<open>All steps\<close>

text \<open>
  The steps of the system as far as the life cycle is concerned: the calls of this theory, a \<^verbatim>\<open>wait\<close> that goes on after it slept, the scheduler, preemption, sleeping
  elsewhere, taking and releasing spin locks, waking, killing, and any other work that leaves the process table alone or only wakes.
\<close>

inductive life_step :: "machine \<Rightarrow> u64 \<Rightarrow> kern \<Rightarrow> kern \<Rightarrow> bool" for c entry where
  forks: "on_cpu k i = Some p \<Longrightarrow> fork c entry i k = Inr (r, k') \<Longrightarrow> life_step c entry k k'"
| exits: "on_cpu k i = Some p \<Longrightarrow> c_noff (k_cpu k i) = 0 \<Longrightarrow> exit c i status k = Inr k' \<Longrightarrow> life_step c entry k k'"
| waits: "on_cpu k i = Some p \<Longrightarrow> c_noff (k_cpu k i) = 0 \<Longrightarrow> wait c i a k = Inr (r, k') \<Longrightarrow> life_step c entry k k'"
| rewaits: "on_cpu k i = Some p \<Longrightarrow> c_noff (k_cpu k i) = 1 \<Longrightarrow> wait_from c i p a k = Inr (r, k') \<Longrightarrow> life_step c entry k k'"
| run: "on_cpu k i = None \<Longrightarrow> c_noff (k_cpu k i) = 0 \<Longrightarrow> dispatch i start k = Inr k' \<Longrightarrow> life_step c entry k k'"
| preempt: "on_cpu k i = Some p \<Longrightarrow> c_noff (k_cpu k i) = 0 \<Longrightarrow> yield i k = Inr k' \<Longrightarrow> life_step c entry k k'"
| elsewhere: "on_cpu k i = Some p \<Longrightarrow> c_noff (k_cpu k i) = 1 \<Longrightarrow> \<forall>q. ch \<noteq> Chan_proc q \<Longrightarrow> sleep i ch k = Inr k' \<Longrightarrow> life_step c entry k k'"
| spin: "life_step c entry k (kpush_off i k)"
| unspin: "0 < c_noff (k_cpu k i) \<Longrightarrow> kpop_off i k = Inr k' \<Longrightarrow> life_step c entry k k'"
| waken: "wakeup i ch k = Inr k' \<Longrightarrow> life_step c entry k k'"
| kills: "kill i pid k = Inr (r, k') \<Longrightarrow> life_step c entry k k'"
| works: "stirs k k' \<Longrightarrow> life_step c entry k k'"

inductive life_reach :: "machine \<Rightarrow> u64 \<Rightarrow> kern \<Rightarrow> kern \<Rightarrow> bool" for c entry k0 where
  start: "life_reach c entry k0 k0"
| step: "life_reach c entry k0 k \<Longrightarrow> life_step c entry k k' \<Longrightarrow> life_reach c entry k0 k'"

lemma wait_spec:
  assumes "life_inv k" "on_cpu k i = Some p" "c_noff (k_cpu k i) = 0" "wait c i a k = Inr (r, k')"
  shows "life_inv k' \<and> wait_outcome p a k r k'"
  using wait_from_spec [OF life_inv_push [OF assms(1)], of i i p c a r k'] assms(2-4)
  by (simp add: wait_def myproc_def wait_outcome_def status_fails_def reaped_def cong: if_cong list.case_cong)

lemma kill_stirs:
  assumes "locks_free k" "kill i pid k = Inr (r, k')"
  shows "\<And>p. stirred (k_proc k p) (k_proc k' p)" "\<And>j. same_cpu (k_cpu k j) (k_cpu k' j)"
  using kill_list [OF assms(1), of i pid "[0..<NPROC]"] assms(2)
  by (auto simp: kill_def stirred_def slay_def split: list.splits)

lemma kill_scan_init: "kill_scan i pid ps k = Inr (r, k') \<Longrightarrow> k_initproc k' = k_initproc k"
  by (induction ps arbitrary: k)
    (auto simp: acquire_p_def release_p_def kpop_off_def kpush_off_def upd_cpu_def upd_proc_def Let_def bindE_def split: if_splits sum.splits)

lemma dispatch_outcome:
  assumes "locks_free k" "c_noff (k_cpu k i) = 0" "dispatch i start k = Inr k'"
  obtains k1 where "k_proc k1 = k_proc k" "k_initproc k1 = k_initproc k" "k_file k1 = k_file k"
    "k' = (case List.find (\<lambda>p. st_of k p = RUNNABLE) [start..<NPROC] of None \<Rightarrow> k1 | Some p \<Rightarrow> enter_cpu i p k1)"
proof -
  let ?k = "if start = 0 then upd_cpu i (\<lambda>c. c\<lparr>c_intr := True\<rparr>) k else k"
  have lf: "locks_free ?k" using assms(1,2) by (auto simp: locks_free_def cpu_ok_def)
  obtain k1 where k1: "wakes ?k k1" "k_proc k1 = k_proc ?k"
    "scheduler_scan i [start..<NPROC] ?k = (case List.find (\<lambda>p. st_of ?k p = RUNNABLE) [start..<NPROC] of
       None \<Rightarrow> Inr (None, k1) | Some p \<Rightarrow> Inr (Some p, picked i p k1))"
    using scan_spec [OF lf] by blast
  have n: "c_noff (k_cpu k1 i) = 0" using same_cpus_noff [OF wakes_same_cpus [OF k1(1)], of i] assms(2) by simp
  have "k1\<lparr>k_proc := k_proc ?k, k_cpu := k_cpu ?k\<rparr> = ?k" using k1(1) by (simp add: wakes_def)
  from arg_cong [OF this, of k_initproc] arg_cong [OF this, of k_file]
  have "k_initproc k1 = k_initproc k" "k_file k1 = k_file k" by (simp_all add: upd_cpu_def split: if_splits)
  moreover have "k' = (case List.find (\<lambda>p. st_of k p = RUNNABLE) [start..<NPROC] of None \<Rightarrow> k1 | Some p \<Rightarrow> enter_cpu i p k1)"
    using assms(3) k1(3) resume_picked [OF wakes_locks_free [OF k1(1) lf] n] by (auto simp: dispatch_def scheduler_def split: option.splits if_splits)
  moreover have "k_proc k1 = k_proc k" using k1(2) by (simp split: if_splits)
  ultimately show ?thesis using that by blast
qed

lemma dispatch_states:
  assumes "locks_free k" "c_noff (k_cpu k i) = 0" "dispatch i start k = Inr k'"
  shows "alive (st_of k' q) = alive (st_of k q)" "(st_of k' q = UNUSED) = (st_of k q = UNUSED)" "par_of k' q = par_of k q"
    "k_initproc k' = k_initproc k" "(st_of k' q = ZOMBIE) = (st_of k q = ZOMBIE)" "sleeps_on ch k' q \<Longrightarrow> sleeps_on ch k q"
    "k_file k' = k_file k" "p_ofile (k_proc k' q) = p_ofile (k_proc k q)"
proof -
  obtain k1 where k1: "k_proc k1 = k_proc k" "k_initproc k1 = k_initproc k" "k_file k1 = k_file k"
    "k' = (case List.find (\<lambda>p. st_of k p = RUNNABLE) [start..<NPROC] of None \<Rightarrow> k1 | Some p \<Rightarrow> enter_cpu i p k1)"
    by (rule dispatch_outcome [OF assms])
  note enter = enter_cpu_def Let_def upd_proc_def upd_cpu_def alive_def sleeps_on_def find_Some_iff
  show "alive (st_of k' q) = alive (st_of k q)" "(st_of k' q = UNUSED) = (st_of k q = UNUSED)" "par_of k' q = par_of k q"
    "k_initproc k' = k_initproc k" "(st_of k' q = ZOMBIE) = (st_of k q = ZOMBIE)" "sleeps_on ch k' q \<Longrightarrow> sleeps_on ch k q"
    "k_file k' = k_file k" "p_ofile (k_proc k' q) = p_ofile (k_proc k q)"
    using k1(1-3) unfolding k1(4) by (auto simp: enter split: option.splits if_splits)
qed

lemma dispatch_life:
  assumes "life_inv k" "on_cpu k i = None" "c_noff (k_cpu k i) = 0" "dispatch i start k = Inr k'"
  shows "life_inv k'"
proof -
  have s: "sched_inv k" and f: "family_ok (st_of k) (par_of k) (k_initproc k)" and w: "waits_ok k" using assms(1) by (simp_all add: life_inv_def)
  note e = dispatch_states [OF sched_inv_free [OF s] assms(3,4)]
  have "family_ok (st_of k') (par_of k') (k_initproc k')" using family_states [OF f, of "st_of k'"] e(1-4) by simp
  moreover have "waits_ok k'" by (rule waits_ok_mono [OF w]) (use e(3,5,6) in auto)
  ultimately show ?thesis using sched_inv_dispatch [OF s assms(2-4)] by (simp add: life_inv_def)
qed

lemma life_inv_step: "life_step c entry k k' \<Longrightarrow> life_inv k \<Longrightarrow> life_inv k'"
proof (induction rule: life_step.induct)
  case (forks k i p r k')
  then show ?case using fork_life by blast
next
  case (exits k i p status k')
  then show ?case using exit_life(1) by blast
next
  case (waits k i p a r k')
  then show ?case using wait_spec by blast
next
  case (rewaits k i p a r k')
  then show ?case using wait_from_spec by blast
next
  case (run k i start k')
  then show ?case using dispatch_life by blast
next
  case (preempt k i p k')
  then have lf: "locks_free k" by (simp add: life_inv_def sched_inv_free)
  from yield_spec [OF this preempt(1,2)] preempt lf show ?case
    by (auto intro!: life_inv_leave [OF preempt(4,1)] simp: locks_free_def)
next
  case (elsewhere k i p ch k')
  then have lf: "locks_free k" by (simp add: life_inv_def sched_inv_free)
  from sleep_spec [OF this elsewhere(1,2), of ch] elsewhere lf show ?case
    by (auto intro!: life_inv_leave [OF elsewhere(5,1)] simp: locks_free_def)
next
  case (spin k i)
  then show ?case by (rule life_inv_push)
next
  case (unspin k i k')
  then show ?case using kpop_ok [OF cpu_ok_of, of k i] life_inv_popped [of k i] by (simp add: life_inv_def)
next
  case (waken i ch k k')
  then have "locks_free k" by (simp add: life_inv_def sched_inv_free)
  from stirs_wakeup [OF this waken(1)] show ?case by (rule life_inv_stirs [OF waken(2)])
next
  case (kills i pid k r k')
  then have "locks_free k" by (simp add: life_inv_def sched_inv_free)
  from kill_stirs [OF this kills(1)] kill_scan_init [of i pid] kills(1) have "stirs k k'"
    by (simp add: stirs_def same_cpus_def kill_def)
  then show ?case by (rule life_inv_stirs [OF kills(2)])
next
  case (works k k')
  then show ?case using life_inv_stirs by blast
qed

lemma life_inv_reach: "life_reach c entry k0 k \<Longrightarrow> life_inv k0 \<Longrightarrow> life_inv k"
  by (induction rule: life_reach.induct) (auto intro: life_inv_step)

text \<open>The first process is where the invariant starts.\<close>

lemma kpush_initproc: "kpush_off i (k\<lparr>k_initproc := x\<rparr>) = (kpush_off i k)\<lparr>k_initproc := x\<rparr>"
  by (cases k) (simp add: kpush_off_def upd_cpu_def Let_def)

lemma held_init: "slot_held i np k k2 \<Longrightarrow> slot_held i np (k\<lparr>k_initproc := x\<rparr>) (k2\<lparr>k_initproc := x\<rparr>)"
  by (simp add: slot_held_def same_cpus_def kpush_initproc)

lemma userinit_life:
  assumes "sched_inv k" "\<And>q. st_of k q = UNUSED" "\<And>q. par_of k q = None" "userinit c entry i k = Inr k'"
  shows "life_inv k'"
proof -
  have lf: "locks_free k" by (rule sched_inv_free [OF assms(1)])
  obtain x k2 where x: "allocproc c entry i k = Inr (x, k2)" using assms(4) by (auto simp: userinit_def bindE_Inr_iff)
  then obtain p where p: "x = Some p" using assms(4) by (cases x) (auto simp: userinit_def)
  have a: "allocated i p k k2" using allocproc_spec [OF lf x] p by simp
  let ?k0 = "k\<lparr>k_initproc := Some p\<rparr>"
  obtain m y s where m: "uvmfirst (p_pagetable (k_proc k2 p)) initcode (k_mem k2) = Inr m"
    and rel: "release_p i p (upd_proc p (\<lambda>v. v\<lparr>p_cwd := y, p_state := RUNNABLE\<rparr>)
      ((upd_proc p (\<lambda>v. v\<lparr>p_name := safestr (p_name v) (ascii ''initcode'')\<rparr>)
        (tf_put p tf_sp (word_of_nat PGSIZE) (tf_put p tf_epc 0 (upd_proc p (\<lambda>v. v\<lparr>p_sz := word_of_nat PGSIZE\<rparr>) (k2\<lparr>k_initproc := Some p, k_mem := m\<rparr>)))))
        \<lparr>k_fs := s\<rparr>)) = Inr k'" (is "release_p i p ?k3 = _")
    using assms(4) x p by (auto simp: userinit_def bindE_Inr_iff fs_call_def Let_def)
  have h2: "slot_held i p ?k0 (k2\<lparr>k_initproc := Some p\<rparr>)"
    using a by (intro held_init) (simp add: allocated_def)
  have h: "slot_held i p ?k0 ?k3"
    by (intro held_upd held_rest [OF held_upd [OF held_rest [OF held_upd [OF held_rest [OF h2]]]]]) (simp_all add: tf_put_def)
  have p3: "st_of ?k3 p = RUNNABLE" "par_of ?k3 p = None"
    using a assms(3) by (simp_all add: tf_put_def allocated_def)
  have lf0: "locks_free ?k0" using lf by (simp add: locks_free_def)
  obtain k4 where k4: "release_p i p ?k3 = Inr k4" "same_cpus ?k0 k4" "\<And>q. q \<noteq> p \<Longrightarrow> k_proc k4 q = k_proc ?k0 q" "k_proc k4 p = (k_proc ?k3 p)\<lparr>p_lock := None\<rparr>"
    using held_release [OF lf0 h] by blast
  have k': "k' = k4" using k4(1) rel by simp
  have np: "p < NPROC" using a by (simp add: allocated_def)
  have st: "st_of k' q = (if q = p then RUNNABLE else UNUSED) \<and> par_of k' q = None \<and> p_lock (k_proc k' q) = None" for q
  proof (cases "q = p")
    case True
    have "st_of k4 p = st_of ?k3 p" "par_of k4 p = par_of ?k3 p" "p_lock (k_proc k4 p) = None" unfolding k4(4) by simp_all
    then show ?thesis unfolding k' True p3 by simp
  next
    case False
    then show ?thesis using k4(3) [OF False] assms(2) [of q] assms(3) [of q] lf by (simp add: k' locks_free_def)
  qed
  have "sched_inv k'"
  proof (rule sched_inv_same)
    show "sched_inv ?k0" using assms(1) by (simp add: sched_inv_def locks_free_def sleepers_ok_def)
    show "same_cpus ?k0 k'" unfolding k' by (rule k4(2))
    show "p_lock (k_proc k' q) = None" for q using st by simp
    show "(st_of k' q = RUNNING) = (st_of ?k0 q = RUNNING)" for q using st [of q] assms(2) [of q] by (simp split: if_splits)
    show "p_chan (k_proc k' q) \<noteq> None" if "st_of k' q = SLEEPING" for q using st [of q] that by (simp split: if_splits)
  qed
  moreover have "k_initproc k' = Some p" using same_cpus_init [OF k4(2)] by (simp add: k')
  moreover have "family_ok (st_of k') (par_of k') (Some p)"
    using st np by (simp add: family_ok_def alive_def)
  moreover have "waits_ok k'" using st by (simp add: waits_ok_def sleeps_on_def)
  ultimately show ?thesis by (simp add: life_inv_def)
qed

section \<open>Properties\<close>

text \<open>C3: No exited process is forgotten and no wakeup of a parent is lost. Whatever processes fork, exit, wait, are scheduled, preempted, put to sleep, woken and killed in
  any order on all CPUs: every zombie has a parent that is alive and is not asleep in \<^verbatim>\<open>wait\<close>, every process but the first has a parent, a process is \<^verbatim>\<open>RUNNING\<close>
  exactly when one CPU runs it, and the first process stays alive.\<close>

theorem exited_processes_reach_wait:
  assumes "life_inv k0" "life_reach c entry k0 k"
  shows "(st_of k z = ZOMBIE \<longrightarrow> (\<exists>p. par_of k z = Some p \<and> alive (st_of k p) \<and> \<not> sleeps_on (Chan_proc p) k p)) \<and>
    (st_of k q \<noteq> UNUSED \<and> Some q \<noteq> k_initproc k \<longrightarrow> par_of k q \<noteq> None) \<and>
    (st_of k q = RUNNING \<longrightarrow> (\<exists>!i. on_cpu k i = Some q)) \<and> (on_cpu k i = Some q \<longrightarrow> st_of k q = RUNNING) \<and>
    (\<exists>p. k_initproc k = Some p \<and> alive (st_of k p))"
proof -
  have "life_inv k" by (rule life_inv_reach [OF assms(2,1)])
  then have s: "sched_inv k" and f: "family_ok (st_of k) (par_of k) (k_initproc k)" and w: "waits_ok k" by (simp_all add: life_inv_def)
  have "\<exists>p. par_of k z = Some p \<and> alive (st_of k p) \<and> \<not> sleeps_on (Chan_proc p) k p" if z: "st_of k z = ZOMBIE"
  proof -
    have "Some z \<noteq> k_initproc k" using family_init [OF f] z by (auto simp: alive_def)
    then obtain p where "par_of k z = Some p" using family_used [OF f, of z] z by auto
    then show ?thesis using family_parent [OF f] w z unfolding waits_ok_def by blast
  qed
  moreover have "\<exists>!i. on_cpu k i = Some q" if "st_of k q = RUNNING"
  proof -
    have r: "running_ok (on_cpu k) (st_of k)" using s by (simp add: sched_inv_def)
    show ?thesis using running_ok_somewhere [OF r that] running_ok_unique [OF r] by (rule ex_ex1I)
  qed
  ultimately show ?thesis
    using family_used [OF f, of q] family_init [OF f] on_cpu_running [OF s, of i q] by simp
qed

text \<open>A parent on CPU 0 whose child 1 has exited.\<close>

definition bereft :: kern where
  "bereft = blank_kern\<lparr>k_proc := (\<lambda>_. zero_proc)(0 := zero_proc\<lparr>p_state := RUNNING, p_pid := 1\<rparr>, 1 := zero_proc\<lparr>p_state := ZOMBIE, p_pid := 7, p_parent := Some 0\<rparr>),
     k_cpu := (k_cpu blank_kern)(0 := \<lparr>c_proc = Some 0, c_noff = 0, c_intena = False, c_intr = True\<rparr>), k_initproc := Some 0\<rparr>"

lemma bereft_fields [simp]:
  "st_of bereft q = (if q = 0 then RUNNING else if q = 1 then ZOMBIE else UNUSED)" "par_of bereft q = (if q = 1 then Some 0 else None)"
  "p_lock (k_proc bereft q) = None" "p_chan (k_proc bereft q) = None" "k_initproc bereft = Some 0"
  "on_cpu bereft i = (if i = 0 then Some 0 else None)" "c_noff (k_cpu bereft i) = 0"
  by (simp_all add: bereft_def zero_proc_def)

lemma bereft_life: "life_inv bereft"
proof -
  have "locks_free bereft" by (simp add: locks_free_def cpu_ok_def)
  moreover have "running_ok (on_cpu bereft) (st_of bereft)" by (simp add: running_ok_def NPROC_def)
  moreover have "family_ok (st_of bereft) (par_of bereft) (k_initproc bereft)" by (simp add: family_ok_def alive_def NPROC_def)
  ultimately show ?thesis by (simp add: life_inv_def sched_inv_def sleepers_ok_def waits_ok_def sleeps_on_def)
qed

text \<open>The first process sleeps in \<^verbatim>\<open>wait\<close> while its child 1 exits on CPU 0.\<close>

lemma exit_ends:
  assumes "locks_free k" "on_cpu k i = Some p" "c_noff (k_cpu k i) = 0" "k_initproc k = Some ini" "ini \<noteq> p"
    and files: "forE [0..<NOFILE] (close_fd c i p) k = Inr ka" and tb: "txn_begin ka = Inr kb"
    and ip: "p_cwd (k_proc kb p) = Some cwd" "on_fs (iput p cwd) kb = Inr kc"
  shows "\<exists>k'. exit c i status k = Inr k'"
proof -
  let ?k1 = "upd_proc p (\<lambda>v. v\<lparr>p_cwd := None\<rparr>) (txn_end kc)"
  have s1: "stirs k ?k1" by (rule exit_begin [OF assms(1) files tb ip(2)])
  then have c: "same_cpus k ?k1" by (simp add: stirs_def)
  have k1: "on_cpu ?k1 i = Some p" "c_noff (k_cpu ?k1 i) = 0" "k_initproc ?k1 = Some ini"
    using same_cpus_on [OF c, of i] same_cpus_noff [OF c, of i] same_cpus_init [OF c] assms(2-4) by simp_all
  obtain k3 where "bindE (reparent i p (kpush_off i ?k1)) (\<lambda>k. bindE (wake_proc i (p_parent (k_proc k p)) k) (\<lambda>k. bindE (acquire_p i p k) (\<lambda>k.
       bindE (kpop_off i (upd_proc p (\<lambda>v. v\<lparr>p_xstate := status, p_state := ZOMBIE\<rparr>) k)) (sched i)))) = Inr (buried i p status k3)"
    by (rule exit_rest [OF stirs_locks_free [OF s1 assms(1)] k1 assms(5)])
  then show ?thesis using assms(2,4,5) files tb ip by (simp add: exit_def myproc_def)
qed

definition leaving :: kern where
  "leaving = blank_kern\<lparr>k_proc := (\<lambda>_. zero_proc)(0 := zero_proc\<lparr>p_state := SLEEPING, p_chan := Some (Chan_proc 0), p_pid := 1\<rparr>,
       1 := zero_proc\<lparr>p_state := RUNNING, p_pid := 7, p_parent := Some 0, p_cwd := Some 3\<rparr>),
     k_cpu := (k_cpu blank_kern)(0 := \<lparr>c_proc = Some 1, c_noff = 0, c_intena = False, c_intr = True\<rparr>), k_initproc := Some 0,
     k_fs := upd_inode 3 (\<lambda>v. v\<lparr>ref := 2\<rparr>) (k_fs blank_kern)\<rparr>"

lemma leaving_fields [simp]:
  "st_of leaving q = (if q = 0 then SLEEPING else if q = 1 then RUNNING else UNUSED)" "par_of leaving q = (if q = 1 then Some 0 else None)"
  "p_lock (k_proc leaving q) = None" "p_chan (k_proc leaving q) = (if q = 0 then Some (Chan_proc 0) else None)" "k_initproc leaving = Some 0"
  "on_cpu leaving i = (if i = 0 then Some 1 else None)" "c_noff (k_cpu leaving i) = 0" "p_ofile (k_proc leaving q) = replicate NOFILE None"
  "p_cwd (k_proc leaving q) = (if q = 1 then Some 3 else None)"
  by (simp_all add: leaving_def zero_proc_def)

lemma leaving_life: "life_inv leaving"
proof -
  have "locks_free leaving" by (simp add: locks_free_def cpu_ok_def)
  moreover have "running_ok (on_cpu leaving) (st_of leaving)" by (simp add: running_ok_def NPROC_def)
  moreover have "family_ok (st_of leaving) (par_of leaving) (k_initproc leaving)" by (simp add: family_ok_def alive_def NPROC_def)
  ultimately show ?thesis by (simp add: life_inv_def sched_inv_def sleepers_ok_def waits_ok_def sleeps_on_def)
qed

lemma leaving_exits: "\<exists>k'. exit small_machine 0 status leaving = Inr k'"
proof -
  let ?kb = "leaving\<lparr>k_outstanding := 1\<rparr>"
  have "forE fds (close_fd small_machine 0 1) leaving = Inr leaving" if "\<forall>fd\<in>set fds. fd < NOFILE" for fds
    using that by (induction fds) (simp_all add: close_fd_def)
  then have files: "forE [0..<NOFILE] (close_fd small_machine 0 1) leaving = Inr leaving" by simp
  have tb: "txn_begin leaving = Inr ?kb" by (simp add: txn_begin_def leaving_def upd_inode_def blank_kern_def static_kern_def MAXOPBLOCKS_def LOGSIZE_def)
  obtain kc where kc: "on_fs (iput 1 3) ?kb = Inr kc" by (simp add: on_fs_def iput_def leaving_def upd_inode_def)
  have lf: "locks_free leaving" using leaving_life by (simp add: life_inv_def sched_inv_free)
  show ?thesis by (rule exit_ends [OF lf _ _ _ _ files tb _ kc, where ini = 0]) simp_all
qed

theorem exited_processes_reach_wait_witness:
  "\<exists>k. life_reach small_machine 0 leaving k \<and> sleeps_on (Chan_proc 0) leaving 0 \<and> st_of k 1 = ZOMBIE \<and>
     (\<exists>p. par_of k 1 = Some p \<and> alive (st_of k p) \<and> \<not> sleeps_on (Chan_proc p) k p)"
proof -
  have on: "on_cpu leaving 0 = Some 1" "c_noff (k_cpu leaving 0) = 0" by simp_all
  obtain k' where k': "exit small_machine 0 5 leaving = Inr k'" using leaving_exits by blast
  have r: "life_reach small_machine 0 leaving k'" by (rule life_reach.step [OF life_reach.start life_step.exits [OF on k']])
  have z: "st_of k' 1 = ZOMBIE" by (rule exit_life(2) [OF leaving_life on k'])
  have "sleeps_on (Chan_proc 0) leaving 0" by (simp add: sleeps_on_def)
  then show ?thesis using exited_processes_reach_wait [OF leaving_life r, of 1 1 0] z r by blast
qed

text \<open>C7: \<^verbatim>\<open>wait\<close> does what a parent relies on, and keeps the process table well formed. With an exited child it returns the id of the first one in the table and
  frees its slot, or returns -1 and changes no process when the status cannot be copied to the address the caller gave. Without an exited child it returns -1 if there
  are no children at all or the caller was killed, and otherwise sleeps until a child exits; no other process changes.\<close>

theorem wait_collects_child:
  assumes "life_inv k" "on_cpu k i = Some p" "c_noff (k_cpu k i) = 0" "wait c i a k = Inr (r, k')"
  shows "life_inv k' \<and>
    (case filter (\<lambda>q. st_of k q = ZOMBIE) (filter (\<lambda>q. par_of k q = Some p) [0..<NPROC]) of
       z # _ \<Rightarrow>
         if status_fails p a z k then r = Returned (-1) \<and> k_proc k' = k_proc k
         else r = Returned (sint (p_pid (k_proc k z))) \<and> st_of k' z = UNUSED \<and> par_of k' z = None \<and> (\<forall>q. q \<noteq> z \<longrightarrow> k_proc k' q = k_proc k q)
     | [] \<Rightarrow>
         if filter (\<lambda>q. par_of k q = Some p) [0..<NPROC] = [] \<or> p_killed (k_proc k p) then r = Returned (-1) \<and> k_proc k' = k_proc k
         else r = Asleep 0 \<and> sleeps_on (Chan_proc p) k' p \<and> (\<forall>q. q \<noteq> p \<longrightarrow> k_proc k' q = k_proc k q))"
proof -
  have "life_inv k'" "wait_outcome p a k r k'" using wait_spec [OF assms] by blast+
  then show ?thesis
    unfolding wait_outcome_def reaped_def by (auto split: list.splits if_splits)
qed

lemma bereft_wait: "\<exists>k'. wait small_machine 0 0 bereft = Inr (Returned 7, k')"
proof -
  have "[0..<NPROC] = 0 # 1 # [2..<NPROC]" by (simp add: NPROC_def upt_conv_Cons)
  then show ?thesis
    by (simp add: wait_def myproc_def wait_from_def wait_reap_def acquire_p_def release_p_def holding_p_def kpush_off_def kpop_off_def freeproc_def Let_def
        bereft_def zero_proc_def)
qed

theorem wait_collects_child_witness:
  "\<exists>k'. wait small_machine 0 0 bereft = Inr (Returned 7, k') \<and> life_inv k' \<and> st_of k' 1 = UNUSED"
proof -
  obtain k' where k': "wait small_machine 0 0 bereft = Inr (Returned 7, k')" using bereft_wait by blast
  have "[0..<NPROC] = 0 # 1 # [2..<NPROC]" by (simp add: NPROC_def upt_conv_Cons)
  then have "filter (\<lambda>q. st_of bereft q = ZOMBIE) (filter (\<lambda>q. par_of bereft q = Some 0) [0..<NPROC]) = [1]"
    by (auto simp: filter_empty_conv)
  with wait_collects_child [OF bereft_life _ _ k', of 0] k' show ?thesis
    by (auto simp: status_fails_def)
qed

text \<open>C10: \<^verbatim>\<open>fork\<close> either returns -1 and leaves no trace in the process table, or returns the id of a new process: a runnable child of the caller in a slot that was free,
  with the caller's size, working directory and open files, and every other process unchanged. Both keep the process table well formed.\<close>

theorem fork_creates_one_child:
  assumes "life_inv k" "on_cpu k i = Some p" "fork c entry i k = Inr (r, k')"
  shows "life_inv k' \<and>
    (r = -1 \<and> (\<forall>q. st_of k' q = st_of k q \<and> par_of k' q = par_of k q \<and> (st_of k q \<noteq> UNUSED \<longrightarrow> k_proc k' q = k_proc k q)) \<or>
     (\<exists>np. np < NPROC \<and> st_of k np = UNUSED \<and> r = sint (k_nextpid k) \<and> st_of k' np = RUNNABLE \<and> par_of k' np = Some p \<and> p_pid (k_proc k' np) = k_nextpid k \<and>
       p_sz (k_proc k' np) = p_sz (k_proc k p) \<and> p_cwd (k_proc k' np) = p_cwd (k_proc k p) \<and>
       (\<forall>fd f. fd < NOFILE \<longrightarrow> fd < length (p_ofile (k_proc k np)) \<longrightarrow> p_ofile (k_proc k p) ! fd = Some f \<longrightarrow> p_ofile (k_proc k' np) ! fd = Some f) \<and>
       (\<forall>q. q \<noteq> np \<longrightarrow> k_proc k' q = k_proc k q)))"
proof -
  have s: "sched_inv k" and f: "family_ok (st_of k) (par_of k) (k_initproc k)" using assms(1) by (simp_all add: life_inv_def)
  have u: "st_of k p \<noteq> UNUSED" using on_cpu_running [OF s assms(2)] by simp
  have "st_of k' q = st_of k q \<and> par_of k' q = par_of k q \<and> (st_of k q \<noteq> UNUSED \<longrightarrow> k_proc k' q = k_proc k q)"
    if "st_of k np = UNUSED" "reaped np k k'" for np q
    using that family_unused [OF f that(1)] by (cases "q = np") (simp_all add: reaped_def)
  then show ?thesis
    using fork_life [OF assms] fork_spec [OF sched_inv_free [OF s] assms(2) u assms(3)] unfolding begets_def by auto
qed

lemma bereft_fork: "\<exists>k'. fork small_machine 0 0 bereft = Inr (-1, k')"
proof -
  have "[0..<NPROC] = 0 # 1 # 2 # [3..<NPROC]" by (simp add: NPROC_def upt_conv_Cons)
  then show ?thesis
    by (simp add: fork_def myproc_def allocproc_def allocpid_def kalloc_def acquire_p_def release_p_def holding_p_def kpush_off_def kpop_off_def freeproc_def Let_def
        bereft_def zero_proc_def)
qed

theorem fork_creates_one_child_witness:
  "\<exists>k'. fork small_machine 0 0 bereft = Inr (-1, k') \<and> life_inv k' \<and> st_of k' 1 = ZOMBIE"
proof -
  obtain k' where k': "fork small_machine 0 0 bereft = Inr (-1, k')" using bereft_fork by blast
  have "k_nextpid bereft = 1" by (simp add: bereft_def blank_kern_def static_kern_def)
  with fork_creates_one_child [OF bereft_life _ k', of 0] k' show ?thesis by auto
qed

end
