(* ===== verification/Sysfile.thy ===== *)
theory Sysfile
  imports Proc Raid
begin

text \<open>
  Argument passing of \<^verbatim>\<open>kernel/syscall.c\<close> and the file-system calls of \<^verbatim>\<open>kernel/sysfile.c\<close>. \<open>p\<close> is the calling process, \<open>i\<close> its CPU, \<open>c\<close> the machine. What a call does between
  \<^verbatim>\<open>begin_op\<close> and \<^verbatim>\<open>end_op\<close> is a function of its own (\<open>link_body\<close>, \<open>unlink_body\<close>, \<open>create\<close>), and \<open>with_txn\<close> brackets it; every path of the code out of
  such a section ends the operation. A process that makes a system call has a current directory; a null one is the outcome \<open>Undefined\<close>.
  The argument \<open>env\<close> of \<open>sys_write\<close> is what other CPUs do while a process writes to a pipe.
\<close>

section \<open>Arguments\<close>

definition argraw :: "nat \<Rightarrow> nat \<Rightarrow> kern \<Rightarrow> fault + u64" where
  "argraw p n k = (if n < 6 then Inr (tf_get p (tf_a n) k) else Inl (Panic ''argraw''))"

definition argaddr :: "nat \<Rightarrow> nat \<Rightarrow> kern \<Rightarrow> fault + u64" where
  "argaddr p n k = argraw p n k"

definition arg_int :: "nat \<Rightarrow> nat \<Rightarrow> kern \<Rightarrow> fault + u32" where
  "arg_int p n k = bindE (argraw p n k) (\<lambda>a. Inr (argint a))"

definition fetchaddr :: "nat \<Rightarrow> u64 \<Rightarrow> kern \<Rightarrow> u64 option" where
  "fetchaddr p addr k =
     (let v = k_proc k p in
      if addr \<ge> p_sz v \<or> addr + 8 > p_sz v then None
      else case copyin (p_pagetable v) addr 8 (k_mem k) of (r, bs) \<Rightarrow>
        if r \<noteq> 0 then None else Some (word_of_nat (le_nat bs)))"

text \<open>The string that arrives in the buffer, without its terminator; \<^verbatim>\<open>fetchstr\<close> returns its length.\<close>

definition fetchstr :: "nat \<Rightarrow> u64 \<Rightarrow> nat \<Rightarrow> kern \<Rightarrow> byte list option" where
  "fetchstr p addr maxn k =
     (case copyinstr (p_pagetable (k_proc k p)) addr maxn (k_mem k) of (r, bs) \<Rightarrow>
        if r < 0 then None else Some (takeWhile (\<lambda>c. c \<noteq> 0) bs))"

definition argstr :: "nat \<Rightarrow> nat \<Rightarrow> nat \<Rightarrow> kern \<Rightarrow> fault + byte list option" where
  "argstr p n maxn k = bindE (argaddr p n k) (\<lambda>addr. Inr (fetchstr p addr maxn k))"

definition argfd :: "nat \<Rightarrow> nat \<Rightarrow> kern \<Rightarrow> fault + (nat \<times> nat) option" where
  "argfd p n k =
     bindE (arg_int p n k) (\<lambda>w.
     let fd = sint w in
     if fd < 0 \<or> fd \<ge> int NOFILE then Inr None
     else case p_ofile (k_proc k p) ! nat fd of None \<Rightarrow> Inr None | Some f \<Rightarrow> Inr (Some (nat fd, f)))"

definition fdalloc :: "nat \<Rightarrow> nat \<Rightarrow> kern \<Rightarrow> nat option \<times> kern" where
  "fdalloc p f k =
     (case List.find (\<lambda>fd. p_ofile (k_proc k p) ! fd = None) [0..<NOFILE] of
        None \<Rightarrow> (None, k)
      | Some fd \<Rightarrow> (Some fd, upd_proc p (\<lambda>v. v\<lparr>p_ofile := (p_ofile v)[fd := Some f]\<rparr>) k))"

definition put_fd :: "nat \<Rightarrow> nat \<Rightarrow> nat option \<Rightarrow> kern \<Rightarrow> kern" where
  "put_fd p fd f k = upd_proc p (\<lambda>v. v\<lparr>p_ofile := (p_ofile v)[fd := f]\<rparr>) k"

section \<open>Calls on open files\<close>

definition sys_dup :: "nat \<Rightarrow> kern \<Rightarrow> fault + int \<times> kern" where
  "sys_dup p k =
     bindE (argfd p 0 k) (\<lambda>a.
     case a of
       None \<Rightarrow> Inr (-1, k)
     | Some (_, f) \<Rightarrow>
         (case fdalloc p f k of
            (None, k) \<Rightarrow> Inr (-1, k)
          | (Some fd, k) \<Rightarrow> bindE (filedup f k) (\<lambda>k. Inr (int fd, k))))"

definition sys_read :: "nat \<Rightarrow> nat \<Rightarrow> kern \<Rightarrow> fault + progress \<times> kern" where
  "sys_read i p k =
     bindE (argaddr p 1 k) (\<lambda>addr.
     bindE (arg_int p 2 k) (\<lambda>n.
     bindE (argfd p 0 k) (\<lambda>a.
     case a of None \<Rightarrow> Inr (Returned (-1), k) | Some (_, f) \<Rightarrow> fileread i p f addr (sint n) k)))"

definition sys_write :: "(nat \<Rightarrow> kern \<Rightarrow> kern) \<Rightarrow> (nat \<Rightarrow> nat) \<Rightarrow> nat \<Rightarrow> nat \<Rightarrow> kern \<Rightarrow> fault + progress \<times> kern" where
  "sys_write env busy i p k =
     bindE (argaddr p 1 k) (\<lambda>addr.
     bindE (arg_int p 2 k) (\<lambda>n.
     bindE (argfd p 0 k) (\<lambda>a.
     case a of None \<Rightarrow> Inr (Returned (-1), k) | Some (_, f) \<Rightarrow> filewrite env busy i p f addr (sint n) k)))"

definition sys_close :: "machine \<Rightarrow> nat \<Rightarrow> nat \<Rightarrow> kern \<Rightarrow> fault + int \<times> kern" where
  "sys_close c i p k =
     bindE (argfd p 0 k) (\<lambda>a.
     case a of
       None \<Rightarrow> Inr (-1, k)
     | Some (fd, f) \<Rightarrow> bindE (fileclose c i p f (put_fd p fd None k)) (\<lambda>k. Inr (0, k)))"

definition sys_fstat :: "byte list \<Rightarrow> nat \<Rightarrow> kern \<Rightarrow> fault + int \<times> kern" where
  "sys_fstat pad p k =
     bindE (argaddr p 1 k) (\<lambda>st.
     bindE (argfd p 0 k) (\<lambda>a.
     case a of None \<Rightarrow> Inr (-1, k) | Some (_, f) \<Rightarrow> filestat pad p f st k))"

definition sys_pipe :: "machine \<Rightarrow> nat \<Rightarrow> nat \<Rightarrow> kern \<Rightarrow> fault + int \<times> kern" where
  "sys_pipe c i p k =
     bindE (argaddr p 0 k) (\<lambda>fdarray.
     bindE (pipealloc c i p k) (\<lambda>(r, k).
     case r of
       None \<Rightarrow> Inr (-1, k)
     | Some (rfile, wfile) \<Rightarrow>
         let close = (\<lambda>k. bindE (fileclose c i p rfile k) (\<lambda>k. bindE (fileclose c i p wfile k) (\<lambda>k. Inr (-1, k)))) in
         (case fdalloc p rfile k of
            (None, k) \<Rightarrow> close k
          | (Some fd0, k) \<Rightarrow>
              (case fdalloc p wfile k of
                 (None, k) \<Rightarrow> close (put_fd p fd0 None k)
               | (Some fd1, k) \<Rightarrow>
                   (let undo = (\<lambda>k. close (put_fd p fd1 None (put_fd p fd0 None k))) in
                    case copyout (p_pagetable (k_proc k p)) fdarray (bytes_le 4 fd0) (k_mem k) of (r, m) \<Rightarrow>
                      if r < 0 then undo (k\<lparr>k_mem := m\<rparr>)
                      else case copyout (p_pagetable (k_proc k p)) (fdarray + 4) (bytes_le 4 fd1) m of (r, m) \<Rightarrow>
                        if r < 0 then undo (k\<lparr>k_mem := m\<rparr>) else Inr (0, k\<lparr>k_mem := m\<rparr>))))))"

section \<open>Links\<close>

definition with_txn :: "(kern \<Rightarrow> fault + 'a \<times> kern) \<Rightarrow> kern \<Rightarrow> fault + 'a \<times> kern" where
  "with_txn body k = bindE (txn_begin k) (\<lambda>k. bindE (body k) (\<lambda>(x, k). Inr (x, txn_end k)))"

definition cwd_of :: "nat \<Rightarrow> kern \<Rightarrow> fault + nat" where
  "cwd_of p k = (case p_cwd (k_proc k p) of None \<Rightarrow> Inl (Undefined ''null cwd'') | Some ip \<Rightarrow> Inr ip)"

definition add_nlink :: "nat \<Rightarrow> u16 \<Rightarrow> fs \<Rightarrow> fault + fs" where
  "add_nlink ip d s = iupdate ip (upd_inode ip (\<lambda>v. v\<lparr>nlink := nlink v + d\<rparr>) s)"

definition link_body :: "nat \<Rightarrow> nat \<Rightarrow> byte list \<Rightarrow> byte list \<Rightarrow> fs \<Rightarrow> fault + int \<times> fs" where
  "link_body p cwd old new s =
     bindE (namei p cwd old s) (\<lambda>(r, s).
     case r of
       None \<Rightarrow> Inr (-1, s)
     | Some ip \<Rightarrow>
         bindE (ilock p ip s) (\<lambda>s.
         if ityp (itable s ip) = T_DIR then bindE (iunlockput p ip s) (\<lambda>s. Inr (-1, s))
         else
           let bad = (\<lambda>s.
             bindE (ilock p ip s) (\<lambda>s.
             bindE (add_nlink ip (-1) s) (\<lambda>s.
             bindE (iunlockput p ip s) (\<lambda>s. Inr (-1, s)))))
           in bindE (add_nlink ip 1 s) (\<lambda>s.
              bindE (iunlock p ip s) (\<lambda>s.
              bindE (nameiparent p cwd new s) (\<lambda>(r, s).
              case r of
                None \<Rightarrow> bad s
              | Some (dp, name) \<Rightarrow>
                  bindE (ilock p dp s) (\<lambda>s.
                  bindE (if idev (itable s dp) \<noteq> idev (itable s ip) then Inr (-1, s) else dirlink p dp name (inum (itable s ip)) s) (\<lambda>(e, s).
                  bindE (iunlockput p dp s) (\<lambda>s.
                  if e < 0 then bad s else bindE (iput p ip s) (\<lambda>s. Inr (0, s))))))))))"

definition sys_link :: "nat \<Rightarrow> kern \<Rightarrow> fault + int \<times> kern" where
  "sys_link p k =
     bindE (argstr p 0 MAXPATH k) (\<lambda>old.
     case old of
       None \<Rightarrow> Inr (-1, k)
     | Some old \<Rightarrow>
         bindE (argstr p 1 MAXPATH k) (\<lambda>new.
         case new of
           None \<Rightarrow> Inr (-1, k)
         | Some new \<Rightarrow> bindE (cwd_of p k) (\<lambda>cwd. with_txn (fs_call (link_body p cwd old new)) k)))"

primrec isdirempty_loop :: "nat list \<Rightarrow> nat \<Rightarrow> fs \<Rightarrow> fault + bool \<times> fs" where
  "isdirempty_loop [] dp s = Inr (True, s)"
| "isdirempty_loop (off # offs) dp s =
     bindE (readi kout dp 0 (word_of_nat off) (word_of_nat DE_SIZE) [] s) (\<lambda>(r, de, s).
     if r \<noteq> int DE_SIZE then Inl (Panic ''isdirempty: readi'')
     else if de_inum de \<noteq> 0 then Inr (False, s)
     else isdirempty_loop offs dp s)"

definition isdirempty :: "nat \<Rightarrow> fs \<Rightarrow> fault + bool \<times> fs" where
  "isdirempty dp s = isdirempty_loop (drop 2 (dir_offsets (unat (isize (itable s dp))))) dp s"

definition unlink_entry :: "nat \<Rightarrow> nat \<Rightarrow> nat \<Rightarrow> nat \<Rightarrow> fs \<Rightarrow> fault + int \<times> fs" where
  "unlink_entry p dp ip off s =
     bindE (writei kin dp 0 (word_of_nat off) (word_of_nat DE_SIZE) (replicate DE_SIZE 0) s) (\<lambda>(r, s).
     if r \<noteq> int DE_SIZE then Inl (Panic ''unlink: writei'')
     else
       bindE (if ityp (itable s ip) = T_DIR then add_nlink dp (-1) s else Inr s) (\<lambda>s.
       bindE (iunlockput p dp s) (\<lambda>s.
       bindE (add_nlink ip (-1) s) (\<lambda>s.
       bindE (iunlockput p ip s) (\<lambda>s. Inr (0, s))))))"

definition unlink_body :: "nat \<Rightarrow> nat \<Rightarrow> byte list \<Rightarrow> fs \<Rightarrow> fault + int \<times> fs" where
  "unlink_body p cwd path s =
     bindE (nameiparent p cwd path s) (\<lambda>(r, s).
     case r of
       None \<Rightarrow> Inr (-1, s)
     | Some (dp, name) \<Rightarrow>
         bindE (ilock p dp s) (\<lambda>s.
         let bad = (\<lambda>s. bindE (iunlockput p dp s) (\<lambda>s. Inr (-1, s))) in
         if namecmp name [46] = 0 \<or> namecmp name [46, 46] = 0 then bad s
         else
           bindE (dirlookup dp name s) (\<lambda>(r, s).
           case r of
             None \<Rightarrow> bad s
           | Some (ip, off) \<Rightarrow>
               bindE (ilock p ip s) (\<lambda>s.
               if sint (nlink (itable s ip)) < 1 then Inl (Panic ''unlink: nlink < 1'')
               else
                 bindE (if ityp (itable s ip) = T_DIR then isdirempty ip s else Inr (True, s)) (\<lambda>(empty, s).
                 if \<not> empty then bindE (iunlockput p ip s) bad else unlink_entry p dp ip off s)))))"

definition sys_unlink :: "nat \<Rightarrow> kern \<Rightarrow> fault + int \<times> kern" where
  "sys_unlink p k =
     bindE (argstr p 0 MAXPATH k) (\<lambda>path.
     case path of
       None \<Rightarrow> Inr (-1, k)
     | Some path \<Rightarrow> bindE (cwd_of p k) (\<lambda>cwd. with_txn (fs_call (unlink_body p cwd path)) k))"

section \<open>Creating and opening\<close>

definition create :: "nat \<Rightarrow> nat \<Rightarrow> byte list \<Rightarrow> u16 \<Rightarrow> u16 \<Rightarrow> u16 \<Rightarrow> fs \<Rightarrow> fault + nat option \<times> fs" where
  "create p cwd path type major minor s =
     bindE (nameiparent p cwd path s) (\<lambda>(r, s).
     case r of
       None \<Rightarrow> Inr (None, s)
     | Some (dp, name) \<Rightarrow>
         bindE (ilock p dp s) (\<lambda>s.
         bindE (dirlookup dp name s) (\<lambda>(r, s).
         case r of
           Some (ip, _) \<Rightarrow>
             bindE (iunlockput p dp s) (\<lambda>s.
             bindE (ilock p ip s) (\<lambda>s.
             if type = T_FILE \<and> (ityp (itable s ip) = T_FILE \<or> ityp (itable s ip) = T_DEVICE) then Inr (Some ip, s)
             else bindE (iunlockput p ip s) (\<lambda>s. Inr (None, s))))
         | None \<Rightarrow>
             bindE (ialloc (idev (itable s dp)) type s) (\<lambda>(r, s).
             case r of
               None \<Rightarrow> bindE (iunlockput p dp s) (\<lambda>s. Inr (None, s))
             | Some ip \<Rightarrow>
                 bindE (ilock p ip s) (\<lambda>s.
                 bindE (iupdate ip (upd_inode ip (\<lambda>v. v\<lparr>imajor := major, iminor := minor, nlink := 1\<rparr>) s)) (\<lambda>s.
                 let fail = (\<lambda>s.
                   bindE (iupdate ip (upd_inode ip (\<lambda>v. v\<lparr>nlink := 0\<rparr>) s)) (\<lambda>s.
                   bindE (iunlockput p ip s) (\<lambda>s.
                   bindE (iunlockput p dp s) (\<lambda>s. Inr (None, s)))))
                 in
                 bindE (if type = T_DIR then
                          bindE (dirlink p ip [46] (inum (itable s ip)) s) (\<lambda>(e, s).
                          if e < 0 then Inr (e, s) else dirlink p ip [46, 46] (inum (itable s dp)) s)
                        else Inr (0, s)) (\<lambda>(e, s).
                 if e < 0 then fail s
                 else
                   bindE (dirlink p dp name (inum (itable s ip)) s) (\<lambda>(e, s).
                   if e < 0 then fail s
                   else
                     bindE (if type = T_DIR then add_nlink dp 1 s else Inr s) (\<lambda>s.
                     bindE (iunlockput p dp s) (\<lambda>s. Inr (Some ip, s)))))))))))"

definition O_WRONLY :: u32 where "O_WRONLY = 0x001"
definition O_RDWR :: u32 where "O_RDWR = 0x002"
definition O_CREATE :: u32 where "O_CREATE = 0x200"
definition O_TRUNC :: u32 where "O_TRUNC = 0x400"

text \<open>The inode that \<^verbatim>\<open>sys_open\<close> opens, locked.\<close>

definition open_inode :: "nat \<Rightarrow> nat \<Rightarrow> byte list \<Rightarrow> u32 \<Rightarrow> fs \<Rightarrow> fault + nat option \<times> fs" where
  "open_inode p cwd path omode s =
     bindE (if omode AND O_CREATE \<noteq> 0 then create p cwd path T_FILE 0 0 s
            else
              bindE (namei p cwd path s) (\<lambda>(r, s).
              case r of
                None \<Rightarrow> Inr (None, s)
              | Some ip \<Rightarrow>
                  bindE (ilock p ip s) (\<lambda>s.
                  if ityp (itable s ip) = T_DIR \<and> omode \<noteq> 0 then bindE (iunlockput p ip s) (\<lambda>s. Inr (None, s))
                  else Inr (Some ip, s)))) (\<lambda>(r, s).
     case r of
       None \<Rightarrow> Inr (None, s)
     | Some ip \<Rightarrow>
         if ityp (itable s ip) = T_DEVICE \<and> (sint (imajor (itable s ip)) < 0 \<or> sint (imajor (itable s ip)) \<ge> int NDEV)
         then bindE (iunlockput p ip s) (\<lambda>s. Inr (None, s))
         else Inr (Some ip, s))"

definition open_file :: "nat \<Rightarrow> inode \<Rightarrow> u32 \<Rightarrow> kfile \<Rightarrow> kfile" where
  "open_file ip v omode f =
     (let f = (if ityp v = T_DEVICE then f\<lparr>f_type := FD_DEVICE, f_major := imajor v\<rparr> else f\<lparr>f_type := FD_INODE, f_off := 0\<rparr>)
      in f\<lparr>f_ip := ip, f_readable := (omode AND O_WRONLY = 0), f_writable := (omode AND O_WRONLY \<noteq> 0 \<or> omode AND O_RDWR \<noteq> 0)\<rparr>)"

definition sys_open :: "machine \<Rightarrow> nat \<Rightarrow> nat \<Rightarrow> kern \<Rightarrow> fault + int \<times> kern" where
  "sys_open c i p k =
     bindE (arg_int p 1 k) (\<lambda>omode.
     bindE (argstr p 0 MAXPATH k) (\<lambda>path.
     case path of
       None \<Rightarrow> Inr (-1, k)
     | Some path \<Rightarrow>
         bindE (cwd_of p k) (\<lambda>cwd.
         with_txn (\<lambda>k.
           bindE (fs_call (open_inode p cwd path omode) k) (\<lambda>(r, k).
           case r of
             None \<Rightarrow> Inr (-1, k)
           | Some ip \<Rightarrow>
               (case filealloc k of
                  (None, k) \<Rightarrow> bindE (on_fs (iunlockput p ip) k) (\<lambda>k. Inr (-1, k))
                | (Some f, k) \<Rightarrow>
                    (case fdalloc p f k of
                       (None, k) \<Rightarrow>
                         bindE (fileclose c i p f k) (\<lambda>k.
                         bindE (on_fs (iunlockput p ip) k) (\<lambda>k. Inr (-1, k)))
                     | (Some fd, k) \<Rightarrow>
                         let v = itable (k_fs k) ip;
                             k = upd_file f (open_file ip v omode) k
                         in bindE (if omode AND O_TRUNC \<noteq> 0 \<and> ityp v = T_FILE then on_fs (itrunc ip) k else Inr k) (\<lambda>k.
                            bindE (on_fs (iunlock p ip) k) (\<lambda>k. Inr (int fd, k))))))) k)))"

text \<open>\<^verbatim>\<open>sys_mkdir\<close> and \<^verbatim>\<open>sys_mknod\<close> open the operation before they look at their arguments.\<close>

definition make_node :: "nat \<Rightarrow> u16 \<Rightarrow> u16 \<Rightarrow> u16 \<Rightarrow> kern \<Rightarrow> fault + int \<times> kern" where
  "make_node p type major minor k =
     bindE (argstr p 0 MAXPATH k) (\<lambda>path.
     case path of
       None \<Rightarrow> Inr (-1, k)
     | Some path \<Rightarrow>
         bindE (cwd_of p k) (\<lambda>cwd.
         bindE (fs_call (create p cwd path type major minor) k) (\<lambda>(r, k).
         case r of
           None \<Rightarrow> Inr (-1, k)
         | Some ip \<Rightarrow> bindE (on_fs (iunlockput p ip) k) (\<lambda>k. Inr (0, k)))))"

definition sys_mkdir :: "nat \<Rightarrow> kern \<Rightarrow> fault + int \<times> kern" where
  "sys_mkdir p k = with_txn (make_node p T_DIR 0 0) k"

definition sys_mknod :: "nat \<Rightarrow> kern \<Rightarrow> fault + int \<times> kern" where
  "sys_mknod p k =
     with_txn (\<lambda>k.
       bindE (arg_int p 1 k) (\<lambda>major.
       bindE (arg_int p 2 k) (\<lambda>minor.
       make_node p T_DEVICE (ucast major) (ucast minor) k))) k"

definition sys_chdir :: "nat \<Rightarrow> kern \<Rightarrow> fault + int \<times> kern" where
  "sys_chdir p k =
     bindE (cwd_of p k) (\<lambda>cwd.
     bindE (with_txn (\<lambda>k.
       bindE (argstr p 0 MAXPATH k) (\<lambda>path.
       case path of
         None \<Rightarrow> Inr (None, k)
       | Some path \<Rightarrow>
           bindE (fs_call (namei p cwd path) k) (\<lambda>(r, k).
           case r of
             None \<Rightarrow> Inr (None, k)
           | Some ip \<Rightarrow>
               bindE (on_fs (ilock p ip) k) (\<lambda>k.
               if ityp (itable (k_fs k) ip) \<noteq> T_DIR then bindE (on_fs (iunlockput p ip) k) (\<lambda>k. Inr (None, k))
               else
                 bindE (on_fs (iunlock p ip) k) (\<lambda>k.
                 bindE (on_fs (iput p cwd) k) (\<lambda>k. Inr (Some ip, k))))))) k) (\<lambda>(r, k).
     case r of
       None \<Rightarrow> Inr (-1, k)
     | Some ip \<Rightarrow> Inr (0, upd_proc p (\<lambda>v. v\<lparr>p_cwd := Some ip\<rparr>) k)))"

end
