(* ===== verification/File_Inv.thy ===== *)
theory File_Inv
  imports Proc_Inv Sysfile
begin

text \<open>
  Open files: the reference count of an entry of the file table is the number of descriptors that name it, over all processes, and processes that do not live have no
  descriptors. \<open>tracks k d\<close> says that the counts are right up to a difference \<open>d\<close>, which is what the middle of a system call needs; \<open>fkeeps\<close> is what everything
  that is not about files leaves alone.
\<close>

section \<open>Counting descriptors\<close>

abbreviation ofile :: "kern \<Rightarrow> nat \<Rightarrow> nat option list" where
  "ofile k p \<equiv> p_ofile (k_proc k p)"

definition refs :: "kern \<Rightarrow> nat \<Rightarrow> int" where
  "refs k f = (\<Sum>p<NPROC. int (count_list (ofile k p) (Some f)))"

definition tracks :: "kern \<Rightarrow> (nat \<Rightarrow> int) \<Rightarrow> bool" where
  "tracks k d \<longleftrightarrow> (\<forall>p. length (ofile k p) = NOFILE) \<and> (\<forall>f. f_ref (k_file k f) = refs k f + d f)"

definition counted :: "kern \<Rightarrow> bool" where
  "counted k \<longleftrightarrow> life_inv k \<and> tracks k (\<lambda>_. 0) \<and> (\<forall>p. \<not> alive (st_of k p) \<longrightarrow> ofile k p = replicate NOFILE None)"

definition hit :: "nat option \<Rightarrow> nat \<Rightarrow> int" where
  "hit x f = (if x = Some f then 1 else 0)"

lemma count_list_update: "i < length xs \<Longrightarrow> int (count_list (xs[i := y]) z) = int (count_list xs z) - (if xs ! i = z then 1 else 0) + (if y = z then 1 else 0)"
proof (induction xs arbitrary: i)
  case (Cons x xs)
  show ?case
  proof (cases i)
    case (Suc j)
    then show ?thesis using Cons.IH [of j] Cons.prems by (simp split: if_splits)
  qed simp
qed simp

lemma refs_cong: "(\<And>p. ofile k' p = ofile k p) \<Longrightarrow> refs k' f = refs k f"
  by (simp add: refs_def)

lemma refs_update:
  assumes "p < NPROC" "fd < length (ofile k p)" "ofile k' p = (ofile k p)[fd := y]" "\<And>q. q \<noteq> p \<Longrightarrow> ofile k' q = ofile k q"
  shows "refs k' f = refs k f - hit (ofile k p ! fd) f + hit y f"
proof -
  have "refs k'' f = int (count_list (ofile k'' p) (Some f)) + (\<Sum>q\<in>{..<NPROC} - {p}. int (count_list (ofile k'' q) (Some f)))" for k''
    unfolding refs_def using assms(1) by (subst sum.remove [of _ p]) auto
  moreover have "(\<Sum>q\<in>{..<NPROC} - {p}. int (count_list (ofile k' q) (Some f))) = (\<Sum>q\<in>{..<NPROC} - {p}. int (count_list (ofile k q) (Some f)))"
    using assms(4) by (intro sum.cong) auto
  ultimately show ?thesis using count_list_update [OF assms(2), of y "Some f"] assms(3) by (simp add: hit_def)
qed

lemma refs_pos: "p < NPROC \<Longrightarrow> fd < length (ofile k p) \<Longrightarrow> ofile k p ! fd = Some f \<Longrightarrow> 0 < refs k f"
proof -
  assume a: "p < NPROC" "fd < length (ofile k p)" "ofile k p ! fd = Some f"
  have "Some f \<in> set (ofile k p)" using a by (metis nth_mem)
  then have "count_list (ofile k p) (Some f) \<noteq> 0" by (simp add: count_list_0_iff)
  then show ?thesis unfolding refs_def using a(1) by (intro sum_pos2 [of _ p]) auto
qed

text \<open>One descriptor changes from \<open>ofile k p ! fd\<close> to \<open>y\<close>.\<close>

lemma tracks_update:
  assumes "tracks k d" "p < NPROC" "fd < NOFILE" "k_file k' = k_file k" "ofile k' p = (ofile k p)[fd := y]" "\<And>q. q \<noteq> p \<Longrightarrow> ofile k' q = ofile k q"
  shows "tracks k' (\<lambda>f. d f + hit (ofile k p ! fd) f - hit y f)"
proof -
  have l: "length (ofile k q) = NOFILE" for q using assms(1) by (simp add: tracks_def)
  have "length (ofile k' q) = NOFILE" for q using l assms(5,6) by (cases "q = p") auto
  moreover have "f_ref (k_file k' f) = refs k' f + (d f + hit (ofile k p ! fd) f - hit y f)" for f
    using refs_update [OF assms(2) _ assms(5,6), of f] assms(1,3,4) l by (simp add: tracks_def)
  ultimately show ?thesis by (simp add: tracks_def)
qed

lemma tracks_put_fd:
  "tracks k d \<Longrightarrow> p < NPROC \<Longrightarrow> fd < NOFILE \<Longrightarrow> tracks (put_fd p fd y k) (\<lambda>f. d f + hit (ofile k p ! fd) f - hit y f)"
  by (rule tracks_update [of k d p fd]) (simp_all add: put_fd_def upd_proc_def)

text \<open>Counts change by a given amount, descriptors do not.\<close>

definition recounts :: "kern \<Rightarrow> kern \<Rightarrow> (nat \<Rightarrow> int) \<Rightarrow> bool" where
  "recounts k k' e \<longleftrightarrow> (\<forall>p. ofile k' p = ofile k p) \<and> (\<forall>f. f_ref (k_file k' f) = f_ref (k_file k f) + e f)"

abbreviation fkeeps :: "kern \<Rightarrow> kern \<Rightarrow> bool" where
  "fkeeps k k' \<equiv> recounts k k' (\<lambda>_. 0)"

lemma recounts_refl [simp]: "fkeeps k k"
  by (simp add: recounts_def)

lemma recounts_trans: "recounts a b d \<Longrightarrow> recounts b c e \<Longrightarrow> recounts a c (\<lambda>f. d f + e f)"
  by (simp add: recounts_def)

lemma fkeeps_trans: "fkeeps a b \<Longrightarrow> fkeeps b c \<Longrightarrow> fkeeps a c"
  by (simp add: recounts_def)

lemma tracks_recounts: "tracks k d \<Longrightarrow> recounts k k' e \<Longrightarrow> tracks k' (\<lambda>f. d f + e f)"
  using refs_cong [of k' k] by (simp add: tracks_def recounts_def)

section \<open>What leaves files alone\<close>

lemma fkeeps_fields: "k_file k' = k_file k \<Longrightarrow> (\<And>p. ofile k' p = ofile k p) \<Longrightarrow> fkeeps k k'"
  by (simp add: recounts_def)

lemma fkeeps_kpush: "fkeeps k (kpush_off i k)"
  and fkeeps_kpop: "kpop_off i k = Inr k' \<Longrightarrow> fkeeps k k'"
  and fkeeps_acquire: "acquire_p i p k = Inr k' \<Longrightarrow> fkeeps k k'"
  and fkeeps_release: "release_p i p k = Inr k' \<Longrightarrow> fkeeps k k'"
  by (rule fkeeps_fields; auto simp: kpush_off_def kpop_off_def acquire_p_def release_p_def holding_p_def Let_def upd_proc_def upd_cpu_def split: if_splits)+

lemma fkeeps_upd: "p_ofile (f (k_proc k p)) = ofile k p \<Longrightarrow> fkeeps k (upd_proc p f k)"
  by (rule fkeeps_fields) (simp_all add: upd_proc_def)

lemma forE_fkeeps:
  assumes "\<And>x k k'. f x k = Inr k' \<Longrightarrow> fkeeps k k'"
  shows "forE xs f k = Inr k' \<Longrightarrow> fkeeps k k'"
proof (induction xs arbitrary: k)
  case (Cons x xs)
  then obtain k1 where "f x k = Inr k1" "forE xs f k1 = Inr k'" by (auto simp: bindE_Inr_iff)
  then show ?case using fkeeps_trans [OF assms] Cons.IH by blast
qed simp

lemma fkeeps_wakeup1: "wakeup1 i ch p k = Inr k' \<Longrightarrow> fkeeps k k'"
proof -
  assume w: "wakeup1 i ch p k = Inr k'"
  show ?thesis
  proof (cases "Some p = c_proc (k_cpu k i) \<or> holding_p i p k \<and> st_of k p = USED")
    case True
    then show ?thesis using w by (auto simp: wakeup1_def split: if_splits)
  next
    case False
    then obtain k1 k2 where k: "acquire_p i p k = Inr k1" "k2 = k1 \<or> k2 = upd_proc p (\<lambda>v. v\<lparr>p_state := RUNNABLE\<rparr>) k1" "release_p i p k2 = Inr k'"
      using w by (auto simp: wakeup1_def bindE_Inr_iff split: if_splits)
    have "fkeeps k1 k2" using k(2) fkeeps_upd by auto
    then show ?thesis using fkeeps_trans [OF fkeeps_trans [OF fkeeps_acquire [OF k(1)]] fkeeps_release [OF k(3)]] by blast
  qed
qed

lemma fkeeps_wakeup: "wakeup i ch k = Inr k' \<Longrightarrow> fkeeps k k'"
  unfolding wakeup_def by (rule forE_fkeeps [of "wakeup1 i ch"]) (erule fkeeps_wakeup1)

lemma fkeeps_wake_proc: "wake_proc i q k = Inr k' \<Longrightarrow> fkeeps k k'"
  by (auto simp: wake_proc_def fkeeps_wakeup split: option.splits)

lemma fkeeps_reparent: "reparent i p k = Inr k' \<Longrightarrow> fkeeps k k'"
proof -
  have "fkeeps k k'" if "reparent1 i p q k = Inr k'" for q k k'
    using that fkeeps_trans [OF fkeeps_upd [of "\<lambda>v. v\<lparr>p_parent := k_initproc k\<rparr>" k q] fkeeps_wake_proc] by (auto simp: reparent1_def split: if_splits)
  then show "reparent i p k = Inr k' \<Longrightarrow> fkeeps k k'" unfolding reparent_def by (rule forE_fkeeps)
qed

lemma fkeeps_sched: "sched i k = Inr k' \<Longrightarrow> fkeeps k k'"
proof -
  assume "sched i k = Inr k'"
  then obtain p where "scheduler_return i p (upd_proc p (\<lambda>v. v\<lparr>p_intena := c_intena (k_cpu k i)\<rparr>) k) = Inr k'"
    by (auto simp: sched_def bindE_Inr_iff split: if_splits)
  from fkeeps_release [OF this [unfolded scheduler_return_def]] show ?thesis
    by (simp add: recounts_def upd_proc_def upd_cpu_def)
qed

lemma fkeeps_txn_begin: "txn_begin k = Inr k' \<Longrightarrow> fkeeps k k'"
  and fkeeps_on_fs: "on_fs g k = Inr k' \<Longrightarrow> fkeeps k k'"
  and fkeeps_fs_call: "fs_call h k = Inr (x, k') \<Longrightarrow> fkeeps k k'"
  and fkeeps_txn_end: "fkeeps k (txn_end k)"
  by (rule fkeeps_fields; auto simp: txn_begin_def on_fs_def fs_call_def txn_end_def Let_def bindE_Inr_iff split: if_splits)+

lemma fkeeps_mem: "fkeeps k (k\<lparr>k_mem := m\<rparr>)"
  by (simp add: recounts_def)

lemma fkeeps_pipeclose:
  assumes "pipeclose c i pi w k = Inr k'"
  shows "fkeeps k k'"
proof -
  let ?k = "if w then upd_pipe pi (\<lambda>v. v\<lparr>writeopen := False\<rparr>) (kpush_off i k) else upd_pipe pi (\<lambda>v. v\<lparr>readopen := False\<rparr>) (kpush_off i k)"
  have "fkeeps k ?k" using fkeeps_kpush [of k i] by (simp add: recounts_def upd_pipe_def)
  moreover obtain k1 k2 where k: "wakeup i (if w then Chan_nread pi else Chan_nwrite pi) ?k = Inr k1" "kpop_off i k1 = Inr k2" "k' = k2 \<or> (\<exists>m. k' = k2\<lparr>k_mem := m\<rparr>)"
    using assms by (auto simp: pipeclose_def Let_def bindE_Inr_iff split: if_splits)
  moreover have "fkeeps k2 k'" using k(3) fkeeps_mem by auto
  ultimately show ?thesis using fkeeps_trans fkeeps_wakeup [OF k(1)] fkeeps_kpop [OF k(2)] by blast
qed

lemma fkeeps_freeproc: "freeproc c z k = Inr k' \<Longrightarrow> fkeeps k k'"
proof -
  assume "freeproc c z k = Inr k'"
  then obtain m where "k' = upd_proc z (\<lambda>v. v\<lparr>p_trapframe := 0, p_pagetable := 0, p_sz := 0, p_pid := 0, p_parent := None, p_name := (p_name v)[0 := 0],
             p_chan := None, p_killed := False, p_xstate := 0, p_state := UNUSED\<rparr>) (k\<lparr>k_mem := m\<rparr>)"
    by (rule freeproc_spec)
  then show ?thesis by (simp add: recounts_def upd_proc_def)
qed

lemma fkeeps_allocproc_scan: "allocproc_scan i ps k = Inr (x, k') \<Longrightarrow> fkeeps k k'"
proof (induction ps arbitrary: k)
  case (Cons p ps)
  then obtain k1 where k1: "acquire_p i p k = Inr k1" "(if st_of k1 p = UNUSED then Inr (Some p, k1) else bindE (release_p i p k1) (allocproc_scan i ps)) = Inr (x, k')"
    by (auto simp: bindE_Inr_iff)
  have "fkeeps k1 k'"
    using k1(2) fkeeps_trans [OF fkeeps_release Cons.IH] by (auto simp: bindE_Inr_iff split: if_splits)
  then show ?case using fkeeps_trans [OF fkeeps_acquire [OF k1(1)]] by blast
qed simp

lemma fkeeps_free_release: "bindE (freeproc c np k) (\<lambda>k. bindE (release_p i np k) (\<lambda>k. Inr (x, k))) = Inr (y, k') \<Longrightarrow> fkeeps k k'"
  using fkeeps_trans [OF fkeeps_freeproc fkeeps_release] by (auto simp: bindE_Inr_iff)

lemma fkeeps_allocproc:
  assumes "allocproc c entry i k = Inr (x, k')"
  shows "fkeeps k k'"
proof -
  obtain y k1 where y: "allocproc_scan i [0..<NPROC] k = Inr (y, k1)" using assms by (auto simp: allocproc_def bindE_Inr_iff)
  note s = fkeeps_allocproc_scan [OF y]
  show ?thesis
  proof (cases y)
    case None
    then show ?thesis using assms y s by (simp add: allocproc_def)
  next
    case (Some np)
    obtain tf m where tf: "kalloc (k_mem k1) = (tf, m)" by fastforce
    let ?k2 = "upd_proc np (\<lambda>v. v\<lparr>p_trapframe := tf\<rparr>) ((upd_proc np (\<lambda>v. v\<lparr>p_pid := k_nextpid k1, p_state := USED\<rparr>) (k1\<lparr>k_nextpid := k_nextpid k1 + 1\<rparr>))\<lparr>k_mem := m\<rparr>)"
    have k2: "fkeeps k1 ?k2" by (simp add: recounts_def upd_proc_def)
    show ?thesis
    proof (cases "tf = 0")
      case True
      then have "fkeeps ?k2 k'"
        using assms y Some tf fkeeps_free_release [of c np ?k2 i None x k'] by (simp add: allocproc_def allocpid_def Let_def)
      then show ?thesis by (rule fkeeps_trans [OF fkeeps_trans [OF s k2]])
    next
      case False
      then obtain pt m' where pt: "proc_pagetable c tf (k_mem ?k2) = Inr (pt, m')"
        using assms y Some tf by (auto simp: allocproc_def allocpid_def bindE_Inr_iff Let_def)
      let ?k3 = "upd_proc np (\<lambda>v. v\<lparr>p_pagetable := pt\<rparr>) (?k2\<lparr>k_mem := m'\<rparr>)"
      have k3: "fkeeps ?k2 ?k3" by (simp add: recounts_def upd_proc_def)
      have "fkeeps ?k3 k'"
        using assms y Some tf False pt fkeeps_free_release [of c np ?k3 i None x k']
        by (cases "pt = 0") (auto simp: allocproc_def allocpid_def Let_def intro: fkeeps_upd)
      then show ?thesis by (rule fkeeps_trans [OF fkeeps_trans [OF fkeeps_trans [OF s k2] k3]])
    qed
  qed
qed

section \<open>Opening, duplicating and closing\<close>

lemma recounts_fileclose:
  assumes "fileclose c i p f k = Inr k'"
  shows "recounts k k' (\<lambda>g. - hit (Some f) g)"
proof -
  let ?k1 = "upd_file f (\<lambda>v. v\<lparr>f_ref := f_ref v - 1\<rparr>) k"
  let ?k2 = "upd_file f (\<lambda>v. v\<lparr>f_ref := 0, f_type := FD_NONE\<rparr>) ?k1"
  have r1: "recounts k ?k1 (\<lambda>g. - hit (Some f) g)" by (simp add: recounts_def upd_file_def hit_def)
  have txn: "fkeeps ?k2 k'" if "bindE (txn_begin ?k2) (\<lambda>k. bindE (on_fs g k) (\<lambda>k. Inr (txn_end k))) = Inr k'" for g
  proof -
    from that obtain ka kb where "txn_begin ?k2 = Inr ka" "on_fs g ka = Inr kb" "k' = txn_end kb" by (auto simp: bindE_Inr_iff)
    then show ?thesis using fkeeps_trans [OF fkeeps_trans [OF fkeeps_txn_begin fkeeps_on_fs] fkeeps_txn_end] by blast
  qed
  have ge: "\<not> f_ref (k_file k f) < 1" using assms by (auto simp: fileclose_def split: if_splits)
  show ?thesis
  proof (cases "f_ref (k_file ?k1 f) > 0")
    case True
    then show ?thesis using assms ge r1 by (simp add: fileclose_def Let_def)
  next
    case False
    then have "f_ref (k_file k f) = 1" using ge by (simp add: upd_file_def)
    then have "recounts k ?k2 (\<lambda>g. - hit (Some f) g)" by (simp add: recounts_def upd_file_def hit_def)
    moreover have "fkeeps ?k2 k'"
      using assms ge False txn [of "iput p (f_ip (k_file ?k1 f))"] fkeeps_pipeclose [of c i "f_pipe (k_file ?k1 f)" "f_writable (k_file ?k1 f)" ?k2 k']
      by (cases "f_type (k_file ?k1 f)") (simp_all add: fileclose_def Let_def)
    ultimately show ?thesis using recounts_trans by fastforce
  qed
qed

lemma recounts_filedup: "filedup f k = Inr k' \<Longrightarrow> recounts k k' (\<lambda>g. hit (Some f) g)"
  by (auto simp: filedup_def recounts_def upd_file_def hit_def split: if_splits)

lemma recounts_filealloc: "filealloc k = (Some f, k') \<Longrightarrow> recounts k k' (\<lambda>g. hit (Some f) g)"
  by (auto simp: filealloc_def recounts_def upd_file_def hit_def find_Some_iff split: option.splits)

lemma filealloc_none: "filealloc k = (None, k') \<Longrightarrow> k' = k"
  by (auto simp: filealloc_def split: option.splits)

lemma tracks_fdalloc:
  assumes "tracks k d" "p < NPROC" "fdalloc p f k = (Some fd, k')"
  shows "tracks k' (\<lambda>g. d g - hit (Some f) g)" "fd < NOFILE" "ofile k' p ! fd = Some f"
proof -
  have fd: "fd < NOFILE" "ofile k p ! fd = None" "k' = put_fd p fd (Some f) k"
    using assms(3) by (auto simp: fdalloc_def put_fd_def find_Some_iff split: option.splits)
  then show "fd < NOFILE" by simp
  have l: "length (ofile k p) = NOFILE" using assms(1) by (simp add: tracks_def)
  then show "ofile k' p ! fd = Some f" using fd by (simp add: put_fd_def)
  show "tracks k' (\<lambda>g. d g - hit (Some f) g)"
    using tracks_put_fd [OF assms(1,2) fd(1), of "Some f"] unfolding fd(2,3) by (simp add: hit_def)
qed

lemma fdalloc_none: "fdalloc p f k = (None, k') \<Longrightarrow> k' = k"
  by (auto simp: fdalloc_def split: option.splits)

text \<open>What a call of process \<open>p\<close> on files may do besides counting: change descriptors of \<open>p\<close> and wake sleepers.\<close>

definition fdop :: "nat \<Rightarrow> kern \<Rightarrow> kern \<Rightarrow> bool" where
  "fdop p k k' \<longleftrightarrow> stirs k k' \<and> (\<forall>q. q \<noteq> p \<longrightarrow> ofile k' q = ofile k q)"

lemma fdop_refl [simp]: "fdop p k k"
  by (simp add: fdop_def)

lemma fdop_trans: "fdop p a b \<Longrightarrow> fdop p b c \<Longrightarrow> fdop p a c"
  unfolding fdop_def using stirs_trans by metis

lemma fdop_locks: "fdop p k k' \<Longrightarrow> locks_free k \<Longrightarrow> locks_free k'"
  unfolding fdop_def using stirs_locks_free by blast

lemma fdop_fields: "k_proc k' = k_proc k \<Longrightarrow> k_cpu k' = k_cpu k \<Longrightarrow> k_initproc k' = k_initproc k \<Longrightarrow> fdop p k k'"
  by (simp add: fdop_def stirs_fields)

lemma fdop_put_fd: "fdop p k (put_fd p fd y k)"
  by (simp add: fdop_def stirs_def same_cpus_def stirred_def put_fd_def upd_proc_def)

lemma fdop_fdalloc: "fdalloc p f k = (x, k') \<Longrightarrow> fdop p k k'"
  using fdop_put_fd [of p k] by (auto simp: fdalloc_def put_fd_def split: option.splits)

lemma fdop_filealloc: "filealloc k = (x, k') \<Longrightarrow> fdop p k k'"
  by (rule fdop_fields) (auto simp: filealloc_def upd_file_def split: option.splits)

lemma fdop_filedup: "filedup f k = Inr k' \<Longrightarrow> fdop p k k'"
  by (rule fdop_fields) (auto simp: filedup_def upd_file_def split: if_splits)

lemma fdop_fileclose: "locks_free k \<Longrightarrow> fileclose c i p f k = Inr k' \<Longrightarrow> fdop p k k'"
  using fileclose_stirs recounts_fileclose by (auto simp: fdop_def recounts_def)

lemma fdop_keeps: "stirs k k' \<Longrightarrow> fkeeps k k' \<Longrightarrow> fdop p k k'"
  by (simp add: fdop_def recounts_def)

lemma tracks_eq: "tracks k d \<Longrightarrow> (\<And>f. d f = e f) \<Longrightarrow> tracks k e"
  by (simp add: tracks_def)

lemma counted_op:
  assumes "counted k" "alive (st_of k p)" "fdop p k k'" "tracks k' (\<lambda>_. 0)"
  shows "counted k'"
proof -
  have s: "stirs k k'" using assms(3) by (simp add: fdop_def)
  have "ofile k' q = replicate NOFILE None" if "\<not> alive (st_of k' q)" for q
  proof -
    have "\<not> alive (st_of k q)" using stirred_state(1) [OF stirs_proc [OF s, of q]] that by simp
    moreover from this have "q \<noteq> p" using assms(2) by blast
    ultimately show ?thesis using assms(1,3) by (simp add: counted_def fdop_def)
  qed
  then show ?thesis using assms(1,4) life_inv_stirs [OF _ s] by (simp add: counted_def)
qed

lemma argfd_some: "argfd p n k = Inr (Some (fd, f)) \<Longrightarrow> fd < NOFILE \<and> ofile k p ! fd = Some f"
  by (auto simp: argfd_def bindE_Inr_iff Let_def split: if_splits option.splits)

text \<open>Two files closed in a row, as in the error paths of \<^verbatim>\<open>sys_pipe\<close> and \<^verbatim>\<open>pipealloc\<close>.\<close>

lemma close_two:
  assumes "locks_free k" "bindE (fileclose c i p f k) (\<lambda>k. bindE (fileclose c i p g k) (\<lambda>k. Inr (x, k))) = Inr (y, k')"
  shows "y = x \<and> fdop p k k' \<and> recounts k k' (\<lambda>h. - hit (Some f) h - hit (Some g) h)"
proof -
  obtain k1 where k1: "fileclose c i p f k = Inr k1" "fileclose c i p g k1 = Inr k'" "y = x" using assms(2) by (auto simp: bindE_Inr_iff)
  have o: "fdop p k k1" by (rule fdop_fileclose [OF assms(1) k1(1)])
  have "fdop p k1 k'" by (rule fdop_fileclose [OF fdop_locks [OF o assms(1)] k1(2)])
  then show ?thesis
    using k1(3) fdop_trans [OF o] recounts_trans [OF recounts_fileclose [OF k1(1)] recounts_fileclose [OF k1(2)]] by simp
qed

definition opened :: "(nat \<times> nat) option \<Rightarrow> nat \<Rightarrow> int" where
  "opened r h = (case r of None \<Rightarrow> 0 | Some (f, g) \<Rightarrow> hit (Some f) h + hit (Some g) h)"

lemma opened_simps [simp]: "opened None = (\<lambda>_. 0)" "opened (Some (f, g)) = (\<lambda>h. hit (Some f) h + hit (Some g) h)"
  by (auto simp: opened_def)

lemma pipealloc_counts:
  assumes "locks_free k" "pipealloc c i p k = Inr (r, k')"
  shows "fdop p k k' \<and> recounts k k' (opened r)"
proof -
  obtain x k1 where x: "filealloc k = (x, k1)" by fastforce
  note o1 = fdop_filealloc [OF x, of p]
  show ?thesis
  proof (cases x)
    case None
    then have "r = None" "k' = k" using assms(2) x filealloc_none [of k k1] by (simp_all add: pipealloc_def close_opt_def Let_def)
    then show ?thesis by simp
  next
    case (Some f)
    note c1 = recounts_filealloc [OF x [unfolded Some]]
    obtain y k2 where y: "filealloc k1 = (y, k2)" by fastforce
    note o2 = fdop_trans [OF o1 fdop_filealloc [OF y]]
    show ?thesis
    proof (cases y)
      case None
      then obtain k3 where k3: "fileclose c i p f k2 = Inr k3" "r = None" "k' = k3"
        using assms(2) x y Some by (auto simp: pipealloc_def close_opt_def Let_def bindE_Inr_iff)
      have "k2 = k1" using filealloc_none y None by blast
      then show ?thesis
        using fdop_trans [OF o2 fdop_fileclose [OF fdop_locks [OF o2 assms(1)] k3(1)]] recounts_trans [OF c1 recounts_fileclose [OF k3(1) [unfolded \<open>k2 = k1\<close>]]] k3 by simp
    next
      case (Some g)
      note c2 = recounts_trans [OF c1 recounts_filealloc [OF y [unfolded Some]]]
      obtain pi m where pi: "kalloc (k_mem k2) = (pi, m)" by fastforce
      let ?k3 = "k2\<lparr>k_mem := m\<rparr>"
      have o3: "fdop p k ?k3" by (rule fdop_trans [OF o2 fdop_fields]) simp_all
      have c3: "recounts k ?k3 (\<lambda>h. hit (Some f) h + hit (Some g) h)" using recounts_trans [OF c2 fkeeps_mem] by simp
      show ?thesis
      proof (cases "pi = 0")
        case True
        then have "bindE (fileclose c i p f ?k3) (\<lambda>k. bindE (fileclose c i p g k) (\<lambda>k. Inr (None, k))) = Inr (r, k')"
          using assms(2) x y pi \<open>x = Some f\<close> Some by (simp add: pipealloc_def close_opt_def Let_def)
        from close_two [OF fdop_locks [OF o3 assms(1)] this]
        have c: "r = None" "fdop p ?k3 k'" "recounts ?k3 k' (\<lambda>h. - hit (Some f) h - hit (Some g) h)" by simp_all
        show ?thesis using fdop_trans [OF o3 c(2)] recounts_trans [OF c3 c(3)] c(1) by simp
      next
        case False
        then have r: "r = Some (f, g)" "k' = upd_file g (pipe_file pi True) (upd_file f (pipe_file pi False) (upd_pipe pi (\<lambda>_. fresh_pipe m pi) ?k3))"
          using assms(2) x y pi \<open>x = Some f\<close> Some by (simp_all add: pipealloc_def Let_def)
        have e: "fdop p ?k3 k'" "fkeeps ?k3 k'"
          unfolding r(2) by (rule fdop_fields; simp add: upd_file_def upd_pipe_def) (simp add: recounts_def upd_file_def upd_pipe_def pipe_file_def)
        then show ?thesis using fdop_trans [OF o3 e(1)] recounts_trans [OF c3 e(2)] r(1) by simp
      qed
    qed
  qed
qed

section \<open>The system calls\<close>

lemma counted_fields: "counted k \<Longrightarrow> locks_free k \<and> tracks k (\<lambda>_. 0)"
  by (simp add: counted_def life_inv_def sched_inv_free)

lemma on_cpu_alive:
  assumes "counted k" "on_cpu k i = Some p"
  shows "p < NPROC" "alive (st_of k p)" "st_of k p \<noteq> UNUSED"
  using on_cpu_running [of k i p] assms by (simp_all add: counted_def life_inv_def alive_def)

lemma sys_dup_counted:
  assumes "counted k" "on_cpu k i = Some p" "sys_dup p k = Inr (r, k')"
  shows "counted k'"
proof -
  note p = on_cpu_alive [OF assms(1,2)]
  have t: "tracks k (\<lambda>_. 0)" using counted_fields [OF assms(1)] by simp
  obtain a where a: "argfd p 0 k = Inr a" using assms(3) by (auto simp: sys_dup_def bindE_Inr_iff)
  show ?thesis
  proof (cases "\<exists>fd f fd' k1. a = Some (fd, f) \<and> fdalloc p f k = (Some fd', k1)")
    case False
    then have "k' = k" using assms(3) a fdalloc_none by (auto simp: sys_dup_def split: option.splits prod.splits)
    then show ?thesis using assms(1) by simp
  next
    case True
    then obtain fd f fd' k1 where f: "a = Some (fd, f)" "fdalloc p f k = (Some fd', k1)" by blast
    then have d: "filedup f k1 = Inr k'" using assms(3) a by (auto simp: sys_dup_def bindE_Inr_iff)
    show ?thesis
    proof (rule counted_op [OF assms(1) p(2) fdop_trans [OF fdop_fdalloc [OF f(2)] fdop_filedup [OF d]]])
      show "tracks k' (\<lambda>_. 0)"
        by (rule tracks_eq [OF tracks_recounts [OF tracks_fdalloc(1) [OF t p(1) f(2)] recounts_filedup [OF d]]]) simp
    qed
  qed
qed

lemma sys_close_counted:
  assumes "counted k" "on_cpu k i = Some p" "sys_close c j p k = Inr (r, k')"
  shows "counted k'"
proof -
  note p = on_cpu_alive [OF assms(1,2)]
  have t: "tracks k (\<lambda>_. 0)" and lf: "locks_free k" using counted_fields [OF assms(1)] by simp_all
  obtain a where a: "argfd p 0 k = Inr a" using assms(3) by (auto simp: sys_close_def bindE_Inr_iff)
  show ?thesis
  proof (cases a)
    case None
    then show ?thesis using assms a by (simp add: sys_close_def)
  next
    case (Some x)
    then obtain fd f where f: "argfd p 0 k = Inr (Some (fd, f))" using a by (cases x) simp
    then have d: "fileclose c j p f (put_fd p fd None k) = Inr k'" using assms(3) by (auto simp: sys_close_def bindE_Inr_iff)
    note fd = argfd_some [OF f]
    have o: "fdop p k k'"
      by (rule fdop_trans [OF fdop_put_fd fdop_fileclose [OF fdop_locks [OF fdop_put_fd lf] d]])
    have "tracks (put_fd p fd None k) (\<lambda>h. hit (Some f) h)"
      using tracks_put_fd [OF t p(1), of fd None] fd by (simp add: hit_def)
    from tracks_recounts [OF this recounts_fileclose [OF d]] have "tracks k' (\<lambda>_. 0)" by simp
    then show ?thesis by (rule counted_op [OF assms(1) p(2) o])
  qed
qed

lemma tracks_mem: "tracks k d \<Longrightarrow> tracks (k\<lparr>k_mem := m\<rparr>) d"
  using tracks_recounts [OF _ fkeeps_mem, of k d] by simp

lemma fdop_mem: "fdop p k (k\<lparr>k_mem := m\<rparr>)"
  by (rule fdop_fields) simp_all

text \<open>Both descriptors of a new pipe are entered, or neither.\<close>

lemma pipe_entered:
  assumes "tracks k1 (\<lambda>h. hit (Some f) h + hit (Some g) h)" "p < NPROC" "fdalloc p f k1 = (Some fd0, k2)" "fdalloc p g k2 = (Some fd1, k3)"
  shows "tracks k3 (\<lambda>_. 0)" "tracks (put_fd p fd1 None (put_fd p fd0 None k3)) (\<lambda>h. hit (Some f) h + hit (Some g) h)"
proof -
  note t2 = tracks_fdalloc [OF assms(1-3)]
  have t2': "tracks k2 (\<lambda>h. hit (Some g) h)" by (rule tracks_eq [OF t2(1)]) simp
  note t3 = tracks_fdalloc [OF t2' assms(2,4)]
  show t: "tracks k3 (\<lambda>_. 0)" by (rule tracks_eq [OF t3(1)]) simp
  have fd1: "ofile k2 p ! fd1 = None" "k3 = put_fd p fd1 (Some g) k2"
    using assms(4) by (auto simp: fdalloc_def put_fd_def find_Some_iff split: option.splits)
  then have ne: "fd0 \<noteq> fd1" using t2(3) by auto
  then have "ofile k3 p ! fd0 = Some f" using fd1(2) t2(3) by (simp add: put_fd_def)
  with tracks_put_fd [OF t assms(2) t2(2), of None] have t4: "tracks (put_fd p fd0 None k3) (\<lambda>h. hit (Some f) h)" by (simp add: hit_def)
  have "ofile (put_fd p fd0 None k3) p ! fd1 = Some g" using t3(3) ne by (simp add: put_fd_def)
  with tracks_put_fd [OF t4 assms(2) t3(2), of None] show "tracks (put_fd p fd1 None (put_fd p fd0 None k3)) (\<lambda>h. hit (Some f) h + hit (Some g) h)"
    by (simp add: hit_def)
qed

text \<open>The rest of \<^verbatim>\<open>sys_pipe\<close> once the two files exist.\<close>

lemma pipe_fds:
  assumes "tracks k1 (\<lambda>h. hit (Some f) h + hit (Some g) h)" "p < NPROC" "locks_free k1"
    and cl: "close = (\<lambda>k. bindE (fileclose c j p f k) (\<lambda>k. bindE (fileclose c j p g k) (\<lambda>k. Inr (-1, k))))"
    and r: "(case fdalloc p f k1 of
            (None, k) \<Rightarrow> close k
          | (Some fd0, k) \<Rightarrow>
              (case fdalloc p g k of
                 (None, k) \<Rightarrow> close (put_fd p fd0 None k)
               | (Some fd1, k) \<Rightarrow>
                   (let undo = (\<lambda>k. close (put_fd p fd1 None (put_fd p fd0 None k))) in
                    case copyout (p_pagetable (k_proc k p)) a (bytes_le 4 fd0) (k_mem k) of (r, m) \<Rightarrow>
                      if r < 0 then undo (k\<lparr>k_mem := m\<rparr>)
                      else case copyout (p_pagetable (k_proc k p)) (a + 4) (bytes_le 4 fd1) m of (r, m) \<Rightarrow>
                        if r < 0 then undo (k\<lparr>k_mem := m\<rparr>) else Inr (0, k\<lparr>k_mem := m\<rparr>)))) = Inr (r, k')"
  shows "fdop p k1 k' \<and> tracks k' (\<lambda>_. 0)"
proof -
  have undone: "fdop p k1 k' \<and> tracks k' (\<lambda>_. 0)" if "fdop p k1 k2" "tracks k2 (\<lambda>h. hit (Some f) h + hit (Some g) h)" "close k2 = Inr (r, k')" for k2
  proof -
    from close_two [OF fdop_locks [OF that(1) assms(3)] that(3) [unfolded cl]]
    have c: "fdop p k2 k'" "recounts k2 k' (\<lambda>h. - hit (Some f) h - hit (Some g) h)" by simp_all
    from tracks_recounts [OF that(2) c(2)] have "tracks k' (\<lambda>_. 0)" by simp
    then show ?thesis using fdop_trans [OF that(1) c(1)] by simp
  qed
  obtain y k2 where y: "fdalloc p f k1 = (y, k2)" by fastforce
  note o2 = fdop_fdalloc [OF y]
  show ?thesis
  proof (cases y)
    case None
    then show ?thesis using undone [OF fdop_refl assms(1)] r y fdalloc_none [of p f k1 k2] by simp
  next
    case (Some fd0)
    note t2 = tracks_fdalloc [OF assms(1,2) y [unfolded Some]]
    obtain z k3 where z: "fdalloc p g k2 = (z, k3)" by fastforce
    show ?thesis
    proof (cases z)
      case None
      have "tracks (put_fd p fd0 None k2) (\<lambda>h. hit (Some f) h + hit (Some g) h)"
        by (rule tracks_eq [OF tracks_put_fd [OF t2(1) assms(2) t2(2), of None]]) (use t2(3) in \<open>simp add: hit_def\<close>)
      from undone [OF fdop_trans [OF o2 fdop_put_fd] this] show ?thesis
        using r y z None \<open>y = Some fd0\<close> fdalloc_none [of p g k2 k3] by simp
    next
      case (Some fd1)
      note e = pipe_entered [OF assms(1,2) y [unfolded \<open>y = Some fd0\<close>] z [unfolded Some]]
      note o3 = fdop_trans [OF o2 fdop_fdalloc [OF z]]
      have unwind: "fdop p k1 k' \<and> tracks k' (\<lambda>_. 0)" if "close (put_fd p fd1 None (put_fd p fd0 None (k3\<lparr>k_mem := m\<rparr>))) = Inr (r, k')" for m
      proof (rule undone [OF _ _ that])
        have "put_fd p fd1 None (put_fd p fd0 None (k3\<lparr>k_mem := m\<rparr>)) = (put_fd p fd1 None (put_fd p fd0 None k3))\<lparr>k_mem := m\<rparr>"
          by (simp add: put_fd_def upd_proc_def)
        then show "tracks (put_fd p fd1 None (put_fd p fd0 None (k3\<lparr>k_mem := m\<rparr>))) (\<lambda>h. hit (Some f) h + hit (Some g) h)"
          using tracks_mem [OF e(2)] by simp
        show "fdop p k1 (put_fd p fd1 None (put_fd p fd0 None (k3\<lparr>k_mem := m\<rparr>)))"
          by (rule fdop_trans [OF fdop_trans [OF fdop_trans [OF o3 fdop_mem] fdop_put_fd] fdop_put_fd])
      qed
      have fin: "fdop p k1 k' \<and> tracks k' (\<lambda>_. 0)" if "k' = k3\<lparr>k_mem := m\<rparr>" for m
        unfolding that using fdop_trans [OF o3 fdop_mem] tracks_mem [OF e(1)] by blast
      show ?thesis
        using r y z \<open>y = Some fd0\<close> Some unwind fin by (auto simp: Let_def split: prod.splits if_splits)
    qed
  qed
qed

lemma sys_pipe_counted:
  assumes "counted k" "on_cpu k i = Some p" "sys_pipe c j p k = Inr (r, k')"
  shows "counted k'"
proof -
  note p = on_cpu_alive [OF assms(1,2)]
  have t: "tracks k (\<lambda>_. 0)" and lf: "locks_free k" using counted_fields [OF assms(1)] by simp_all
  obtain a x k1 where a: "argaddr p 0 k = Inr a" and x: "pipealloc c j p k = Inr (x, k1)" using assms(3) by (auto simp: sys_pipe_def bindE_Inr_iff)
  from pipealloc_counts [OF lf x] have o1: "fdop p k k1" and t1: "tracks k1 (opened x)" using tracks_recounts [OF t] by auto
  have "fdop p k k' \<and> tracks k' (\<lambda>_. 0)"
  proof (cases x)
    case None
    then show ?thesis using assms(3) a x o1 t1 by (simp add: sys_pipe_def)
  next
    case (Some fg)
    then obtain f g where fg: "x = Some (f, g)" by (cases fg) simp
    from pipe_fds [OF _ p(1) fdop_locks [OF o1 lf] refl, of f g c j a r k'] have "fdop p k1 k' \<and> tracks k' (\<lambda>_. 0)"
      using t1 fg assms(3) a x by (simp add: sys_pipe_def Let_def)
    then show ?thesis using fdop_trans [OF o1] by blast
  qed
  then show ?thesis using counted_op [OF assms(1) p(2)] by blast
qed

lemma keeps_op:
  assumes "tracks k d" "fkeeps k k'" "stirs k k'"
  shows "fdop p k k' \<and> tracks k' d"
  using tracks_recounts [OF assms(1,2)] fdop_keeps [OF assms(3,2)] by simp

lemma op_trans: "fdop p k k1 \<Longrightarrow> fdop p k1 k' \<and> tracks k' d \<Longrightarrow> fdop p k k' \<and> tracks k' d"
  using fdop_trans by blast

lemma on_fs_op: "tracks k d \<Longrightarrow> on_fs g k = Inr k' \<Longrightarrow> fdop p k k' \<and> tracks k' d"
  by (rule keeps_op) (auto simp: fkeeps_on_fs on_fs_stirs)

text \<open>The part of \<^verbatim>\<open>sys_open\<close> between finding the inode and the end of the operation.\<close>

lemma open_fd:
  assumes "tracks k (\<lambda>_. 0)" "p < NPROC" "locks_free k"
    "(case filealloc k of
        (None, k) \<Rightarrow> bindE (on_fs (iunlockput p ip) k) (\<lambda>k. Inr (-1, k))
      | (Some f, k) \<Rightarrow>
          (case fdalloc p f k of
             (None, k) \<Rightarrow> bindE (fileclose c j p f k) (\<lambda>k. bindE (on_fs (iunlockput p ip) k) (\<lambda>k. Inr (-1, k)))
           | (Some fd, k) \<Rightarrow>
               let v = itable (k_fs k) ip; k = upd_file f (open_file ip v omode) k
               in bindE (if omode AND O_TRUNC \<noteq> 0 \<and> ityp v = T_FILE then on_fs (itrunc ip) k else Inr k) (\<lambda>k.
                  bindE (on_fs (iunlock p ip) k) (\<lambda>k. Inr (int fd, k))))) = Inr (r, k')"
  shows "fdop p k k' \<and> tracks k' (\<lambda>_. 0)"
proof -
  obtain x k1 where x: "filealloc k = (x, k1)" by fastforce
  note o1 = fdop_filealloc [OF x, of p]
  show ?thesis
  proof (cases x)
    case None
    then have "on_fs (iunlockput p ip) k = Inr k'" using assms(4) x filealloc_none [of k k1] by (auto simp: bindE_Inr_iff)
    then show ?thesis by (rule on_fs_op [OF assms(1)])
  next
    case (Some f)
    from tracks_recounts [OF assms(1) recounts_filealloc [OF x [unfolded Some]]] have t1: "tracks k1 (\<lambda>h. hit (Some f) h)" by simp
    obtain y k2 where y: "fdalloc p f k1 = (y, k2)" by fastforce
    note o2 = fdop_trans [OF o1 fdop_fdalloc [OF y]]
    show ?thesis
    proof (cases y)
      case None
      then obtain k3 where k3: "fileclose c j p f k1 = Inr k3" "on_fs (iunlockput p ip) k3 = Inr k'"
        using assms(4) x y Some fdalloc_none [of p f k1 k2] by (auto simp: bindE_Inr_iff)
      from tracks_recounts [OF t1 recounts_fileclose [OF k3(1)]] have "tracks k3 (\<lambda>_. 0)" by simp
      from on_fs_op [OF this k3(2), of p] show ?thesis
        by (rule op_trans [OF fdop_trans [OF o1 fdop_fileclose [OF fdop_locks [OF o1 assms(3)] k3(1)]]])
    next
      case (Some fd)
      have t2: "tracks k2 (\<lambda>_. 0)" using tracks_fdalloc(1) [OF t1 assms(2) y [unfolded Some]] by simp
      let ?v = "itable (k_fs k2) ip"
      let ?k3 = "upd_file f (open_file ip ?v omode) k2"
      have "fkeeps k2 ?k3" by (simp add: recounts_def upd_file_def open_file_def Let_def)
      moreover have "stirs k2 ?k3" by (rule stirs_fields) (simp_all add: upd_file_def)
      ultimately have e3: "fdop p k2 ?k3 \<and> tracks ?k3 (\<lambda>_. 0)" by (rule keeps_op [OF t2])
      obtain k4 where k4: "(if omode AND O_TRUNC \<noteq> 0 \<and> ityp ?v = T_FILE then on_fs (itrunc ip) ?k3 else Inr ?k3) = Inr k4" "on_fs (iunlock p ip) k4 = Inr k'"
        using assms(4) x y \<open>x = Some f\<close> Some by (auto simp: bindE_Inr_iff Let_def)
      have e4: "fdop p ?k3 k4 \<and> tracks k4 (\<lambda>_. 0)" using k4(1) e3 on_fs_op [of ?k3 _ _ k4 p] by (auto split: if_splits)
      have "fdop p k4 k' \<and> tracks k' (\<lambda>_. 0)" using on_fs_op [OF _ k4(2)] e4 by blast
      then show ?thesis using op_trans [OF o2] op_trans [of p k2] op_trans [of p ?k3] e3 e4 by blast
    qed
  qed
qed

lemma sys_open_counted:
  assumes "counted k" "on_cpu k i = Some p" "sys_open c j p k = Inr (r, k')"
  shows "counted k'"
proof -
  note p = on_cpu_alive [OF assms(1,2)]
  have t: "tracks k (\<lambda>_. 0)" and lf: "locks_free k" using counted_fields [OF assms(1)] by simp_all
  obtain omode path where args: "arg_int p 1 k = Inr omode" "argstr p 0 MAXPATH k = Inr path" using assms(3) by (auto simp: sys_open_def bindE_Inr_iff)
  show ?thesis
  proof (cases path)
    case None
    then show ?thesis using assms args by (simp add: sys_open_def)
  next
    case (Some pth)
    obtain cwd k1 x k2 where cwd: "cwd_of p k = Inr cwd" and b: "txn_begin k = Inr k1" and x: "fs_call (open_inode p cwd pth omode) k1 = Inr (x, k2)"
      using assms(3) args Some by (auto simp: sys_open_def with_txn_def bindE_Inr_iff)
    have s1: "fdop p k k1 \<and> tracks k1 (\<lambda>_. 0)" by (rule keeps_op [OF t fkeeps_txn_begin [OF b] txn_begin_stirs [OF b]])
    then have s2: "fdop p k k2 \<and> tracks k2 (\<lambda>_. 0)"
      using op_trans [OF _ keeps_op [OF _ fkeeps_fs_call [OF x] fs_call_stirs [OF x]]] by blast
    obtain k3 where k3: "fdop p k2 k3 \<and> tracks k3 (\<lambda>_. 0)" "k' = txn_end k3"
    proof (cases x)
      case None
      then show ?thesis using that [of k2] s2 assms(3) args Some cwd b x by (simp add: sys_open_def with_txn_def)
    next
      case (Some ip)
      then show ?thesis
        using that open_fd [of k2 p ip c j omode] s2 fdop_locks [of p k k2] lf p(1) assms(3) args \<open>path = Some pth\<close> cwd b x
        by (auto simp: sys_open_def with_txn_def bindE_Inr_iff)
    qed
    have "fdop p k3 k' \<and> tracks k' (\<lambda>_. 0)" unfolding k3(2) using k3(1) by (intro keeps_op fkeeps_txn_end txn_end_stirs) blast
    then have "fdop p k k' \<and> tracks k' (\<lambda>_. 0)" using op_trans [of p k k2] op_trans [of p k2 k3] s2 k3(1) by blast
    then show ?thesis using counted_op [OF assms(1) p(2)] by blast
  qed
qed

section \<open>Fork and exit\<close>

lemma fork_file_tracks:
  assumes "tracks k (\<lambda>_. 0)" "np < NPROC" "np \<noteq> p" "fd < NOFILE" "ofile k np ! fd = None" "fork_file p np fd k = Inr k'"
  shows "tracks k' (\<lambda>_. 0) \<and> (\<forall>q. q \<noteq> np \<longrightarrow> ofile k' q = ofile k q) \<and> (\<forall>e. e \<noteq> fd \<longrightarrow> ofile k' np ! e = ofile k np ! e)"
proof (cases "ofile k p ! fd")
  case None
  then show ?thesis using assms by (simp add: fork_file_def)
next
  case (Some f)
  then obtain k1 where k1: "filedup f k = Inr k1" "k' = put_fd np fd (Some f) k1"
    using assms(6) by (auto simp: fork_file_def put_fd_def bindE_Inr_iff)
  note r = recounts_filedup [OF k1(1)]
  have o: "ofile k1 q = ofile k q" for q using r by (simp add: recounts_def)
  have "tracks k' (\<lambda>_. 0)"
    unfolding k1(2) by (rule tracks_eq [OF tracks_put_fd [OF tracks_recounts [OF assms(1) r] assms(2,4)]]) (simp add: o assms(5) hit_def)
  then show ?thesis by (simp add: k1(2) put_fd_def upd_proc_def o)
qed

lemma fork_files_track:
  assumes "np < NPROC" "np \<noteq> p"
  shows "tracks k (\<lambda>_. 0) \<Longrightarrow> distinct fds \<Longrightarrow> (\<forall>fd\<in>set fds. fd < NOFILE \<and> ofile k np ! fd = None) \<Longrightarrow>
    forE fds (fork_file p np) k = Inr k' \<Longrightarrow> tracks k' (\<lambda>_. 0)"
proof (induction fds arbitrary: k)
  case (Cons fd fds)
  then obtain k1 where k1: "fork_file p np fd k = Inr k1" "forE fds (fork_file p np) k1 = Inr k'" by (auto simp: bindE_Inr_iff)
  have "fd < NOFILE" "ofile k np ! fd = None" "fd \<notin> set fds" using Cons.prems(2,3) by simp_all
  note f = fork_file_tracks [OF Cons.prems(1) assms this(1,2) k1(1)]
  have "\<forall>e\<in>set fds. e < NOFILE \<and> ofile k1 np ! e = None" using Cons.prems(3) f \<open>fd \<notin> set fds\<close> by auto
  with f Cons.prems(2) show ?case using Cons.IH [OF _ _ _ k1(2)] by simp
qed simp

lemma fork_child_tracks:
  assumes "tracks k (\<lambda>_. 0)" "np < NPROC" "np \<noteq> p" "ofile k np = replicate NOFILE None" "fork_child i p np k = Inr (r, k')"
  shows "tracks k' (\<lambda>_. 0)"
proof -
  let ?k1 = "tf_put np (tf_a 0) 0 (copy_trapframe p np (upd_proc np (\<lambda>v. v\<lparr>p_sz := p_sz (k_proc k p)\<rparr>) k))"
  have o: "ofile ?k1 q = ofile k q" for q by (simp add: tf_put_def copy_trapframe_def upd_proc_def)
  have "fkeeps k ?k1" by (rule fkeeps_fields [OF _ o]) (simp add: tf_put_def copy_trapframe_def upd_proc_def)
  from tracks_recounts [OF assms(1) this] have t1: "tracks ?k1 (\<lambda>_. 0)" by simp
  obtain k2 where k2: "forE [0..<NOFILE] (fork_file p np) ?k1 = Inr k2" using assms(5) by (auto simp: fork_child_def bindE_Inr_iff Let_def)
  have t2: "tracks k2 (\<lambda>_. 0)" by (rule fork_files_track [OF assms(2,3) t1 distinct_upt _ k2]) (simp add: o assms(4))
  obtain cwd where cwd: "p_cwd (k_proc k2 p) = Some cwd"
    using assms(5) k2 by (cases "p_cwd (k_proc k2 p)") (auto simp: fork_child_def Let_def)
  let ?k3 = "upd_proc np (\<lambda>v. v\<lparr>p_cwd := Some cwd, p_name := safestr (p_name v) (p_name (k_proc k2 p))\<rparr>) (k2\<lparr>k_fs := idup cwd (k_fs k2)\<rparr>)"
  have a: "fkeeps k2 ?k3" by (simp add: recounts_def upd_proc_def)
  obtain k4 k5 where k4: "release_p i np ?k3 = Inr k4" "acquire_p i np (upd_proc np (\<lambda>v. v\<lparr>p_parent := Some p\<rparr>) k4) = Inr k5"
    "release_p i np (upd_proc np (\<lambda>v. v\<lparr>p_state := RUNNABLE\<rparr>) k5) = Inr k'"
    using assms(5) k2 cwd by (auto simp: fork_child_def bindE_Inr_iff Let_def)
  have "fkeeps k4 k5" by (rule fkeeps_trans [OF fkeeps_upd fkeeps_acquire [OF k4(2)]]) simp
  moreover have "fkeeps k5 k'" by (rule fkeeps_trans [OF fkeeps_upd fkeeps_release [OF k4(3)]]) simp
  ultimately have "fkeeps k2 k'" using fkeeps_trans [OF a fkeeps_release [OF k4(1)]] fkeeps_trans by blast
  from tracks_recounts [OF t2 this] show ?thesis by simp
qed

lemma counted_keeps:
  assumes "counted k" "life_inv k'" "fkeeps k k'" "\<And>q. alive (st_of k q) \<Longrightarrow> alive (st_of k' q)"
  shows "counted k'"
  using assms tracks_recounts [of k "\<lambda>_. 0" k' "\<lambda>_. 0"] by (auto simp: counted_def recounts_def)

lemma fork_counted:
  assumes "counted k" "on_cpu k i = Some p" "fork c entry i k = Inr (r, k')"
  shows "counted k'"
proof -
  note p = on_cpu_alive [OF assms(1,2)]
  have t: "tracks k (\<lambda>_. 0)" and lf: "locks_free k" and l: "life_inv k" using counted_fields [OF assms(1)] assms(1) by (simp_all add: counted_def)
  have l': "life_inv k'" by (rule fork_life [OF l assms(2,3)])
  have al: "alive (st_of k' q)" if "alive (st_of k q)" for q
    using fork_spec [OF lf assms(2) p(3) assms(3)] that by (auto simp: reaped_def begets_def alive_def; metis)
  obtain x k2 where x: "allocproc c entry i k = Inr (x, k2)" using assms(2,3) by (auto simp: fork_def myproc_def bindE_Inr_iff)
  note f2 = fkeeps_allocproc [OF x]
  show ?thesis
  proof (cases x)
    case None
    then have "k' = k2" using x assms(2,3) by (simp add: fork_def myproc_def)
    then show ?thesis using counted_keeps [OF assms(1) l' _ al] f2 by simp
  next
    case (Some np)
    obtain e m where e: "uvmcopy c (p_pagetable (k_proc k2 p)) (p_pagetable (k_proc k2 np)) (p_sz (k_proc k2 p)) (k_mem k2) = Inr (e, m)"
      using assms(2,3) x Some by (auto simp: fork_def myproc_def bindE_Inr_iff)
    note f3 = fkeeps_trans [OF f2 fkeeps_mem [of k2 m]]
    show ?thesis
    proof (cases "e < 0")
      case True
      then have "fkeeps (k2\<lparr>k_mem := m\<rparr>) k'"
        using fkeeps_free_release [of c np "k2\<lparr>k_mem := m\<rparr>" i "-1" r k'] assms(2,3) x Some e by (simp add: fork_def myproc_def)
      then show ?thesis using counted_keeps [OF assms(1) l' _ al] fkeeps_trans [OF f3] by blast
    next
      case False
      then have ch: "fork_child i p np (k2\<lparr>k_mem := m\<rparr>) = Inr (r, k')" using assms(2,3) x Some e by (simp add: fork_def myproc_def)
      have a: "allocated i np k k2" using allocproc_spec [OF lf x] Some by simp
      then have np: "np < NPROC" "\<not> alive (st_of k np)" "p \<noteq> np" using p(3) by (auto simp: allocated_def alive_def)
      have emp: "ofile (k2\<lparr>k_mem := m\<rparr>) np = replicate NOFILE None" using f3 np(2) assms(1) by (simp add: recounts_def counted_def)
      have t2: "tracks (k2\<lparr>k_mem := m\<rparr>) (\<lambda>_. 0)" using tracks_recounts [OF t f3] by simp
      have "tracks k' (\<lambda>_. 0)" by (rule fork_child_tracks [OF t2 np(1) np(3) [symmetric] emp ch])
      moreover have b: "begets p np k k'" using fork_child_begets [OF lf a np(3) ch] by blast
      have "ofile k' q = replicate NOFILE None" if "\<not> alive (st_of k' q)" for q
      proof -
        have "q \<noteq> np" using b that by (auto simp: begets_def alive_def)
        then have "k_proc k' q = k_proc k q" using b by (simp add: begets_def)
        then show ?thesis using assms(1) that by (simp add: counted_def)
      qed
      ultimately show ?thesis using l' by (simp add: counted_def)
    qed
  qed
qed

text \<open>\<^verbatim>\<open>exit\<close> closes every descriptor before the process becomes a zombie.\<close>

lemma close_fd_tracks:
  assumes "tracks k (\<lambda>_. 0)" "locks_free k" "p < NPROC" "fd < NOFILE" "close_fd c i p fd k = Inr k'"
  shows "tracks k' (\<lambda>_. 0)" "fdop p k k'" "ofile k' p = (ofile k p)[fd := None]"
proof -
  have "tracks k' (\<lambda>_. 0) \<and> fdop p k k' \<and> ofile k' p = (ofile k p)[fd := None]"
  proof (cases "ofile k p ! fd")
    case None
    then have "(ofile k p)[fd := None] = ofile k p" by (metis list_update_id)
    then show ?thesis using assms None by (simp add: close_fd_def)
  next
    case (Some f)
    then obtain k1 where k1: "fileclose c i p f k = Inr k1" "k' = put_fd p fd None k1"
      using assms(5) by (auto simp: close_fd_def put_fd_def bindE_Inr_iff)
    note r = recounts_fileclose [OF k1(1)]
    have o: "ofile k1 p = ofile k p" using r by (simp add: recounts_def)
    have "tracks k' (\<lambda>_. 0)"
      unfolding k1(2) by (rule tracks_eq [OF tracks_put_fd [OF tracks_recounts [OF assms(1) r] assms(3,4)]]) (simp add: o Some hit_def)
    moreover have "fdop p k k'" unfolding k1(2) by (rule fdop_trans [OF fdop_fileclose [OF assms(2) k1(1)] fdop_put_fd])
    ultimately show ?thesis by (simp add: k1(2) o put_fd_def upd_proc_def)
  qed
  then show "tracks k' (\<lambda>_. 0)" "fdop p k k'" "ofile k' p = (ofile k p)[fd := None]" by simp_all
qed

lemma close_fds_track:
  assumes "p < NPROC"
  shows "tracks k (\<lambda>_. 0) \<Longrightarrow> locks_free k \<Longrightarrow> \<forall>fd\<in>set fds. fd < NOFILE \<Longrightarrow> forE fds (close_fd c i p) k = Inr k' \<Longrightarrow>
    tracks k' (\<lambda>_. 0) \<and> fdop p k k' \<and> (\<forall>fd. fd < NOFILE \<and> (fd \<in> set fds \<or> ofile k p ! fd = None) \<longrightarrow> ofile k' p ! fd = None)"
proof (induction fds arbitrary: k)
  case (Cons fd fds)
  then obtain k1 where k1: "close_fd c i p fd k = Inr k1" "forE fds (close_fd c i p) k1 = Inr k'" by (auto simp: bindE_Inr_iff)
  have fd: "fd < NOFILE" "\<forall>e\<in>set fds. e < NOFILE" using Cons.prems(3) by simp_all
  note c = close_fd_tracks [OF Cons.prems(1,2) assms fd(1) k1(1)]
  have len: "length (ofile k p) = NOFILE" using Cons.prems(1) by (simp add: tracks_def)
  note ih = Cons.IH [OF c(1) fdop_locks [OF c(2) Cons.prems(2)] fd(2) k1(2)]
  have "ofile k' p ! e = None" if "e < NOFILE" "e \<in> set (fd # fds) \<or> ofile k p ! e = None" for e
  proof -
    have "e \<in> set fds \<or> ofile k1 p ! e = None" using that len unfolding c(3) by (cases "e = fd") auto
    then show ?thesis using ih that(1) by blast
  qed
  then show ?case using ih fdop_trans [OF c(2)] by blast
qed simp

lemma exit_rest_keeps:
  assumes "bindE (reparent i p k) (\<lambda>k. bindE (wake_proc i (p_parent (k_proc k p)) k) (\<lambda>k. bindE (acquire_p i p k) (\<lambda>k.
    bindE (kpop_off i (upd_proc p (\<lambda>v. v\<lparr>p_xstate := status, p_state := ZOMBIE\<rparr>) k)) (sched i)))) = Inr k'"
  shows "fkeeps k k'"
proof -
  obtain k1 k2 k3 k4 where k: "reparent i p k = Inr k1" "wake_proc i (p_parent (k_proc k1 p)) k1 = Inr k2" "acquire_p i p k2 = Inr k3"
    "kpop_off i (upd_proc p (\<lambda>v. v\<lparr>p_xstate := status, p_state := ZOMBIE\<rparr>) k3) = Inr k4" "sched i k4 = Inr k'"
    using assms by (auto simp: bindE_Inr_iff)
  have "fkeeps k k3" by (rule fkeeps_trans [OF fkeeps_trans [OF fkeeps_reparent [OF k(1)] fkeeps_wake_proc [OF k(2)]] fkeeps_acquire [OF k(3)]])
  moreover have "fkeeps k3 k'" by (rule fkeeps_trans [OF fkeeps_trans [OF fkeeps_upd fkeeps_kpop [OF k(4)]] fkeeps_sched [OF k(5)]]) simp
  ultimately show ?thesis by (rule fkeeps_trans)
qed

lemma exit_tracks:
  assumes "tracks k (\<lambda>_. 0)" "locks_free k" "on_cpu k i = Some p" "p < NPROC" "exit c i status k = Inr k'"
  shows "tracks k' (\<lambda>_. 0) \<and> ofile k' p = replicate NOFILE None \<and> (\<forall>q. q \<noteq> p \<longrightarrow> ofile k' q = ofile k q)"
proof -
  obtain ka kb kc where files: "forE [0..<NOFILE] (close_fd c i p) k = Inr ka" and tb: "txn_begin ka = Inr kb"
    and ip: "(case p_cwd (k_proc kb p) of None \<Rightarrow> Inl (Undefined ''iput: null inode'') | Some cwd \<Rightarrow> on_fs (iput p cwd) kb) = Inr kc"
    and rest: "bindE (reparent i p (kpush_off i (upd_proc p (\<lambda>v. v\<lparr>p_cwd := None\<rparr>) (txn_end kc)))) (\<lambda>k.
       bindE (wake_proc i (p_parent (k_proc k p)) k) (\<lambda>k.
       bindE (acquire_p i p k) (\<lambda>k.
       bindE (kpop_off i (upd_proc p (\<lambda>v. v\<lparr>p_xstate := status, p_state := ZOMBIE\<rparr>) k)) (sched i)))) = Inr k'"
    using assms(3,5) by (auto simp: exit_def myproc_def bindE_Inr_iff Let_def split: if_splits)
  note f = close_fds_track [OF assms(4,1,2) _ files]
  have "fkeeps kb kc" using ip fkeeps_on_fs by (auto split: option.splits)
  moreover have "fkeeps (txn_end kc) (upd_proc p (\<lambda>v. v\<lparr>p_cwd := None\<rparr>) (txn_end kc))" by (rule fkeeps_upd) simp
  ultimately have a: "fkeeps ka k'"
    using fkeeps_trans [OF fkeeps_txn_begin [OF tb]] fkeeps_trans [OF fkeeps_txn_end] fkeeps_trans [OF fkeeps_kpush exit_rest_keeps [OF rest]] fkeeps_trans by meson
  have t: "tracks ka (\<lambda>_. 0)" and o: "fdop p k ka" and n: "ofile ka p ! fd = None" if "fd < NOFILE" for fd using f that by simp_all
  have NO: "0 < NOFILE" by (simp add: NOFILE_def)
  have "ofile ka p = replicate NOFILE None" using t [OF NO] n by (intro nth_equalityI) (simp_all add: tracks_def)
  then show ?thesis using a tracks_recounts [OF t [OF NO] a] o [OF NO] by (simp add: recounts_def fdop_def)
qed

lemma exit_counted:
  assumes "counted k" "on_cpu k i = Some p" "c_noff (k_cpu k i) = 0" "exit c i status k = Inr k'"
  shows "counted k'"
proof -
  note p = on_cpu_alive [OF assms(1,2)]
  have t: "tracks k (\<lambda>_. 0)" and lf: "locks_free k" and l: "life_inv k" using counted_fields [OF assms(1)] assms(1) by (simp_all add: counted_def)
  note e = exit_tracks [OF t lf assms(2) p(1) assms(4)]
  obtain ini k1 k2 k3 where x: "stirs k k1" "reparented i p ini {0..<NPROC} (kpush_off i k1) k2" "stirs k2 k3" "k' = buried i p status k3"
    by (rule exit_spec [OF l assms(2-4)])
  have al: "alive (st_of k' q) = alive (st_of k q)" if "q \<noteq> p" for q
    using stirred_state(1) [OF stirs_proc [OF x(1), of q]] stirred_state(1) [OF reparented_stirred [OF x(2), of q]] stirred_state(1) [OF stirs_proc [OF x(3), of q]] that
    by (simp add: x(4) buried_fields split: if_splits)
  have "ofile k' q = replicate NOFILE None" if "\<not> alive (st_of k' q)" for q
    using e al [of q] that assms(1) by (cases "q = p") (simp_all add: counted_def)
  then show ?thesis using exit_life(1) [OF l assms(2-4)] e by (simp add: counted_def)
qed

section \<open>Waiting and scheduling\<close>

lemma fkeeps_killed: "killed i p k = Inr (b, k') \<Longrightarrow> fkeeps k k'"
  using fkeeps_trans [OF fkeeps_acquire fkeeps_release] by (auto simp: killed_def bindE_Inr_iff Let_def)

lemma fkeeps_sleep: "sleep i ch k = Inr k' \<Longrightarrow> fkeeps k k'"
proof -
  assume "sleep i ch k = Inr k'"
  then obtain p k1 k2 where k: "acquire_p i p k = Inr k1" "kpop_off i k1 = Inr k2" "sched i (upd_proc p (\<lambda>v. v\<lparr>p_chan := Some ch, p_state := SLEEPING\<rparr>) k2) = Inr k'"
    by (auto simp: sleep_def bindE_Inr_iff)
  have "fkeeps k2 k'" by (rule fkeeps_trans [OF fkeeps_upd fkeeps_sched [OF k(3)]]) simp
  then show ?thesis by (rule fkeeps_trans [OF fkeeps_trans [OF fkeeps_acquire [OF k(1)] fkeeps_kpop [OF k(2)]]])
qed

lemma fkeeps_yield: "yield i k = Inr k' \<Longrightarrow> fkeeps k k'"
proof -
  assume "yield i k = Inr k'"
  then obtain p k1 where k: "acquire_p i p k = Inr k1" "sched i (upd_proc p (\<lambda>v. v\<lparr>p_state := RUNNABLE\<rparr>) k1) = Inr k'"
    by (auto simp: yield_def bindE_Inr_iff)
  have "fkeeps k1 k'" by (rule fkeeps_trans [OF fkeeps_upd fkeeps_sched [OF k(2)]]) simp
  then show ?thesis by (rule fkeeps_trans [OF fkeeps_acquire [OF k(1)]])
qed

lemma fkeeps_wait_reap:
  assumes "wait_reap c i p a z k = Inr (x, k')"
  shows "fkeeps k k'"
proof -
  obtain r m where rm: "(if a \<noteq> 0 then copyout (p_pagetable (k_proc k p)) a (bytes_le 4 (unat (p_xstate (k_proc k z)))) (k_mem k) else (0, k_mem k)) = (r, m)"
    by fastforce
  obtain k1 k2 where k: "k1 = k\<lparr>k_mem := m\<rparr> \<or> freeproc c z (k\<lparr>k_mem := m\<rparr>) = Inr k1" "release_p i z k1 = Inr k2" "kpop_off i k2 = Inr k'"
    using assms unfolding wait_reap_def Let_def rm by (auto simp: bindE_Inr_iff split: if_splits)
  have "fkeeps k k1" using k(1) fkeeps_mem fkeeps_trans [OF fkeeps_mem fkeeps_freeproc] by blast
  then show ?thesis by (rule fkeeps_trans [OF _ fkeeps_trans [OF fkeeps_release [OF k(2)] fkeeps_kpop [OF k(3)]]])
qed

lemma fkeeps_wait_scan: "wait_scan c i p a ps b k = Inr (x, k') \<Longrightarrow> fkeeps k k'"
proof (induction ps arbitrary: b k)
  case (Cons z ps)
  show ?case
  proof (cases "p_parent (k_proc k z) = Some p")
    case False
    then show ?thesis using Cons by simp
  next
    case True
    then obtain k1 where k1: "acquire_p i z k = Inr k1"
      "(if st_of k1 z = ZOMBIE then bindE (wait_reap c i p a z k1) (\<lambda>(x, k). Inr (Inl x, k)) else bindE (release_p i z k1) (wait_scan c i p a ps True)) = Inr (x, k')"
      using Cons.prems by (auto simp: bindE_Inr_iff)
    have "fkeeps k1 k'"
      using k1(2) fkeeps_wait_reap fkeeps_trans [OF fkeeps_release Cons.IH] by (auto simp: bindE_Inr_iff split: if_splits)
    then show ?thesis by (rule fkeeps_trans [OF fkeeps_acquire [OF k1(1)]])
  qed
qed simp

lemma fkeeps_wait_from:
  assumes "wait_from c i p a k = Inr (r, k')"
  shows "fkeeps k k'"
proof -
  obtain x k1 where x: "wait_scan c i p a [0..<NPROC] False k = Inr (x, k1)" using assms by (auto simp: wait_from_def bindE_Inr_iff)
  have "fkeeps k1 k'"
  proof (cases x)
    case (Inl y)
    then show ?thesis using assms x by (simp add: wait_from_def)
  next
    case (Inr kids)
    then obtain stop k2 where k2: "(if \<not> kids then Inr (True, k1) else killed i p k1) = Inr (stop, k2)"
      "kpop_off i k2 = Inr k' \<or> sleep i (Chan_proc p) k2 = Inr k'"
      using assms x by (auto simp: wait_from_def bindE_Inr_iff split: if_splits)
    have "fkeeps k1 k2" using k2(1) fkeeps_killed by (auto split: if_splits)
    then show ?thesis using k2(2) fkeeps_trans fkeeps_kpop fkeeps_sleep by blast
  qed
  then show ?thesis by (rule fkeeps_trans [OF fkeeps_wait_scan [OF x]])
qed

lemma wait_outcome_alive:
  assumes "wait_outcome p a k r k'" "alive (st_of k q)"
  shows "alive (st_of k' q)"
proof -
  have z: "\<not> alive (st_of k z)" if "zombies k p = z # zs" for z zs
  proof -
    have "z \<in> set (zombies k p)" unfolding that by simp
    then show ?thesis by (auto simp: alive_def)
  qed
  show ?thesis
  proof (cases "zombies k p")
    case Nil
    then show ?thesis using assms by (cases "q = p") (auto simp: wait_outcome_def sleeps_on_def alive_def split: if_splits)
  next
    case (Cons z zs)
    then have "q \<noteq> z" using z [OF Cons] assms(2) by blast
    then show ?thesis using assms Cons by (auto simp: wait_outcome_def reaped_def split: if_splits)
  qed
qed

lemma fkeeps_kill: "kill_scan i pid ps k = Inr (r, k') \<Longrightarrow> fkeeps k k'"
proof (induction ps arbitrary: k)
  case (Cons p ps)
  then obtain k1 where k1: "acquire_p i p k = Inr k1" by (auto simp: bindE_Inr_iff)
  have "fkeeps k1 k'"
  proof (cases "p_pid (k_proc k1 p) = pid")
    case True
    let ?k2 = "upd_proc p (\<lambda>v. v\<lparr>p_killed := True\<rparr>) k1"
    let ?k3 = "if st_of ?k2 p = SLEEPING then upd_proc p (\<lambda>v. v\<lparr>p_state := RUNNABLE\<rparr>) ?k2 else ?k2"
    have "release_p i p ?k3 = Inr k'" using Cons.prems k1 True by (auto simp: bindE_Inr_iff Let_def)
    moreover have "fkeeps k1 ?k3" by (simp add: recounts_def upd_proc_def)
    ultimately show ?thesis using fkeeps_trans fkeeps_release by blast
  next
    case False
    then show ?thesis using Cons.prems k1 fkeeps_trans [OF fkeeps_release Cons.IH] by (auto simp: bindE_Inr_iff)
  qed
  then show ?case by (rule fkeeps_trans [OF fkeeps_acquire [OF k1]])
qed simp

lemma counted_stirs: "counted k \<Longrightarrow> stirs k k' \<Longrightarrow> fkeeps k k' \<Longrightarrow> counted k'"
  using counted_keeps [of k k'] life_inv_stirs [of k k'] stirred_state(1) [OF stirs_proc, of k k'] by (simp add: counted_def)

section \<open>All steps\<close>

text \<open>
  The steps of the system as far as open files are concerned: the calls that make or remove descriptors, waiting, the scheduler, and any other work that changes neither
  descriptors nor counts and at most wakes processes.
\<close>

inductive fd_step :: "machine \<Rightarrow> u64 \<Rightarrow> kern \<Rightarrow> kern \<Rightarrow> bool" for c entry where
  opens: "on_cpu k i = Some p \<Longrightarrow> sys_open c i p k = Inr (r, k') \<Longrightarrow> fd_step c entry k k'"
| dups: "on_cpu k i = Some p \<Longrightarrow> sys_dup p k = Inr (r, k') \<Longrightarrow> fd_step c entry k k'"
| closes: "on_cpu k i = Some p \<Longrightarrow> sys_close c i p k = Inr (r, k') \<Longrightarrow> fd_step c entry k k'"
| pipes: "on_cpu k i = Some p \<Longrightarrow> sys_pipe c i p k = Inr (r, k') \<Longrightarrow> fd_step c entry k k'"
| forks: "on_cpu k i = Some p \<Longrightarrow> fork c entry i k = Inr (r, k') \<Longrightarrow> fd_step c entry k k'"
| exits: "on_cpu k i = Some p \<Longrightarrow> c_noff (k_cpu k i) = 0 \<Longrightarrow> exit c i status k = Inr k' \<Longrightarrow> fd_step c entry k k'"
| waits: "on_cpu k i = Some p \<Longrightarrow> c_noff (k_cpu k i) = 0 \<Longrightarrow> wait c i a k = Inr (x, k') \<Longrightarrow> fd_step c entry k k'"
| rewaits: "on_cpu k i = Some p \<Longrightarrow> c_noff (k_cpu k i) = 1 \<Longrightarrow> wait_from c i p a k = Inr (x, k') \<Longrightarrow> fd_step c entry k k'"
| run: "on_cpu k i = None \<Longrightarrow> c_noff (k_cpu k i) = 0 \<Longrightarrow> dispatch i n k = Inr k' \<Longrightarrow> fd_step c entry k k'"
| preempt: "on_cpu k i = Some p \<Longrightarrow> c_noff (k_cpu k i) = 0 \<Longrightarrow> yield i k = Inr k' \<Longrightarrow> fd_step c entry k k'"
| elsewhere: "on_cpu k i = Some p \<Longrightarrow> c_noff (k_cpu k i) = 1 \<Longrightarrow> \<forall>q. ch \<noteq> Chan_proc q \<Longrightarrow> sleep i ch k = Inr k' \<Longrightarrow> fd_step c entry k k'"
| spin: "fd_step c entry k (kpush_off i k)"
| unspin: "0 < c_noff (k_cpu k i) \<Longrightarrow> kpop_off i k = Inr k' \<Longrightarrow> fd_step c entry k k'"
| waken: "wakeup i ch k = Inr k' \<Longrightarrow> fd_step c entry k k'"
| kills: "kill i pid k = Inr (r, k') \<Longrightarrow> fd_step c entry k k'"
| works: "stirs k k' \<Longrightarrow> fkeeps k k' \<Longrightarrow> fd_step c entry k k'"

inductive fd_reach :: "machine \<Rightarrow> u64 \<Rightarrow> kern \<Rightarrow> kern \<Rightarrow> bool" for c entry k0 where
  start: "fd_reach c entry k0 k0"
| step: "fd_reach c entry k0 k \<Longrightarrow> fd_step c entry k k' \<Longrightarrow> fd_reach c entry k0 k'"

lemma switched_alive:
  assumes "counted k" "on_cpu k i = Some p" "k' = leave_cpu i p b f k" "alive (p_state (f (k_proc k p)))" "alive (st_of k q)"
  shows "alive (st_of k' q)"
  using assms(4,5) unfolding assms(3) by (simp add: leave_cpu_def upd_cpu_def upd_proc_def)

lemma counted_step: "fd_step c entry k k' \<Longrightarrow> counted k \<Longrightarrow> counted k'"
proof (induction rule: fd_step.induct)
  case (waits k i p a x k')
  then have "life_inv k' \<and> wait_outcome p a k x k'" using wait_spec by (auto simp: counted_def)
  moreover have "fkeeps k k'"
    using waits(1,3) fkeeps_trans [OF fkeeps_kpush fkeeps_wait_from] by (auto simp: wait_def myproc_def)
  ultimately show ?case using counted_keeps [OF waits(4)] wait_outcome_alive by blast
next
  case (rewaits k i p a x k')
  then have "life_inv k' \<and> wait_outcome p a k x k'" using wait_from_spec by (auto simp: counted_def)
  then show ?case using counted_keeps [OF rewaits(4)] wait_outcome_alive fkeeps_wait_from [OF rewaits(3)] by blast
next
  case (run k i n k')
  have lf: "locks_free k" and l: "life_inv k" using counted_fields [OF run(4)] run(4) by (simp_all add: counted_def)
  note e = dispatch_states [OF lf run(2,3)]
  show ?case by (rule counted_keeps [OF run(4) dispatch_life [OF l run(1-3)] fkeeps_fields [OF e(7,8)]]) (simp add: e(1))
next
  case (preempt k i p k')
  have lf: "locks_free k" and l: "life_inv k" using counted_fields [OF preempt(4)] preempt(4) by (simp_all add: counted_def)
  have "life_inv k'" by (rule life_inv_step [OF life_step.preempt [OF preempt(1-3)] l])
  then show ?case
    using yield_spec [OF lf preempt(1,2)] preempt(3) switched_alive [OF preempt(4,1)]
    by (intro counted_keeps [OF preempt(4) _ fkeeps_yield [OF preempt(3)]]) (auto simp: alive_def)
next
  case (elsewhere k i p ch k')
  have lf: "locks_free k" and l: "life_inv k" using counted_fields [OF elsewhere(5)] elsewhere(5) by (simp_all add: counted_def)
  have "life_inv k'" by (rule life_inv_step [OF life_step.elsewhere [OF elsewhere(1-4)] l])
  then show ?case
    using sleep_spec [OF lf elsewhere(1,2), of ch] elsewhere(4) switched_alive [OF elsewhere(5,1)]
    by (intro counted_keeps [OF elsewhere(5) _ fkeeps_sleep [OF elsewhere(4)]]) (auto simp: alive_def)
next
  case (spin k i)
  then show ?case by (intro counted_keeps [OF spin] life_inv_push fkeeps_kpush) (simp_all add: counted_def)
next
  case (unspin k i k')
  have "life_inv k'" using life_inv_step [OF life_step.unspin [OF unspin(1,2)]] unspin(3) by (simp add: counted_def)
  moreover have "k_proc k' = k_proc k" using unspin(2) by (auto simp: kpop_off_def Let_def upd_cpu_def split: if_splits)
  ultimately show ?case using counted_keeps [OF unspin(3) _ fkeeps_kpop [OF unspin(2)]] by simp
next
  case (waken i ch k k')
  then show ?case using counted_stirs stirs_wakeup fkeeps_wakeup counted_fields by blast
next
  case (kills i pid k r k')
  have "stirs k k'" using kill_stirs [OF _ kills(1)] counted_fields [OF kills(2)] kill_scan_init [of i pid] kills(1) by (simp add: stirs_def same_cpus_def kill_def)
  then show ?case using counted_stirs [OF kills(2)] fkeeps_kill kills(1) by (simp add: kill_def)
next
  case (works k k')
  then show ?case using counted_stirs by blast
qed (blast intro: sys_open_counted sys_dup_counted sys_close_counted sys_pipe_counted fork_counted exit_counted)+

lemma counted_reach: "fd_reach c entry k0 k \<Longrightarrow> counted k0 \<Longrightarrow> counted k"
  by (induction rule: fd_reach.induct) (auto intro: counted_step)

text \<open>The first process is where the counting starts.\<close>

lemma fkeeps_userinit:
  assumes "userinit c entry i k = Inr k'"
  shows "fkeeps k k'"
proof -
  obtain p k1 where x: "allocproc c entry i k = Inr (Some p, k1)" using assms by (auto simp: userinit_def bindE_Inr_iff Let_def split: option.splits)
  let ?k1 = "k1\<lparr>k_initproc := Some p\<rparr>"
  obtain m where m: "uvmfirst (p_pagetable (k_proc ?k1 p)) initcode (k_mem ?k1) = Inr m" using assms x by (auto simp: userinit_def bindE_Inr_iff Let_def)
  let ?k2 = "upd_proc p (\<lambda>v. v\<lparr>p_name := safestr (p_name v) (ascii ''initcode'')\<rparr>)
    (tf_put p tf_sp (word_of_nat PGSIZE) (tf_put p tf_epc 0 (upd_proc p (\<lambda>v. v\<lparr>p_sz := word_of_nat PGSIZE\<rparr>) (?k1\<lparr>k_mem := m\<rparr>))))"
  obtain ip k3 where k3: "fs_call (namei p 0 [slash]) ?k2 = Inr (ip, k3)" "release_p i p (upd_proc p (\<lambda>v. v\<lparr>p_cwd := ip, p_state := RUNNABLE\<rparr>) k3) = Inr k'"
    using assms x m by (auto simp: userinit_def bindE_Inr_iff Let_def)
  have "fkeeps k1 ?k2" by (rule fkeeps_fields) (simp_all add: tf_put_def upd_proc_def)
  moreover have "fkeeps k3 k'" by (rule fkeeps_trans [OF fkeeps_upd fkeeps_release [OF k3(2)]]) simp
  ultimately show ?thesis using fkeeps_trans [OF fkeeps_allocproc [OF x]] fkeeps_trans [OF fkeeps_fs_call [OF k3(1)]] fkeeps_trans by blast
qed

lemma userinit_counted:
  assumes "sched_inv k" "\<And>q. st_of k q = UNUSED" "\<And>q. par_of k q = None" "\<And>q. ofile k q = replicate NOFILE None" "\<And>f. f_ref (k_file k f) = 0"
    "userinit c entry i k = Inr k'"
  shows "counted k'"
proof -
  note f = fkeeps_userinit [OF assms(6)]
  have "tracks k (\<lambda>_. 0)" using assms(4,5) by (simp add: tracks_def refs_def count_list_eq_length_filter)
  from tracks_recounts [OF this f] have "tracks k' (\<lambda>_. 0)" by simp
  then show ?thesis using userinit_life [OF assms(1-3,6)] f assms(4) by (simp add: counted_def recounts_def)
qed

section \<open>Properties\<close>

text \<open>C4: Reference counts of open files are exact. Whatever processes open, duplicate, close, pipe, fork, exit, wait and are scheduled in any order on all CPUs: the count
  of every entry of the file table is the number of descriptors of all processes that name it, and processes that have exited hold no descriptors. So \<^verbatim>\<open>filealloc\<close>
  never hands out an entry that a descriptor names, \<^verbatim>\<open>filedup\<close> of the file of a descriptor never panics, and closing one of several descriptors of a file only
  lowers the count.\<close>

theorem file_counts_are_exact:
  assumes "counted k0" "fd_reach c entry k0 k"
  shows "f_ref (k_file k f) = (\<Sum>p<NPROC. int (count_list (p_ofile (k_proc k p)) (Some f))) \<and>
    (st_of k q = ZOMBIE \<longrightarrow> p_ofile (k_proc k q) = replicate NOFILE None) \<and>
    (q < NPROC \<and> fd < NOFILE \<and> p_ofile (k_proc k q) ! fd = Some f \<longrightarrow>
      (\<forall>k1. filealloc k \<noteq> (Some f, k1)) \<and> filedup f k = Inr (upd_file f (\<lambda>v. v\<lparr>f_ref := f_ref v + 1\<rparr>) k) \<and>
      (f_ref (k_file k f) \<noteq> 1 \<longrightarrow> fileclose c i q f k = Inr (upd_file f (\<lambda>v. v\<lparr>f_ref := f_ref v - 1\<rparr>) k)))"
proof -
  have c: "counted k" by (rule counted_reach [OF assms(2,1)])
  have t: "tracks k (\<lambda>_. 0)" using c by (simp add: counted_def)
  have r: "f_ref (k_file k f) = refs k f" using t by (simp add: tracks_def)
  have pos: "0 < f_ref (k_file k f)" if "q < NPROC" "fd < NOFILE" "ofile k q ! fd = Some f"
    using refs_pos [of q fd k f] that t r by (simp add: tracks_def)
  have na: "filealloc k \<noteq> (Some f, k1)" if "0 < f_ref (k_file k f)" for k1
    using that by (auto simp: filealloc_def find_Some_iff split: option.splits)
  have cl: "fileclose c i q f k = Inr (upd_file f (\<lambda>v. v\<lparr>f_ref := f_ref v - 1\<rparr>) k)" if "0 < f_ref (k_file k f)" "f_ref (k_file k f) \<noteq> 1"
    using that by (simp add: fileclose_def Let_def upd_file_def)
  have "st_of k q = ZOMBIE \<longrightarrow> ofile k q = replicate NOFILE None" using c by (simp add: counted_def alive_def)
  moreover have "filedup f k = Inr (upd_file f (\<lambda>v. v\<lparr>f_ref := f_ref v + 1\<rparr>) k)" if "0 < f_ref (k_file k f)" using that by (simp add: filedup_def)
  ultimately show ?thesis using r [unfolded refs_def] pos na cl by blast
qed

text \<open>A process on CPU 0 whose descriptor 0 is file 3.\<close>

definition one_open :: kern where
  "one_open = blank_kern\<lparr>k_proc := (\<lambda>_. zero_proc)(0 := zero_proc\<lparr>p_state := RUNNING, p_pid := 1, p_ofile := Some 3 # replicate 15 None\<rparr>),
     k_cpu := (k_cpu blank_kern)(0 := \<lparr>c_proc = Some 0, c_noff = 0, c_intena = False, c_intr = True\<rparr>), k_initproc := Some 0,
     k_file := (\<lambda>_. zero_file)(3 := zero_file\<lparr>f_type := FD_DEVICE, f_ref := 1\<rparr>)\<rparr>"

lemma one_open_fields [simp]:
  "st_of one_open q = (if q = 0 then RUNNING else UNUSED)" "par_of one_open q = None"
  "p_lock (k_proc one_open q) = None" "p_chan (k_proc one_open q) = None" "k_initproc one_open = Some 0"
  "on_cpu one_open i = (if i = 0 then Some 0 else None)" "c_noff (k_cpu one_open i) = 0"
  "ofile one_open q = (if q = 0 then Some 3 # replicate 15 None else replicate NOFILE None)"
  "f_ref (k_file one_open f) = (if f = 3 then 1 else 0)"
  by (simp_all add: one_open_def zero_proc_def zero_file_def)

lemma one_open_counted: "counted one_open"
proof -
  have "locks_free one_open" by (simp add: locks_free_def cpu_ok_def)
  moreover have "running_ok (on_cpu one_open) (st_of one_open)" by (simp add: running_ok_def NPROC_def)
  moreover have "family_ok (st_of one_open) (par_of one_open) (k_initproc one_open)" by (simp add: family_ok_def alive_def NPROC_def)
  ultimately have l: "life_inv one_open" by (simp add: life_inv_def sched_inv_def sleepers_ok_def waits_ok_def sleeps_on_def)
  have "count_list (ofile one_open p) (Some f) = (if p = 0 then if f = 3 then 1 else 0 else 0)" for p f by (simp add: count_list_eq_length_filter)
  then have "refs one_open f = (if f = 3 then 1 else 0)" for f
    unfolding refs_def by (simp add: NPROC_def sum.delta if_distrib cong: if_cong)
  then have "tracks one_open (\<lambda>_. 0)" by (simp add: tracks_def NOFILE_def)
  then show ?thesis using l by (simp add: counted_def alive_def)
qed

theorem file_counts_are_exact_witness:
  "\<exists>k. fd_reach small_machine 0 one_open k \<and> sys_dup 0 one_open = Inr (1, k) \<and> f_ref (k_file k 3) = 2 \<and>
    f_ref (k_file k 3) = (\<Sum>p<NPROC. int (count_list (p_ofile (k_proc k p)) (Some 3))) \<and> (\<forall>k1. filealloc k \<noteq> (Some 3, k1))"
proof -
  let ?k = "upd_file 3 (\<lambda>v. v\<lparr>f_ref := f_ref v + 1\<rparr>) (put_fd 0 1 (Some 3) one_open)"
  have n: "replicate 15 (None :: nat option) = None # replicate 14 None" by (simp add: replicate_Suc [symmetric] del: replicate_Suc)
  have "tf_get 0 (tf_a 0) one_open = 0" by (simp add: tf_get_def one_open_def zero_proc_def load64_def load_bytes_def upt_rec)
  then have a: "argfd 0 0 one_open = Inr (Some (0, 3))"
    by (simp add: argfd_def arg_int_def argraw_def argint_def NOFILE_def)
  have "[0..<NOFILE] = 0 # 1 # [2..<NOFILE]" by (simp add: NOFILE_def upt_conv_Cons)
  then have "fdalloc 0 3 one_open = (Some 1, put_fd 0 1 (Some 3) one_open)" by (simp add: fdalloc_def put_fd_def n)
  moreover have "f_ref (k_file (put_fd 0 1 (Some 3) one_open) 3) = 1" by (simp add: put_fd_def upd_proc_def)
  ultimately have d: "sys_dup 0 one_open = Inr (1, ?k)" using a by (simp add: sys_dup_def filedup_def)
  have "fd_step small_machine 0 one_open ?k" by (rule fd_step.dups [OF _ d, of 0]) simp
  then have r: "fd_reach small_machine 0 one_open ?k" using fd_reach.start fd_reach.step by blast
  have k: "ofile ?k 0 ! 0 = Some 3" "f_ref (k_file ?k 3) = 2" by (simp_all add: put_fd_def upd_file_def upd_proc_def)
  note e = file_counts_are_exact [OF one_open_counted r, of 3 0 0 0]
  have "0 < NPROC" "0 < NOFILE" by (simp_all add: NPROC_def NOFILE_def)
  then have "\<forall>k1. filealloc ?k \<noteq> (Some 3, k1)" using e k(1) by blast
  then show ?thesis using conjunct1 [OF e] k(2) r d by blast
qed

end
