(* ===== verification/Exec.thy ===== *)
theory Exec
  imports Sysfile
begin

text \<open>
  Program loading: \<^verbatim>\<open>kernel/exec.c\<close>, \<^verbatim>\<open>kernel/elf.h\<close> and \<^verbatim>\<open>sys_exec\<close>. The headers are read into local variables, byte lists here; segments are read straight into the new
  address space. An argument vector is the list of its strings.
\<close>

section \<open>ELF headers\<close>

definition ELF_MAGIC :: nat where "ELF_MAGIC = 0x464C457F"
definition ELF_PROG_LOAD :: nat where "ELF_PROG_LOAD = 1"

definition field :: "byte list \<Rightarrow> nat \<Rightarrow> nat \<Rightarrow> nat" where
  "field bs off len = le_nat (take len (drop off bs))"

record elfhdr =
  elf_magic :: nat
  elf_entry :: u64
  elf_phoff :: u64
  elf_phnum :: nat

definition ELFHDR_SIZE :: nat where "ELFHDR_SIZE = 64"

definition elfhdr_of :: "byte list \<Rightarrow> elfhdr" where
  "elfhdr_of bs = \<lparr>elf_magic = field bs 0 4, elf_entry = word_of_nat (field bs 24 8), elf_phoff = word_of_nat (field bs 32 8), elf_phnum = field bs 56 2\<rparr>"

record proghdr =
  ph_type :: nat
  ph_flags :: u32
  ph_off :: u64
  ph_vaddr :: u64
  ph_filesz :: u64
  ph_memsz :: u64

definition PROGHDR_SIZE :: nat where "PROGHDR_SIZE = 56"

definition proghdr_of :: "byte list \<Rightarrow> proghdr" where
  "proghdr_of bs = \<lparr>ph_type = field bs 0 4, ph_flags = word_of_nat (field bs 4 4), ph_off = word_of_nat (field bs 8 8), ph_vaddr = word_of_nat (field bs 16 8),
     ph_filesz = word_of_nat (field bs 32 8), ph_memsz = word_of_nat (field bs 40 8)\<rparr>"

definition flags2perm :: "u32 \<Rightarrow> u64" where
  "flags2perm flags = (if flags AND 1 \<noteq> 0 then PTE_X else 0) OR (if flags AND 2 \<noteq> 0 then PTE_W else 0)"

section \<open>Segments\<close>

text \<open>
  The loop of \<^verbatim>\<open>loadseg\<close> counts with a 32-bit \<open>i\<close> in steps of a page. For a size above \<open>2 ^ 32 - PGSIZE\<close> the counter would wrap to 0 and the loop would read the same
  pages again for ever.
\<close>

function loadseg_loop :: "nat \<Rightarrow> u64 \<Rightarrow> nat \<Rightarrow> u32 \<Rightarrow> nat \<Rightarrow> nat \<Rightarrow> kmem \<Rightarrow> fs \<Rightarrow> fault + int \<times> kmem \<times> fs" where
  "loadseg_loop pt va ip offset sz i m s =
     (if i \<ge> 2 ^ 32 then Inl (Sleeps ''loadseg runs for ever'')
      else if i < sz then
          let pa = walkaddr pt (va + word_of_nat i) m in
          if pa = 0 then Inl (Panic ''loadseg: address should exist'')
          else
            let n = (if sz - i < PGSIZE then sz - i else PGSIZE) in
            bindE (readi (fs_out pt False) ip (unat pa) (offset + word_of_nat i) (word_of_nat n) m s) (\<lambda>(r, m, s).
            if r \<noteq> int n then Inr (-1, m, s)
            else loadseg_loop pt va ip offset sz (i + PGSIZE) m s)
      else Inr (0, m, s))"
  by pat_completeness auto
termination
  by (relation "measure (\<lambda>(pt, va, ip, offset, sz, i, m, s). sz - i)") (auto simp: PGSIZE_def)

declare loadseg_loop.simps [simp del]

definition loadseg :: "nat \<Rightarrow> u64 \<Rightarrow> nat \<Rightarrow> u32 \<Rightarrow> u32 \<Rightarrow> kmem \<Rightarrow> fs \<Rightarrow> fault + int \<times> kmem \<times> fs" where
  "loadseg pt va ip offset sz m s = loadseg_loop pt va ip offset (unat sz) 0 m s"

text \<open>One program header: the new size, and whether loading may go on.\<close>

definition load_segment :: "machine \<Rightarrow> nat \<Rightarrow> nat \<Rightarrow> proghdr \<Rightarrow> u64 \<Rightarrow> kmem \<Rightarrow> fs \<Rightarrow> fault + bool \<times> u64 \<times> kmem \<times> fs" where
  "load_segment c pt ip ph sz m s =
     (if ph_type ph \<noteq> ELF_PROG_LOAD then Inr (True, sz, m, s)
      else if ph_memsz ph < ph_filesz ph then Inr (False, sz, m, s)
      else if ph_vaddr ph + ph_memsz ph < ph_vaddr ph then Inr (False, sz, m, s)
      else if unat (ph_vaddr ph) mod PGSIZE \<noteq> 0 then Inr (False, sz, m, s)
      else
        bindE (uvmalloc c pt sz (ph_vaddr ph + ph_memsz ph) (flags2perm (ph_flags ph)) m) (\<lambda>(sz1, m).
        if sz1 = 0 then Inr (False, sz, m, s)
        else
          bindE (loadseg pt (ph_vaddr ph) ip (ucast (ph_off ph)) (ucast (ph_filesz ph)) m s) (\<lambda>(r, m, s).
          Inr (\<not> r < 0, sz1, m, s))))"

primrec load_segments :: "nat \<Rightarrow> machine \<Rightarrow> nat \<Rightarrow> nat \<Rightarrow> u32 \<Rightarrow> u64 \<Rightarrow> kmem \<Rightarrow> fs \<Rightarrow> fault + bool \<times> u64 \<times> kmem \<times> fs" where
  "load_segments 0 c pt ip off sz m s = Inr (True, sz, m, s)"
| "load_segments (Suc n) c pt ip off sz m s =
     bindE (readi kout ip 0 off (word_of_nat PROGHDR_SIZE) [] s) (\<lambda>(r, bs, s).
     if r \<noteq> int PROGHDR_SIZE then Inr (False, sz, m, s)
     else
       bindE (load_segment c pt ip (proghdr_of bs) sz m s) (\<lambda>(ok, sz, m, s).
       if \<not> ok then Inr (False, sz, m, s)
       else load_segments n c pt ip (off + word_of_nat PROGHDR_SIZE) sz m s))"

section \<open>The user stack\<close>

definition align16 :: "u64 \<Rightarrow> u64" where
  "align16 sp = sp - sp mod 16"

fun push_args :: "nat \<Rightarrow> u64 \<Rightarrow> byte list list \<Rightarrow> nat \<Rightarrow> u64 \<Rightarrow> u64 list \<Rightarrow> kmem \<Rightarrow> (u64 \<times> u64 list) option \<times> kmem" where
  "push_args pt stackbase [] argc sp ustack m = (Some (sp, ustack), m)"
| "push_args pt stackbase (a # argv) argc sp ustack m =
     (if argc \<ge> MAXARG then (None, m)
      else
        let sp = align16 (sp - word_of_nat (length a + 1)) in
        if sp < stackbase then (None, m)
        else case copyout pt sp (a @ [0]) m of (r, m) \<Rightarrow>
          if r < 0 then (None, m) else push_args pt stackbase argv (argc + 1) sp (ustack @ [sp]) m)"

definition push_stack :: "nat \<Rightarrow> u64 \<Rightarrow> byte list list \<Rightarrow> u64 \<Rightarrow> kmem \<Rightarrow> u64 option \<times> kmem" where
  "push_stack pt stackbase argv sp m =
     (case push_args pt stackbase argv 0 sp [] m of
        (None, m) \<Rightarrow> (None, m)
      | (Some (sp, ustack), m) \<Rightarrow>
          let sp = align16 (sp - word_of_nat ((length argv + 1) * 8)) in
          if sp < stackbase then (None, m)
          else case copyout pt sp (concat (map (\<lambda>w. bytes_le 8 (unat w)) (ustack @ [0]))) m of (r, m) \<Rightarrow>
            if r < 0 then (None, m) else (Some sp, m))"

text \<open>The part of the path after the last slash.\<close>

definition last_name :: "byte list \<Rightarrow> byte list" where
  "last_name path = rev (takeWhile (\<lambda>c. c \<noteq> slash) (rev path))"

section \<open>exec\<close>

text \<open>Reading the program: the new page table (0 when there is none yet), its size, and the entry point on success.\<close>

definition exec_load :: "machine \<Rightarrow> nat \<Rightarrow> nat \<Rightarrow> kmem \<Rightarrow> fs \<Rightarrow> fault + u64 option \<times> nat \<times> u64 \<times> kmem \<times> fs" where
  "exec_load c tf ip m s =
     bindE (readi kout ip 0 0 (word_of_nat ELFHDR_SIZE) [] s) (\<lambda>(r, bs, s).
     let elf = elfhdr_of bs in
     if r \<noteq> int ELFHDR_SIZE \<or> elf_magic elf \<noteq> ELF_MAGIC then Inr (None, 0, 0, m, s)
     else
       bindE (proc_pagetable c tf m) (\<lambda>(pt, m).
       if pt = 0 then Inr (None, 0, 0, m, s)
       else
         bindE (load_segments (elf_phnum elf) c pt ip (ucast (elf_phoff elf)) 0 m s) (\<lambda>(ok, sz, m, s).
         Inr (if ok then Some (elf_entry elf) else None, pt, sz, m, s))))"

text \<open>Allocating and filling the stack: the new size and stack pointer on success.\<close>

definition exec_stack :: "machine \<Rightarrow> nat \<Rightarrow> byte list list \<Rightarrow> u64 \<Rightarrow> kmem \<Rightarrow> fault + u64 option \<times> u64 \<times> kmem" where
  "exec_stack c pt argv sz m =
     (let sz = PGROUNDUP sz in
      bindE (uvmalloc c pt sz (sz + 2 * word_of_nat PGSIZE) PTE_W m) (\<lambda>(sz1, m).
      if sz1 = 0 then Inr (None, sz, m)
      else
        bindE (uvmclear pt (sz1 - 2 * word_of_nat PGSIZE) m) (\<lambda>m.
        case push_stack pt (sz1 - word_of_nat PGSIZE) argv sz1 m of (sp, m) \<Rightarrow> Inr (sp, sz1, m))))"

definition exec_commit :: "machine \<Rightarrow> nat \<Rightarrow> byte list \<Rightarrow> nat \<Rightarrow> u64 \<Rightarrow> u64 \<Rightarrow> u64 \<Rightarrow> kern \<Rightarrow> fault + kern" where
  "exec_commit c p path pt sz entry sp k =
     (let old = k_proc k p;
          k = tf_put p (tf_a 1) sp k;
          k = upd_proc p (\<lambda>v. v\<lparr>p_name := safestr (p_name v) (last_name path), p_pagetable := pt, p_sz := sz\<rparr>) k;
          k = tf_put p tf_epc entry k;
          k = tf_put p tf_sp sp k
      in bindE (proc_freepagetable c (p_pagetable old) (p_sz old) (k_mem k)) (\<lambda>m. Inr (k\<lparr>k_mem := m\<rparr>)))"

definition exec :: "machine \<Rightarrow> nat \<Rightarrow> byte list \<Rightarrow> byte list list \<Rightarrow> kern \<Rightarrow> fault + int \<times> kern" where
  "exec c p path argv k =
     bindE (cwd_of p k) (\<lambda>cwd.
     bindE (txn_begin k) (\<lambda>k.
     bindE (fs_call (namei p cwd path) k) (\<lambda>(r, k).
     case r of
       None \<Rightarrow> Inr (-1, txn_end k)
     | Some ip \<Rightarrow>
         bindE (on_fs (ilock p ip) k) (\<lambda>k.
         bindE (exec_load c (p_trapframe (k_proc k p)) ip (k_mem k) (k_fs k)) (\<lambda>(entry, pt, sz, m, s).
         let k = k\<lparr>k_mem := m, k_fs := s\<rparr> in
         case entry of
           None \<Rightarrow>
             bindE (if pt \<noteq> 0 then proc_freepagetable c pt sz (k_mem k) else Inr (k_mem k)) (\<lambda>m.
             bindE (on_fs (iunlockput p ip) (k\<lparr>k_mem := m\<rparr>)) (\<lambda>k. Inr (-1, txn_end k)))
         | Some entry \<Rightarrow>
             bindE (on_fs (iunlockput p ip) k) (\<lambda>k.
             let k = txn_end k in
             bindE (exec_stack c pt argv sz (k_mem k)) (\<lambda>(sp, sz, m).
             let k = k\<lparr>k_mem := m\<rparr> in
             case sp of
               None \<Rightarrow> bindE (proc_freepagetable c pt sz (k_mem k)) (\<lambda>m. Inr (-1, k\<lparr>k_mem := m\<rparr>))
             | Some sp \<Rightarrow> bindE (exec_commit c p path pt sz entry sp k) (\<lambda>k. Inr (int (length argv), k)))))))))"

section \<open>sys_exec\<close>

text \<open>Fetching the arguments: the pages that hold them, and their strings unless a fetch failed. The copy of a string fills its page as far as it gets.\<close>

primrec fetch_argv :: "nat \<Rightarrow> nat \<Rightarrow> u64 \<Rightarrow> nat list \<Rightarrow> byte list list \<Rightarrow> kern \<Rightarrow> byte list list option \<times> nat list \<times> kern" where
  "fetch_argv 0 p uargv pages argv k = (None, pages, k)"
| "fetch_argv (Suc n) p uargv pages argv k =
     (case fetchaddr p uargv k of
        None \<Rightarrow> (None, pages, k)
      | Some uarg \<Rightarrow>
          if uarg = 0 then (Some argv, pages, k)
          else
            (case kalloc (k_mem k) of (page, m) \<Rightarrow>
               let k = k\<lparr>k_mem := m\<rparr> in
               if page = 0 then (None, pages, k)
               else
                 let str = fetchstr p uarg PGSIZE k;
                     bs = snd (copyinstr (p_pagetable (k_proc k p)) uarg PGSIZE (k_mem k));
                     k = k\<lparr>k_mem := m\<lparr>ram := store_bytes (ram m) page bs\<rparr>\<rparr>
                 in case str of
                      None \<Rightarrow> (None, pages @ [page], k)
                    | Some a \<Rightarrow> fetch_argv n p (uargv + 8) (pages @ [page]) (argv @ [a]) k))"

definition free_pages :: "machine \<Rightarrow> nat list \<Rightarrow> kern \<Rightarrow> fault + kern" where
  "free_pages c pages k = bindE (forE pages (kfree c) (k_mem k)) (\<lambda>m. Inr (k\<lparr>k_mem := m\<rparr>))"

definition sys_exec :: "machine \<Rightarrow> nat \<Rightarrow> kern \<Rightarrow> fault + int \<times> kern" where
  "sys_exec c p k =
     bindE (argaddr p 1 k) (\<lambda>uargv.
     bindE (argstr p 0 MAXPATH k) (\<lambda>path.
     case path of
       None \<Rightarrow> Inr (-1, k)
     | Some path \<Rightarrow>
         (case fetch_argv MAXARG p uargv [] [] k of (argv, pages, k) \<Rightarrow>
            bindE (case argv of None \<Rightarrow> Inr (-1, k) | Some argv \<Rightarrow> exec c p path argv k) (\<lambda>(r, k).
            bindE (free_pages c pages k) (\<lambda>k. Inr (r, k))))))"

end
