(* ===== verification/Syscall.thy ===== *)
theory Syscall
  imports Exec
begin

text \<open>
  System call dispatch: the rest of \<^verbatim>\<open>kernel/syscall.c\<close>, and \<^verbatim>\<open>kernel/sysproc.c\<close>. The whole kernel state is a pair of \<open>kern\<close> and the state
  of the RAID layer; both see the same memory, so \<open>on_raid\<close> hands the kernel's memory to a RAID call and takes it back.
\<close>

section \<open>Process calls\<close>

type_synonym ksys = "kern \<times> raid_state"

definition sys_exit :: "machine \<Rightarrow> nat \<Rightarrow> nat \<Rightarrow> kern \<Rightarrow> fault + kern" where
  "sys_exit c i p k = bindE (arg_int p 0 k) (\<lambda>n. exit c i n k)"

definition sys_getpid :: "nat \<Rightarrow> kern \<Rightarrow> int" where
  "sys_getpid p k = sint (p_pid (k_proc k p))"

definition sys_fork :: "machine \<Rightarrow> u64 \<Rightarrow> nat \<Rightarrow> kern \<Rightarrow> fault + int \<times> kern" where
  "sys_fork c entry i k = fork c entry i k"

definition sys_wait :: "machine \<Rightarrow> nat \<Rightarrow> nat \<Rightarrow> kern \<Rightarrow> fault + progress \<times> kern" where
  "sys_wait c i p k = bindE (argaddr p 0 k) (\<lambda>a. wait c i a k)"

definition sys_sbrk :: "machine \<Rightarrow> nat \<Rightarrow> kern \<Rightarrow> fault + int \<times> kern" where
  "sys_sbrk c p k =
     bindE (arg_int p 0 k) (\<lambda>n.
     let addr = p_sz (k_proc k p) in
     bindE (growproc c p (sint n) k) (\<lambda>(r, k).
     Inr (if r < 0 then -1 else uint addr, k)))"

text \<open>
  The comparison \<^verbatim>\<open>ticks - ticks0 < n\<close> is between an unsigned and a signed number, so \<open>n\<close> is read as unsigned.
\<close>

definition sys_sleep_from :: "nat \<Rightarrow> nat \<Rightarrow> u32 \<Rightarrow> u32 \<Rightarrow> kern \<Rightarrow> fault + progress \<times> kern" where
  "sys_sleep_from i p ticks0 n k =
     (if k_ticks k - ticks0 < n then
        bindE (killed i p k) (\<lambda>(dead, k).
        if dead then bindE (kpop_off i k) (\<lambda>k. Inr (Returned (-1), k))
        else bindE (sleep i Chan_ticks k) (\<lambda>k. Inr (Asleep 0, k)))
      else bindE (kpop_off i k) (\<lambda>k. Inr (Returned 0, k)))"

definition sys_sleep :: "nat \<Rightarrow> nat \<Rightarrow> kern \<Rightarrow> fault + progress \<times> kern" where
  "sys_sleep i p k = bindE (arg_int p 0 k) (\<lambda>n. let k = kpush_off i k in sys_sleep_from i p (k_ticks k) n k)"

definition sys_kill :: "nat \<Rightarrow> nat \<Rightarrow> kern \<Rightarrow> fault + int \<times> kern" where
  "sys_kill i p k = bindE (arg_int p 0 k) (\<lambda>pid. kill i pid k)"

definition sys_uptime :: "kern \<Rightarrow> int" where
  "sys_uptime k = uint (k_ticks k)"

section \<open>Dispatch\<close>

definition ret_int :: "fault + int \<times> kern \<Rightarrow> fault + progress \<times> kern" where
  "ret_int r = bindE r (\<lambda>(x, k). Inr (Returned x, k))"

definition on_raid :: "(raid_state \<Rightarrow> fault + u64 \<times> raid_state) \<Rightarrow> ksys \<Rightarrow> fault + progress \<times> ksys" where
  "on_raid f = (\<lambda>(k, r). bindE (f (r\<lparr>km := k_mem k\<rparr>)) (\<lambda>(x, r). Inr (Returned (uint x), (k\<lparr>k_mem := km r\<rparr>, r))))"

definition says :: "(nat \<Rightarrow> nat) \<Rightarrow> nat \<Rightarrow> byte list \<Rightarrow> parg list \<Rightarrow> (ksys \<Rightarrow> fault + progress \<times> ksys) \<Rightarrow> ksys \<Rightarrow> fault + progress \<times> ksys" where
  "says busy i msg args f = (\<lambda>(k, r). bindE (printf busy i msg args k) (\<lambda>k. f (k, r)))"

definition raid_syscall :: "machine \<Rightarrow> (nat \<Rightarrow> nat) \<Rightarrow> nat \<Rightarrow> nat \<Rightarrow> nat \<Rightarrow> ksys \<Rightarrow> fault + progress \<times> ksys" where
  "raid_syscall c busy i p num ks =
     (let k = fst ks; a0 = tf_get p (tf_a 0) k; a1 = tf_get p (tf_a 1) k; a2 = tf_get p (tf_a 2) k; pt = p_pagetable (k_proc k p) in
      if num = 22 then says busy i (ascii ''INIT THE RAID %d '' @ [10]) [PInt (argint a0)] (on_raid (sys_init_raid c a0)) ks
      else if num = 23 then on_raid (sys_read_raid c pt a0 a1) ks
      else if num = 24 then on_raid (sys_write_raid c pt a0 a1) ks
      else if num = 25 then says busy i (ascii ''DISK FAIL RAID'' @ [10]) [] (on_raid (sys_disk_fail_raid c a0)) ks
      else if num = 26 then says busy i (ascii ''DISK REPAIRED RAID'' @ [10]) [] (on_raid (sys_disk_repaired_raid c a0)) ks
      else if num = 27 then on_raid (sys_info_raid c pt a0 a1 a2) ks
      else says busy i (ascii ''DESTROY RAID'' @ [10]) [] (on_raid (sys_destroy_raid c)) ks)"

definition kern_call :: "machine \<Rightarrow> (nat \<Rightarrow> kern \<Rightarrow> kern) \<Rightarrow> (nat \<Rightarrow> nat) \<Rightarrow> u64 \<Rightarrow> byte list \<Rightarrow> nat \<Rightarrow> nat \<Rightarrow> nat \<Rightarrow> kern \<Rightarrow> fault + progress \<times> kern" where
  "kern_call c env busy entry pad i p num k =
     (if num = 1 then ret_int (sys_fork c entry i k)
      else if num = 2 then bindE (sys_exit c i p k) (\<lambda>k. Inr (Asleep 0, k))
      else if num = 3 then sys_wait c i p k
      else if num = 4 then ret_int (sys_pipe c i p k)
      else if num = 5 then sys_read i p k
      else if num = 6 then ret_int (sys_kill i p k)
      else if num = 7 then ret_int (sys_exec c p k)
      else if num = 8 then ret_int (sys_fstat pad p k)
      else if num = 9 then ret_int (sys_chdir p k)
      else if num = 10 then ret_int (sys_dup p k)
      else if num = 11 then Inr (Returned (sys_getpid p k), k)
      else if num = 12 then ret_int (sys_sbrk c p k)
      else if num = 13 then sys_sleep i p k
      else if num = 14 then Inr (Returned (sys_uptime k), k)
      else if num = 15 then ret_int (sys_open c i p k)
      else if num = 16 then sys_write env busy i p k
      else if num = 17 then ret_int (sys_mknod p k)
      else if num = 18 then ret_int (sys_unlink p k)
      else if num = 19 then ret_int (sys_link p k)
      else if num = 20 then ret_int (sys_mkdir p k)
      else ret_int (sys_close c i p k))"

text \<open>The result goes to \<^verbatim>\<open>a0\<close> of the caller when the call returns; a call that sleeps has not returned yet, and \<^verbatim>\<open>exit\<close> never does.\<close>

definition finish_call :: "nat \<Rightarrow> progress \<Rightarrow> kern \<Rightarrow> kern" where
  "finish_call p r k = (case r of Returned x \<Rightarrow> tf_put p (tf_a 0) (word_of_int x) k | Asleep _ \<Rightarrow> k)"

definition syscall :: "machine \<Rightarrow> (nat \<Rightarrow> kern \<Rightarrow> kern) \<Rightarrow> (nat \<Rightarrow> nat) \<Rightarrow> u64 \<Rightarrow> byte list \<Rightarrow> nat \<Rightarrow> ksys \<Rightarrow> fault + progress \<times> ksys" where
  "syscall c env busy entry pad i = (\<lambda>(k, r).
     bindE (myproc i k) (\<lambda>p.
     let num = sint (argint (tf_get p (tf_a 7) k)) in
     if 0 < num \<and> num < 29 then
       bindE (if num < 22 then bindE (kern_call c env busy entry pad i p (nat num) k) (\<lambda>(x, k). Inr (x, (k, r)))
              else raid_syscall c busy i p (nat num) (k, r)) (\<lambda>(x, k, r).
       Inr (x, (finish_call p x k, r)))
     else
       bindE (printf busy i (ascii ''%d %s: unknown sys call %d'' @ [10])
                [PInt (p_pid (k_proc k p)), PStr (Some (takeWhile (\<lambda>c. c \<noteq> 0) (p_name (k_proc k p)))), PInt (word_of_int num)] k) (\<lambda>k.
       Inr (Returned (-1), (tf_put p (tf_a 0) (-1) k, r)))))"

end
