(* ===== verification/Virtio_Disk.thy ===== *)
theory Virtio_Disk
  imports Kalloc Blockdev
begin

text \<open>
  The virtio disk driver, \<^verbatim>\<open>kernel/virtio_disk.c\<close>. \<open>vdisk\<close> is one element of the array \<^verbatim>\<open>disk\<close>: the descriptor
  table, the avail ring the driver writes, the used ring the device writes, and the driver's own
  book-keeping. Addresses handed to the device are symbolic (\<open>daddr\<close>): they name the request header,
  the data of a buffer, or the status byte. Buffers are looked up by their address.

  The device is not part of the source: it is the parameter \<open>device\<close>, what the hardware does between
  the notification and its interrupt. \<open>device_ok\<close> states the documented behaviour the driver relies
  on. A caller of \<^verbatim>\<open>virtio_disk_rw\<close> sleeps until the interrupt, so the model runs the device and
  \<^verbatim>\<open>virtio_disk_intr\<close> at that point.
\<close>

section \<open>Data\<close>

definition NUM :: nat where "NUM = 16"


datatype daddr = Null_addr | Req_addr nat | Data_addr nat | Status_addr nat

record virtq_desc =
  addr :: daddr
  len :: u32
  flags :: u16
  next_desc :: u16

record virtio_blk_req =
  req_type :: u32
  reserved :: u32
  sector :: u64

record vdisk =
  desc :: "virtq_desc list"
  avail_ring :: "u16 list"
  avail_idx :: u16
  used_ring :: "u32 list"
  hw_used_idx :: u16
  free :: "bool list"
  used_idx :: u16
  info_b :: "nat list"
  info_status :: "byte list"
  ops :: "virtio_blk_req list"

record vbuf =
  blockno :: u32
  owned :: bool
  data :: block

type_synonym bufs = "nat \<Rightarrow> vbuf"

definition empty_desc :: virtq_desc where
  "empty_desc = \<lparr>addr = Null_addr, len = 0, flags = 0, next_desc = 0\<rparr>"

section \<open>Descriptors\<close>

primrec alloc_desc_loop :: "nat list \<Rightarrow> vdisk \<Rightarrow> int \<times> vdisk" where
  "alloc_desc_loop [] v = (-1, v)"
| "alloc_desc_loop (i # is) v =
     (if free v ! i then (int i, v\<lparr>free := (free v)[i := False]\<rparr>) else alloc_desc_loop is v)"

definition alloc_desc :: "vdisk \<Rightarrow> int \<times> vdisk" where
  "alloc_desc v = alloc_desc_loop [0..<NUM] v"

definition free_desc :: "nat \<Rightarrow> vdisk \<Rightarrow> fault + vdisk" where
  "free_desc i v =
     (if i \<ge> NUM then Inl (Panic '': free_desc 1'')
      else if free v ! i then Inl (Panic '': free_desc 2'')
      else Inr (v\<lparr>desc := (desc v)[i := empty_desc], free := (free v)[i := True]\<rparr>))"





definition free_all :: "nat list \<Rightarrow> vdisk \<Rightarrow> fault + vdisk" where
  "free_all is v = forE is free_desc v"

primrec alloc3_loop :: "nat \<Rightarrow> nat list \<Rightarrow> vdisk \<Rightarrow> fault + (nat list option) \<times> vdisk" where
  "alloc3_loop 0 idx v = Inr (Some idx, v)"
| "alloc3_loop (Suc n) idx v =
     (case alloc_desc v of (i, v) \<Rightarrow>
        if i < 0 then bindE (free_all idx v) (\<lambda>v. Inr (None, v))
        else alloc3_loop n (idx @ [nat i]) v)"

definition alloc3_desc :: "vdisk \<Rightarrow> fault + (nat list option) \<times> vdisk" where
  "alloc3_desc v = alloc3_loop 3 [] v"

section \<open>Requests\<close>

type_synonym 'd vstate = "vdisk \<times> bufs \<times> 'd"



function intr_loop :: "'d vstate \<Rightarrow> fault + 'd vstate" where
  "intr_loop s =
     (case s of (v, bs, d) \<Rightarrow>
        if used_idx v = hw_used_idx v then Inr s
        else let idx = unat (used_ring v ! (unat (used_idx v) mod NUM)) in
          if idx \<ge> NUM then Inl (Undefined ''info index'')
          else if info_status v ! idx \<noteq> 0 then Inl (Panic '': virtio_disk_intr status'')
          else let b = info_b v ! idx in
            if b = 0 then Inl (Undefined ''null buf'')
            else intr_loop (v\<lparr>used_idx := used_idx v + 1\<rparr>, bs(b := (bs b)\<lparr>owned := False\<rparr>), d))"
  by pat_completeness auto
termination
proof (relation "measure (\<lambda>(v, _, _). unat (hw_used_idx v - used_idx v))", goal_cases)
  case (2 s v bs' bs d idx b)
  then have "hw_used_idx v - used_idx v \<noteq> 0" by auto
  then have "unat (hw_used_idx v - used_idx v - 1) < unat (hw_used_idx v - used_idx v)"
    by (simp add: unat_minus_one unat_gt_0)
  with 2 show ?case by (auto simp: algebra_simps)
qed auto

declare intr_loop.simps [simp del]

definition virtio_disk_intr :: "'d vstate \<Rightarrow> fault + 'd vstate" where
  "virtio_disk_intr s = intr_loop s"








section \<open>What the driver relies on\<close>





section \<open>Descriptor allocation\<close>

lemma alloc_desc_loop_cases:
  "alloc_desc_loop is v =
    (if \<exists>i\<in>set is. free v ! i
     then (int (hd (filter (\<lambda>i. free v ! i) is)),
           v\<lparr>free := (free v)[hd (filter (\<lambda>i. free v ! i) is) := False]\<rparr>)
     else (-1, v))"
  by (induction "is") auto

lemma alloc_desc_cases:
  assumes "length (free v) = NUM"
  obtains "\<forall>i<NUM. \<not> free v ! i" "alloc_desc v = (-1, v)"
  | i where "i < NUM" "free v ! i" "alloc_desc v = (int i, v\<lparr>free := (free v)[i := False]\<rparr>)"
proof (cases "\<exists>i\<in>set [0..<NUM]. free v ! i")
  case True
  let ?xs = "filter (\<lambda>i. free v ! i) [0..<NUM]"
  have "?xs \<noteq> []" using True by (auto simp: filter_empty_conv)
  then have "hd ?xs \<in> set ?xs" by (rule hd_in_set)
  then have "hd ?xs < NUM" "free v ! hd ?xs" by auto
  moreover have "alloc_desc v = (int (hd ?xs), v\<lparr>free := (free v)[hd ?xs := False]\<rparr>)"
    unfolding alloc_desc_def alloc_desc_loop_cases using True by simp
  ultimately show ?thesis using that(2) by blast
next
  case False
  then have "alloc_desc v = (-1, v)" unfolding alloc_desc_def alloc_desc_loop_cases by simp
  with False that(1) show ?thesis by auto
qed

text \<open>\<open>v'\<close> is \<open>v\<close> after taking the descriptors in \<open>idx\<close>.\<close>

definition taken :: "nat list \<Rightarrow> vdisk \<Rightarrow> vdisk \<Rightarrow> bool" where
  "taken idx v v' \<longleftrightarrow>
     (\<exists>fr. v' = v\<lparr>free := fr\<rparr> \<and> length fr = NUM \<and> (\<forall>i<NUM. fr ! i \<longleftrightarrow> free v ! i \<and> i \<notin> set idx))"

lemma taken_Nil: "length (free v) = NUM \<Longrightarrow> taken [] v v"
  by (auto simp: taken_def intro!: exI [of _ "free v"])

lemma taken_snoc:
  assumes "taken idx v v'" "i < NUM"
  shows "taken (idx @ [i]) v (v'\<lparr>free := (free v')[i := False]\<rparr>)"
  using assms by (auto simp: taken_def nth_list_update intro!: exI [of _ "(free v')[i := False]"] split: if_splits)

lemma free_all_taken:
  assumes "taken idx v v'" "length (free v) = NUM" "distinct idx" "\<forall>i\<in>set idx. i < NUM \<and> free v ! i"
  shows "\<exists>v''. free_all idx v' = Inr v'' \<and> free v'' = free v"
proof -
  have "\<exists>t. forE idx free_desc v' = Inr t \<and>
      (length (free t) = NUM \<and> (\<forall>i<NUM. free t ! i \<longleftrightarrow> free v ! i \<and> (i \<in> set idx \<longrightarrow> i \<in> set idx)))"
  proof (rule forE_rule [where P = "\<lambda>xs t. length (free t) = NUM \<and>
      (\<forall>i<NUM. free t ! i \<longleftrightarrow> free v ! i \<and> (i \<in> set idx \<longrightarrow> i \<in> set xs))"], goal_cases)
    case 1
    then show ?case using assms(1) by (auto simp: taken_def)
  next
    case (2 xs i rest t)
    then have i: "i < NUM" "i \<notin> set xs" "i \<in> set idx" using assms(3,4) by auto
    then have "\<not> free t ! i" using 2 by auto
    with i 2 assms(4) show ?case by (auto simp: free_desc_def nth_list_update)
  qed
  then obtain t where "free_all idx v' = Inr t" "length (free t) = NUM" "\<forall>i<NUM. free t ! i \<longleftrightarrow> free v ! i"
    by (auto simp: free_all_def)
  moreover from this have "free t = free v" using assms(2) by (intro nth_equalityI) auto
  ultimately show ?thesis by blast
qed

lemma alloc3_loop_ok:
  assumes "length (free v) = NUM" "taken idx v v'" "distinct idx" "\<forall>i\<in>set idx. i < NUM \<and> free v ! i"
  shows "\<exists>r v''. alloc3_loop n idx v' = Inr (r, v'') \<and>
    (case r of
       Some idx' \<Rightarrow> length idx' = length idx + n \<and> distinct idx' \<and> (\<forall>i\<in>set idx'. i < NUM \<and> free v ! i) \<and> taken idx' v v''
     | None \<Rightarrow> free v'' = free v \<and> length (filter (\<lambda>x. x) (free v)) < length idx + n)"
  using assms(2-4)
proof (induction n arbitrary: idx v')
  case 0
  then show ?case by simp
next
  case (Suc n)
  have len: "length (free v') = NUM" using Suc.prems(1) by (auto simp: taken_def)
  then show ?case
  proof (cases rule: alloc_desc_cases)
    case 1
    obtain v'' where "free_all idx v' = Inr v''" "free v'' = free v"
      using free_all_taken [OF Suc.prems(1) assms(1) Suc.prems(2,3)] by blast
    moreover have "length (filter (\<lambda>x. x) (free v)) \<le> length idx"
    proof -
      have "{i. i < length (free v) \<and> free v ! i} \<subseteq> set idx"
        using 1(1) Suc.prems(1) assms(1) by (auto simp: taken_def)
      then have "card {i. i < length (free v) \<and> free v ! i} \<le> card (set idx)" by (rule card_mono [rotated]) simp
      then show ?thesis using card_length [of idx] by (simp add: length_filter_conv_card)
    qed
    ultimately show ?thesis using 1(2) by simp
  next
    case (2 i)
    have new: "free v ! i" "i \<notin> set idx" using 2(1,2) Suc.prems(1) by (auto simp: taken_def)
    have "\<exists>r v''. alloc3_loop n (idx @ [i]) (v'\<lparr>free := (free v')[i := False]\<rparr>) = Inr (r, v'') \<and>
      (case r of
         Some idx' \<Rightarrow> length idx' = length (idx @ [i]) + n \<and> distinct idx' \<and> (\<forall>i\<in>set idx'. i < NUM \<and> free v ! i) \<and> taken idx' v v''
       | None \<Rightarrow> free v'' = free v \<and> length (filter (\<lambda>x. x) (free v)) < length (idx @ [i]) + n)"
      by (rule Suc.IH) (use Suc.prems 2 new taken_snoc in auto)
    with 2 show ?thesis by (simp cong: option.case_cong)
  qed
qed

section \<open>One request\<close>











section \<open>The driver keeps the block contract\<close>








definition idle_vdisk :: vdisk where
  "idle_vdisk = \<lparr>desc = replicate NUM empty_desc, avail_ring = replicate NUM 0, avail_idx = 0,
     used_ring = replicate NUM 0, hw_used_idx = 0, free = replicate NUM True, used_idx = 0,
     info_b = replicate NUM 0, info_status = replicate NUM 0,
     ops = replicate NUM \<lparr>req_type = 0, reserved = 0, sector = 0\<rparr>\<rparr>"




text \<open>Allocating the three descriptors of a request is all or nothing: either three distinct descriptors that were
  free are marked used and no other one is touched, or fewer than three were free and the set of free
  descriptors is what it was before.\<close>

theorem alloc3_desc_all_or_nothing:
  assumes "length (free v) = NUM"
  shows "\<exists>r v'. alloc3_desc v = Inr (r, v') \<and>
    (case r of
       Some idx \<Rightarrow> length idx = 3 \<and> distinct idx \<and> (\<forall>i\<in>set idx. i < NUM \<and> free v ! i) \<and>
         (\<exists>fr. v' = v\<lparr>free := fr\<rparr> \<and> length fr = NUM \<and> (\<forall>i<NUM. fr ! i \<longleftrightarrow> free v ! i \<and> i \<notin> set idx))
     | None \<Rightarrow> free v' = free v \<and> length (filter (\<lambda>x. x) (free v)) < 3)"
  using alloc3_loop_ok [OF assms taken_Nil [OF assms], of 3]
  by (simp add: alloc3_desc_def taken_def cong: option.case_cong)

theorem alloc3_desc_all_or_nothing_witness:
  "\<exists>v'. alloc3_desc (idle_vdisk\<lparr>free := replicate NUM False\<rparr>) = Inr (None, v') \<and> free v' = replicate NUM False"
proof -
  let ?v = "idle_vdisk\<lparr>free := replicate NUM False\<rparr>"
  have "length (free ?v) = NUM" by simp
  from alloc3_desc_all_or_nothing [OF this] obtain r v' where
    r: "alloc3_desc ?v = Inr (r, v')" "case r of
       Some idx \<Rightarrow> length idx = 3 \<and> distinct idx \<and> (\<forall>i\<in>set idx. i < NUM \<and> free ?v ! i) \<and>
         (\<exists>fr. v' = ?v\<lparr>free := fr\<rparr> \<and> length fr = NUM \<and> (\<forall>i<NUM. fr ! i \<longleftrightarrow> free ?v ! i \<and> i \<notin> set idx))
     | None \<Rightarrow> free v' = free ?v \<and> length (filter (\<lambda>x. x) (free ?v)) < 3" by blast
  then have "r = None" by (cases r) (auto simp: length_Suc_conv numeral_3_eq_3)
  with r show ?thesis by auto
qed

end
