(* ===== verification/Trap.thy ===== *)
theory Trap
  imports Syscall Virtio_Disk
begin

text \<open>
  Traps and interrupts, \<^verbatim>\<open>kernel/trap.c\<close> and \<^verbatim>\<open>kernel/plic.c\<close>. The registers of a trap (\<^verbatim>\<open>scause\<close>, \<^verbatim>\<open>sepc\<close>, \<^verbatim>\<open>stval\<close>, the previous mode in \<^verbatim>\<open>sstatus\<close>), what
  the interrupt controller reports and the bytes the UART has ready are arguments. The state is that of the system calls with the disks of the
  virtio driver beside it. A trap that gives up the CPU ends with \<open>Off_cpu\<close>; where it goes on later is the resume point of the call it was in.
\<close>

section \<open>The interrupt controller\<close>

definition UART0_IRQ :: nat where "UART0_IRQ = 10"
definition VIRTIO0_IRQ :: nat where "VIRTIO0_IRQ = 1"
definition VIRTIOX_IRQ :: "nat \<Rightarrow> nat" where "VIRTIOX_IRQ x = VIRTIO0_IRQ + x"
definition VIRTIOX_ID :: "nat \<Rightarrow> nat" where "VIRTIOX_ID x = x - VIRTIO0_IRQ"
definition PLIC_SENABLE :: "nat \<Rightarrow> u64" where "PLIC_SENABLE hart = PLIC + 0x2080 + word_of_nat hart * 0x100"
definition PLIC_SPRIORITY :: "nat \<Rightarrow> u64" where "PLIC_SPRIORITY hart = PLIC + 0x201000 + word_of_nat hart * 0x2000"

text \<open>Device registers are write-only here: the functions return the list of writes, address and value.\<close>

definition plicinit :: "machine \<Rightarrow> (u64 \<times> u32) list" where
  "plicinit c =
     [(PLIC + word_of_nat UART0_IRQ * 4, 1), (PLIC + word_of_nat VIRTIO0_IRQ * 4, 1)] @
     map (\<lambda>i. (PLIC + word_of_nat (VIRTIOX_IRQ i) * 4, 1)) [VIRTIO_RAID_DISK_START ..< VIRTIO_RAID_DISK_END c + 1]"

definition plicinithart :: "machine \<Rightarrow> nat \<Rightarrow> (u64 \<times> u32) list" where
  "plicinithart c hart =
     (let enable_bits = foldl (\<lambda>e i. e OR push_bit (VIRTIOX_IRQ i) 1) (push_bit UART0_IRQ 1 OR push_bit VIRTIO0_IRQ 1)
                          [VIRTIO_RAID_DISK_START ..< VIRTIO_RAID_DISK_END c + 1]
      in [(PLIC_SENABLE hart, enable_bits), (PLIC_SPRIORITY hart, 0)])"

section \<open>Interrupts and traps\<close>

definition clockintr :: "nat \<Rightarrow> kern \<Rightarrow> fault + kern" where
  "clockintr i k =
     (let k = kpush_off i k; k = k\<lparr>k_ticks := k_ticks k + 1\<rparr> in
      bindE (wakeup i Chan_ticks k) (kpop_off i))"

text \<open>
  \<open>irq\<close> is what \<^verbatim>\<open>plic_claim\<close> returns, \<open>rx\<close> the bytes the UART has ready, \<open>d\<close> the state of the driver for each disk.
\<close>

definition disk_intr :: "nat \<Rightarrow> (nat \<Rightarrow> 'd vstate) \<Rightarrow> fault + (nat \<Rightarrow> 'd vstate)" where
  "disk_intr n d = bindE (virtio_disk_intr (d n)) (\<lambda>v. Inr (d(n := v)))"

definition devintr :: "machine \<Rightarrow> (nat \<Rightarrow> nat) \<Rightarrow> nat \<Rightarrow> u64 \<Rightarrow> nat \<Rightarrow> byte list \<Rightarrow> kern \<Rightarrow> (nat \<Rightarrow> 'd vstate) \<Rightarrow> fault + int \<times> kern \<times> (nat \<Rightarrow> 'd vstate)" where
  "devintr c bz i scause irq rx k d =
     (if scause AND 0x8000000000000000 \<noteq> 0 \<and> scause AND 0xff = 9 then
        (if irq = UART0_IRQ then bindE (uartintr bz i rx k) (\<lambda>k. Inr (1, k, d))
         else if irq = VIRTIO0_IRQ then bindE (disk_intr 0 d) (\<lambda>d. Inr (1, k, d))
         else if VIRTIOX_IRQ VIRTIO_RAID_DISK_START \<le> irq \<and> irq \<le> VIRTIOX_IRQ (VIRTIO_RAID_DISK_END c) then
           bindE (disk_intr (VIRTIOX_ID irq) d) (\<lambda>d. Inr (1, k, d))
         else if irq \<noteq> 0 then
           bindE (printf bz i (ascii ''unexpected interrupt irq=%d'' @ [10]) [PInt (word_of_nat irq)] k) (\<lambda>k. Inr (1, k, d))
         else Inr (1, k, d))
      else if scause = 0x8000000000000001 then
        bindE (if i = 0 then clockintr i k else Inr k) (\<lambda>k. Inr (2, k, d))
      else Inr (0, k, d))"

text \<open>The registers that \<^verbatim>\<open>usertrapret\<close> leaves for the next trap and for \<^verbatim>\<open>sret\<close>: \<^verbatim>\<open>sepc\<close> and the page table for \<^verbatim>\<open>satp\<close>.\<close>

definition usertrapret :: "u64 \<Rightarrow> u64 \<Rightarrow> nat \<Rightarrow> nat \<Rightarrow> kern \<Rightarrow> (u64 \<times> u64) \<times> kern" where
  "usertrapret satp usertrap_addr i p k =
     (let k = upd_cpu i (\<lambda>v. v\<lparr>c_intr := False\<rparr>) k;
          k = tf_put p tf_kernel_satp satp k;
          k = tf_put p tf_kernel_sp (p_kstack (k_proc k p) + word_of_nat PGSIZE) k;
          k = tf_put p tf_kernel_trap usertrap_addr k;
          k = tf_put p tf_kernel_hartid (word_of_nat i) k
      in ((tf_get p tf_epc k, push_bit 63 1 OR drop_bit 12 (word_of_nat (p_pagetable (k_proc k p)))), k))"

text \<open>The outcome of \<^verbatim>\<open>usertrap\<close>: back to user space, or the process gave up the CPU in a call, by exiting or by yielding.\<close>

datatype trap_end = To_user | Off_cpu

definition exit_if_killed :: "machine \<Rightarrow> nat \<Rightarrow> nat \<Rightarrow> kern \<Rightarrow> fault + bool \<times> kern" where
  "exit_if_killed c i p k =
     bindE (killed i p k) (\<lambda>(dead, k).
     if dead then bindE (exit c i (-1) k) (\<lambda>k. Inr (True, k)) else Inr (False, k))"

definition usertrap_end :: "machine \<Rightarrow> nat \<Rightarrow> nat \<Rightarrow> int \<Rightarrow> kern \<Rightarrow> fault + trap_end \<times> kern" where
  "usertrap_end c i p which_dev k =
     bindE (exit_if_killed c i p k) (\<lambda>(gone, k).
     if gone then Inr (Off_cpu, k)
     else if which_dev = 2 then bindE (yield i k) (\<lambda>k. Inr (Off_cpu, k))
     else Inr (To_user, k))"

definition usertrap :: "machine \<Rightarrow> (nat \<Rightarrow> kern \<Rightarrow> kern) \<Rightarrow> (nat \<Rightarrow> nat) \<Rightarrow> u64 \<Rightarrow> byte list \<Rightarrow> bool \<Rightarrow> u64 \<Rightarrow> u64 \<Rightarrow> u64 \<Rightarrow> nat \<Rightarrow> byte list \<Rightarrow> nat \<Rightarrow> kern \<times> raid_state \<times> (nat \<Rightarrow> 'd vstate) \<Rightarrow> fault + trap_end \<times> kern \<times> raid_state \<times> (nat \<Rightarrow> 'd vstate)" where
  "usertrap c env bz entry pad from_user scause sepc stval irq rx i = (\<lambda>(k, r, d).
     if \<not> from_user then Inl (Panic ''usertrap: not from user mode'')
     else
       bindE (myproc i k) (\<lambda>p.
       let k = tf_put p tf_epc sepc k in
       if scause = 8 then
         bindE (exit_if_killed c i p k) (\<lambda>(gone, k).
         if gone then Inr (Off_cpu, (k, r, d))
         else
           let k = tf_put p tf_epc (tf_get p tf_epc k + 4) k;
               k = upd_cpu i (\<lambda>v. v\<lparr>c_intr := True\<rparr>) k
           in bindE (syscall c env bz entry pad i (k, r)) (\<lambda>(x, k, r).
              case x of
                Asleep _ \<Rightarrow> Inr (Off_cpu, (k, r, d))
              | Returned _ \<Rightarrow> bindE (usertrap_end c i p 0 k) (\<lambda>(e, k). Inr (e, (k, r, d)))))
       else
         bindE (devintr c bz i scause irq rx k d) (\<lambda>(dev, k, d).
         bindE (if dev \<noteq> 0 then Inr k
                else
                  bindE (printf bz i (ascii ''usertrap(): unexpected scause %p pid=%d'' @ [10]) [PPtr scause, PInt (p_pid (k_proc k p))] k) (\<lambda>k.
                  bindE (printf bz i (ascii ''            sepc=%p stval=%p'' @ [10]) [PPtr sepc, PPtr stval] k) (setkilled i p))) (\<lambda>k.
         bindE (usertrap_end c i p dev k) (\<lambda>(e, k). Inr (e, (k, r, d)))))))"

definition kerneltrap :: "machine \<Rightarrow> (nat \<Rightarrow> nat) \<Rightarrow> bool \<Rightarrow> u64 \<Rightarrow> nat \<Rightarrow> byte list \<Rightarrow> nat \<Rightarrow> kern \<Rightarrow> (nat \<Rightarrow> 'd vstate) \<Rightarrow> fault + kern \<times> (nat \<Rightarrow> 'd vstate)" where
  "kerneltrap c bz from_supervisor scause irq rx i k d =
     (if \<not> from_supervisor then Inl (Panic ''kerneltrap: not from supervisor mode'')
      else if c_intr (k_cpu k i) then Inl (Panic ''kerneltrap: interrupts enabled'')
      else
        bindE (devintr c bz i scause irq rx k d) (\<lambda>(dev, k, d).
        if dev = 0 then Inl (Panic ''kerneltrap'')
        else if dev = 2 then
          (case c_proc (k_cpu k i) of
             None \<Rightarrow> Inr (k, d)
           | Some p \<Rightarrow> if p_state (k_proc k p) = RUNNING then bindE (yield i k) (\<lambda>k. Inr (k, d)) else Inr (k, d))
        else Inr (k, d)))"

end
