(* ===== verification/Grep.thy ===== *)
theory Grep
  imports Kernel_Prelude
begin

text \<open>
  The user program \<^verbatim>\<open>user/grep.c\<close> with the functions of \<^verbatim>\<open>user/ulib.c\<close> it calls. A C string is the list of its bytes before the terminating zero, so \<^verbatim>\<open>re[0] == 0\<close> is \<open>re = []\<close>.
  The system call \<^verbatim>\<open>read\<close> is the argument \<open>rd\<close>: how many bytes it delivers of what is left in the file when asked for so many. The matcher is compared with the
  language that a pattern denotes.
\<close>

section \<open>The matcher\<close>

abbreviation (input) star_c :: byte where "star_c \<equiv> 42"
abbreviation (input) dot_c :: byte where "dot_c \<equiv> 46"
abbreviation (input) dollar_c :: byte where "dollar_c \<equiv> 36"
abbreviation (input) caret_c :: byte where "caret_c \<equiv> 94"
abbreviation (input) newline_c :: byte where "newline_c \<equiv> 10"

function matchhere :: "byte list \<Rightarrow> byte list \<Rightarrow> bool" and matchstar :: "byte \<Rightarrow> byte list \<Rightarrow> byte list \<Rightarrow> bool" where
  "matchhere re line =
     (case re of
        [] \<Rightarrow> True
      | c # re1 \<Rightarrow>
          if re1 \<noteq> [] \<and> hd re1 = star_c then matchstar c (tl re1) line
          else if c = dollar_c \<and> re1 = [] then line = []
          else if line \<noteq> [] \<and> (c = dot_c \<or> c = hd line) then matchhere re1 (tl line)
          else False)"
| "matchstar c re line =
     (if matchhere re line then True
      else if line \<noteq> [] \<and> (hd line = c \<or> c = dot_c) then matchstar c re (tl line)
      else False)"
  by pat_completeness auto
termination
  by (relation "measure (\<lambda>x. case x of Inl (re, line) \<Rightarrow> 2 * length re + length line | Inr (c, re, line) \<Rightarrow> 2 * length re + length line + 1)")
    (auto simp: neq_Nil_conv)

declare matchhere.simps [simp del] matchstar.simps [simp del]

fun match_loop :: "byte list \<Rightarrow> byte list \<Rightarrow> bool" where
  "match_loop re line =
     (if matchhere re line then True
      else case line of [] \<Rightarrow> False | _ # line \<Rightarrow> match_loop re line)"

declare match_loop.simps [simp del]

definition match :: "byte list \<Rightarrow> byte list \<Rightarrow> bool" where
  "match re line = (if re \<noteq> [] \<and> hd re = caret_c then matchhere (tl re) line else match_loop re line)"

section \<open>Searching a file\<close>

text \<open>\<^verbatim>\<open>strchr\<close> stops at the terminating zero: the position of the first \<open>c\<close>.\<close>

fun strchr :: "byte list \<Rightarrow> byte \<Rightarrow> nat option" where
  "strchr [] c = None"
| "strchr (x # xs) c = (if x = 0 then None else if x = c then Some 0 else map_option Suc (strchr xs c))"

lemma strchr_less: "strchr xs c = Some i \<Longrightarrow> i < length xs"
  by (induction xs arbitrary: i) (auto split: if_splits)

text \<open>The inner loop: what is written for the complete lines of the buffer, and what is left in it.\<close>

function grep_lines :: "byte list \<Rightarrow> byte list \<Rightarrow> byte list \<times> byte list" where
  "grep_lines pattern p =
     (case strchr p newline_c of
        None \<Rightarrow> ([], p)
      | Some q \<Rightarrow>
          (case grep_lines pattern (drop (q + 1) p) of (out, rest) \<Rightarrow>
             ((if match pattern (take q p) then take (q + 1) p else []) @ out, rest)))"
  by pat_completeness auto
termination
  by (relation "measure (\<lambda>(pattern, p). length p)") (auto dest: strchr_less)

declare grep_lines.simps [simp del]

definition BUF_SIZE :: nat where "BUF_SIZE = 1024"

text \<open>The outer loop: \<open>kept\<close> is what was left in the buffer, \<open>s\<close> what is left in the file, \<open>out\<close> what was written so far.\<close>

partial_function (option) grep_loop :: "(byte list \<Rightarrow> nat \<Rightarrow> nat) \<Rightarrow> byte list \<Rightarrow> byte list \<Rightarrow> byte list \<Rightarrow> byte list \<Rightarrow> byte list option" where
  "grep_loop rd pattern kept s out =
     (let n = rd s (BUF_SIZE - length kept - 1) in
      if n > 0 then
        (case grep_lines pattern (kept @ take n s) of (o1, rest) \<Rightarrow> grep_loop rd pattern rest (drop n s) (out @ o1))
      else Some out)"

definition grep :: "(byte list \<Rightarrow> nat \<Rightarrow> nat) \<Rightarrow> byte list \<Rightarrow> byte list \<Rightarrow> byte list option" where
  "grep rd pattern s = grep_loop rd pattern [] s []"

section \<open>The language of a pattern\<close>

text \<open>One character, and any number of one character; a dot stands for every character.\<close>

datatype item = One byte | Many byte

definition fits :: "byte \<Rightarrow> byte \<Rightarrow> bool" where
  "fits c x \<longleftrightarrow> c = dot_c \<or> c = x"

fun item_lang :: "item \<Rightarrow> byte list set" where
  "item_lang (One c) = {[x] | x. fits c x}"
| "item_lang (Many c) = {xs. list_all (fits c) xs}"

text \<open>The items of a pattern, and whether it ends with a dollar sign.\<close>

fun items :: "byte list \<Rightarrow> item list" where
  "items [] = []"
| "items [c] = (if c = dollar_c then [] else [One c])"
| "items (c # d # re) = (if d = star_c then Many c # items re else One c # items (d # re))"

fun at_end :: "byte list \<Rightarrow> bool" where
  "at_end [] = False"
| "at_end [c] = (c = dollar_c)"
| "at_end (c # d # re) = (if d = star_c then at_end re else at_end (d # re))"

primrec lang :: "item list \<Rightarrow> byte list set" where
  "lang [] = {[]}"
| "lang (i # is) = {xs @ ys | xs ys. xs \<in> item_lang i \<and> ys \<in> lang is}"

definition found_at_start :: "byte list \<Rightarrow> byte list \<Rightarrow> bool" where
  "found_at_start re line \<longleftrightarrow> (\<exists>u v. line = u @ v \<and> u \<in> lang (items re) \<and> (at_end re \<longrightarrow> v = []))"

lemma found_Many:
  "found_at_start (c # star_c # re) line \<longleftrightarrow> (\<exists>a b. line = a @ b \<and> list_all (fits c) a \<and> found_at_start re b)"
  unfolding found_at_start_def by (simp, metis append.assoc)

lemma found_star_unfold:
  "(\<exists>a b. line = a @ b \<and> list_all (fits c) a \<and> P b) \<longleftrightarrow>
     P line \<or> (line \<noteq> [] \<and> fits c (hd line) \<and> (\<exists>a b. tl line = a @ b \<and> list_all (fits c) a \<and> P b))"
  (is "?l \<longleftrightarrow> ?r")
proof
  assume ?l
  then obtain a b where ab: "line = a @ b" "list_all (fits c) a" "P b" by blast
  then show ?r by (cases a) auto
next
  assume ?r
  then show ?l
  proof
    assume "P line"
    then show ?l by (intro exI [of _ "[]"] exI [of _ line]) simp
  next
    assume "line \<noteq> [] \<and> fits c (hd line) \<and> (\<exists>a b. tl line = a @ b \<and> list_all (fits c) a \<and> P b)"
    then obtain a b where "line = hd line # a @ b" "list_all (fits c) (hd line # a)" "P b" by (cases line) auto
    then show ?l by (intro exI [of _ "hd line # a"] exI [of _ b]) simp
  qed
qed

lemma found_One:
  assumes "\<not> (re \<noteq> [] \<and> hd re = star_c)" "\<not> (c = dollar_c \<and> re = [])"
  shows "found_at_start (c # re) line \<longleftrightarrow> line \<noteq> [] \<and> fits c (hd line) \<and> found_at_start re (tl line)"
proof -
  have i: "items (c # re) = One c # items re" "at_end (c # re) = at_end re" using assms by (cases re; auto)+
  have l: "u \<in> lang (One c # is) \<longleftrightarrow> (\<exists>x ys. u = x # ys \<and> fits c x \<and> ys \<in> lang is)" for u "is"
    by (auto simp: Cons_eq_append_conv) (metis append_Cons append_Nil)
  show ?thesis (is "?l \<longleftrightarrow> ?r")
  proof
    assume ?l
    then obtain x ys v where "line = x # ys @ v" "fits c x" "ys \<in> lang (items re)" "at_end re \<longrightarrow> v = []"
      unfolding found_at_start_def i l by (metis append_Cons)
    then show ?r unfolding found_at_start_def by (metis list.sel(1,3) list.distinct(1))
  next
    assume ?r
    then obtain u v where "line = hd line # u @ v" "fits c (hd line)" "u \<in> lang (items re)" "at_end re \<longrightarrow> v = []"
      unfolding found_at_start_def by (metis list.collapse)
    then show ?l unfolding found_at_start_def i l by (metis append_Cons)
  qed
qed

lemma found_Nil: "found_at_start [] line"
  by (simp add: found_at_start_def)

lemma found_dollar: "found_at_start [dollar_c] line \<longleftrightarrow> line = []"
  by (simp add: found_at_start_def)

lemma matchhere_found:
  "matchhere re line \<longleftrightarrow> found_at_start re line"
  "matchstar c re line \<longleftrightarrow> (\<exists>a b. line = a @ b \<and> list_all (fits c) a \<and> found_at_start re b)"
proof (induction re line and c re line rule: matchhere_matchstar.induct)
  case (1 re line)
  show ?case
  proof (cases re)
    case Nil
    then show ?thesis by (simp add: matchhere.simps found_Nil)
  next
    case (Cons c re1)
    show ?thesis
    proof (cases "re1 \<noteq> [] \<and> hd re1 = star_c")
      case True
      then have "re = c # star_c # tl re1" using Cons by (cases re1) auto
      moreover have "matchhere re line = matchstar c (tl re1) line" using Cons True by (subst matchhere.simps) simp
      ultimately show ?thesis using 1(1) [OF Cons True] found_Many [of c "tl re1" line] by metis
    next
      case False
      show ?thesis
      proof (cases "c = dollar_c \<and> re1 = []")
        case True
        then have "matchhere re line = (line = [])" using Cons by (subst matchhere.simps) simp
        then show ?thesis using True Cons by (simp add: found_dollar)
      next
        case plain: False
        have "matchhere re line = (line \<noteq> [] \<and> fits c (hd line) \<and> matchhere re1 (tl line))"
          using Cons False plain by (subst matchhere.simps) (auto simp: fits_def)
        then show ?thesis using found_One [OF False plain] 1(2) [OF Cons False plain] Cons by (auto simp: fits_def)
      qed
    qed
  qed
next
  case (2 c re line)
  have "matchstar c re line = (matchhere re line \<or> line \<noteq> [] \<and> fits c (hd line) \<and> matchstar c re (tl line))"
    by (subst matchstar.simps) (auto simp: fits_def)
  moreover have "hd line = c \<or> c = dot_c \<longleftrightarrow> fits c (hd line)" by (auto simp: fits_def)
  note 2 [unfolded this]
  ultimately show ?case by (subst found_star_unfold) blast
qed

lemma match_loop_found: "match_loop re line \<longleftrightarrow> (\<exists>a b. line = a @ b \<and> found_at_start re b)"
proof (induction line)
  case Nil
  then show ?case by (simp add: match_loop.simps matchhere_found)
next
  case (Cons x line)
  have "match_loop re (x # line) \<longleftrightarrow> found_at_start re (x # line) \<or> match_loop re line"
    by (subst match_loop.simps) (simp add: matchhere_found)
  then show ?case unfolding Cons.IH by (auto simp: Cons_eq_append_conv)
qed

section \<open>Whole files\<close>

definition lines_of :: "byte list list \<Rightarrow> byte list \<Rightarrow> byte list" where
  "lines_of ls t = concat (map (\<lambda>l. l @ [newline_c]) ls) @ t"

definition matching :: "byte list \<Rightarrow> byte list list \<Rightarrow> byte list" where
  "matching pattern ls = concat (map (\<lambda>l. l @ [newline_c]) (filter (match pattern) ls))"

definition line_ok :: "byte list \<Rightarrow> bool" where
  "line_ok l \<longleftrightarrow> newline_c \<notin> set l \<and> 0 \<notin> set l \<and> length l < BUF_SIZE - 1"

text \<open>What a caller may expect of \<^verbatim>\<open>read\<close>: at least one byte unless none is left or none was asked for.\<close>

definition reads :: "(byte list \<Rightarrow> nat \<Rightarrow> nat) \<Rightarrow> bool" where
  "reads rd \<longleftrightarrow> (\<forall>s n. rd s n \<le> n \<and> rd s n \<le> length s \<and> (0 < n \<longrightarrow> s \<noteq> [] \<longrightarrow> 0 < rd s n))"

lemma lines_of_simps [simp]: "lines_of [] t = t" "lines_of (l # ls) t = l @ newline_c # lines_of ls t"
  by (simp_all add: lines_of_def)

lemma matching_simps [simp]: "matching pattern [] = []"
  "matching pattern (l # ls) = (if match pattern l then l @ [newline_c] else []) @ matching pattern ls"
  "matching pattern (ls @ ls') = matching pattern ls @ matching pattern ls'"
  by (simp_all add: matching_def)

lemma strchr_line: "newline_c \<notin> set l \<Longrightarrow> 0 \<notin> set l \<Longrightarrow> strchr (l @ newline_c # t) newline_c = Some (length l)"
  by (induction l) auto

text \<open>The complete lines of a text; what follows the last newline is not one.\<close>

function complete_lines :: "byte list \<Rightarrow> byte list list" where
  "complete_lines s =
     (if newline_c \<in> set s then takeWhile (\<lambda>c. c \<noteq> newline_c) s # complete_lines (tl (dropWhile (\<lambda>c. c \<noteq> newline_c) s)) else [])"
  by pat_completeness auto
termination
proof (relation "measure length")
  fix s :: "byte list"
  assume "newline_c \<in> set s"
  then obtain l t where "s = l @ newline_c # t" "newline_c \<notin> set l" by (meson split_list_first)
  then show "(tl (dropWhile (\<lambda>c. c \<noteq> newline_c) s), s) \<in> measure length" by (auto simp: dropWhile_append)
qed simp

declare complete_lines.simps [simp del]

lemma complete_lines_plain: "l \<in> set (complete_lines s) \<Longrightarrow> newline_c \<notin> set l"
proof (induction s rule: complete_lines.induct)
  case (1 s)
  show ?case
  proof (cases "newline_c \<in> set s")
    case True
    then show ?thesis using 1 by (subst (asm) (2) complete_lines.simps) (auto dest: set_takeWhileD)
  qed (use 1(2) in \<open>simp add: complete_lines.simps\<close>)
qed

text \<open>A text at which \<^verbatim>\<open>grep\<close> gets stuck: \<^verbatim>\<open>strchr\<close> finds no newline in what fits into the buffer.\<close>

definition stuck :: "byte list \<Rightarrow> bool" where
  "stuck b \<longleftrightarrow> (\<forall>q. strchr b newline_c = Some q \<longrightarrow> BUF_SIZE - 1 \<le> q)"

lemma strchr_zero: "newline_c \<notin> set l \<Longrightarrow> 0 \<in> set l \<Longrightarrow> strchr (l @ t) newline_c = None"
  by (induction l) auto

lemma strchr_prefix: "strchr x c = Some q \<Longrightarrow> strchr (x @ y) c = Some q"
  by (induction x arbitrary: q) (auto split: if_splits)

lemma strchr_none: "c \<notin> set t \<Longrightarrow> strchr t c = None"
  by (induction t) auto

lemma good_lines: "\<exists>b. s = lines_of (takeWhile line_ok (complete_lines s)) b \<and> stuck b"
proof (induction s rule: complete_lines.induct)
  case (1 s)
  show ?case
  proof (cases "newline_c \<in> set s")
    case False
    then show ?thesis by (simp add: complete_lines.simps stuck_def strchr_none)
  next
    case True
    then obtain l t where s: "s = l @ newline_c # t" "newline_c \<notin> set l" by (meson split_list_first)
    then have t: "takeWhile (\<lambda>c. c \<noteq> newline_c) s = l" "tl (dropWhile (\<lambda>c. c \<noteq> newline_c) s) = t" by (auto simp: takeWhile_append dropWhile_append)
    have c: "complete_lines s = l # complete_lines t" using True t by (subst complete_lines.simps) simp
    show ?thesis
    proof (cases "line_ok l")
      case True
      then show ?thesis using 1 \<open>newline_c \<in> set s\<close> t s(1) c by auto
    next
      case False
      have "stuck s"
      proof (cases "0 \<in> set l")
        case True
        then show ?thesis using strchr_zero [OF s(2), of "newline_c # t"] s(1) by (simp add: stuck_def)
      next
        case nz: False
        then show ?thesis using strchr_line [OF s(2) nz, of t] s False by (simp add: stuck_def line_ok_def)
      qed
      then show ?thesis using False c by simp
    qed
  qed
qed

lemma grep_lines_of:
  "list_all line_ok ls \<Longrightarrow> strchr t newline_c = None \<Longrightarrow> grep_lines pattern (lines_of ls t) = (matching pattern ls, t)"
proof (induction ls)
  case Nil
  then show ?case by (simp add: grep_lines.simps)
next
  case (Cons l ls)
  then have "strchr (lines_of (l # ls) t) newline_c = Some (length l)" by (simp add: line_ok_def strchr_line)
  then show ?case using Cons by (subst grep_lines.simps) simp
qed

text \<open>What the buffer holds of a text is complete lines and a beginning without a line end.\<close>

lemma lines_of_cut:
  "list_all line_ok ls \<Longrightarrow> stuck b \<Longrightarrow> x @ y = lines_of ls b \<Longrightarrow> length x \<le> BUF_SIZE - 1 \<Longrightarrow>
   \<exists>ls1 ls2 r. ls = ls1 @ ls2 \<and> x = lines_of ls1 r \<and> strchr r newline_c = None \<and> r @ y = lines_of ls2 b"
proof (induction ls arbitrary: x)
  case Nil
  have "strchr x newline_c = None"
  proof (rule ccontr)
    assume "strchr x newline_c \<noteq> None"
    then obtain q where q: "strchr x newline_c = Some q" by blast
    from strchr_prefix [OF q, of y] strchr_less [OF q] Nil(2-4) show False by (auto simp: stuck_def)
  qed
  with Nil show ?case by (intro exI [of _ "[]"] exI [of _ x]) simp
next
  case (Cons l ls)
  have l: "newline_c \<notin> set l" using Cons.prems(1) by (simp add: line_ok_def)
  have whole: ?case if "newline_c \<notin> set x"
    using that Cons.prems by (intro exI [of _ "[]"] exI [of _ "l # ls"] exI [of _ x]) (simp add: strchr_none)
  obtain us where "x @ us = l \<or> x = l @ us \<and> us @ y = newline_c # lines_of ls b"
    using Cons.prems(3) by (auto simp: append_eq_append_conv2)
  then consider "newline_c \<notin> set x" | x' where "x = l @ newline_c # x'" "x' @ y = lines_of ls b"
    using l by (cases us) auto
  then show ?case
  proof cases
    case (2 x')
    then obtain ls1 ls2 r where "ls = ls1 @ ls2" "x' = lines_of ls1 r" "strchr r newline_c = None" "r @ y = lines_of ls2 b"
      using Cons.IH [of x'] Cons.prems by auto
    with 2 show ?thesis by (intro exI [of _ "l # ls1"] exI [of _ ls2] exI [of _ r]) simp
  qed (rule whole)
qed

lemma grep_loop_done:
  assumes "reads rd" "list_all line_ok ls" "strchr kept newline_c = None" "kept @ s = lines_of ls b" "rd s (BUF_SIZE - length kept - 1) = 0"
  shows "ls = []"
proof (rule ccontr)
  assume "ls \<noteq> []"
  then obtain l ls' where ls: "ls = l # ls'" by (cases ls) auto
  have l: "newline_c \<notin> set l" "0 \<notin> set l" "length l < BUF_SIZE - 1" using assms(2) ls by (simp_all add: line_ok_def)
  have "kept \<noteq> l @ newline_c # us" for us using strchr_line [OF l(1,2), of us] assms(3) by auto
  moreover obtain us where "kept @ us = l \<or> kept = l @ us \<and> us @ s = newline_c # lines_of ls' b"
    using assms(4) ls by (auto simp: append_eq_append_conv2)
  ultimately have k: "length kept \<le> length l" by (cases us) auto
  have "s \<noteq> []" using arg_cong [OF assms(4), of length] k by (auto simp: ls)
  moreover have "0 < BUF_SIZE - length kept - 1" using k l(3) by simp
  ultimately show False using assms(1,5) unfolding reads_def by (metis less_numeral_extra(3))
qed

lemma grep_loop_prints:
  assumes "reads rd" "stuck b"
  shows "list_all line_ok ls \<Longrightarrow> strchr kept newline_c = None \<Longrightarrow> length kept \<le> BUF_SIZE - 1 \<Longrightarrow> kept @ s = lines_of ls b \<Longrightarrow>
    grep_loop rd pattern kept s out = Some (out @ matching pattern ls)"
proof (induction "length s" arbitrary: s kept ls out rule: less_induct)
  case less
  let ?n = "rd s (BUF_SIZE - length kept - 1)"
  show ?case
  proof (cases "?n = 0")
    case True
    then show ?thesis using grep_loop_done [OF assms(1) less.prems(1,2,4)] by (subst grep_loop.simps) simp
  next
    case False
    have n: "?n \<le> length s" "?n \<le> BUF_SIZE - length kept - 1" using assms(1) by (simp_all add: reads_def)
    have x: "(kept @ take ?n s) @ drop ?n s = lines_of ls b" "length (kept @ take ?n s) \<le> BUF_SIZE - 1" using less.prems(3,4) n by simp_all
    from lines_of_cut [OF less.prems(1) assms(2) x] obtain ls1 ls2 r where
      c: "ls = ls1 @ ls2" "kept @ take ?n s = lines_of ls1 r" "strchr r newline_c = None" "r @ drop ?n s = lines_of ls2 b" by blast
    have "length r \<le> length (lines_of ls1 r)" by (simp add: lines_of_def)
    then have r: "length r \<le> BUF_SIZE - 1" using x(2) unfolding c(2) by simp
    have "grep_lines pattern (kept @ take ?n s) = (matching pattern ls1, r)"
      unfolding c(2) using less.prems(1) c(1,3) by (intro grep_lines_of) simp_all
    moreover have "grep_loop rd pattern r (drop ?n s) (out @ matching pattern ls1) = Some ((out @ matching pattern ls1) @ matching pattern ls2)"
      using less.prems(1) c r False n by (intro less.hyps) simp_all
    ultimately show ?thesis using False c(1) by (subst grep_loop.simps) simp
  qed
qed

section \<open>Properties\<close>

text \<open>C8: The matcher of \<^verbatim>\<open>grep\<close> decides the language of its pattern: \<^verbatim>\<open>match\<close> answers yes exactly when some part of the line is a word of the pattern, read as a sequence of single
  characters, dots and starred characters; a leading caret ties the part to the beginning of the line and a final dollar sign to its end.\<close>

theorem match_decides_pattern:
  "match re line \<longleftrightarrow>
     (let anchored = (re \<noteq> [] \<and> hd re = 94); body = (if anchored then tl re else re)
      in \<exists>a u v. line = a @ u @ v \<and> u \<in> lang (items body) \<and> (anchored \<longrightarrow> a = []) \<and> (at_end body \<longrightarrow> v = []))"
  unfolding match_def match_loop_found matchhere_found found_at_start_def Let_def by auto

theorem match_decides_pattern_witness:
  "match [94, 97, 46, 42, 99, 36] [97, 98, 99] \<and> (\<exists>u v. [97, 98, 99 :: byte] = u @ v \<and> u \<in> lang (items [97, 46, 42, 99, 36]) \<and> v = [])"
proof -
  have "match [94, 97, 46, 42, 99, 36] [97, 98, 99]" by (simp add: match_def matchhere.simps matchstar.simps)
  then show ?thesis using match_decides_pattern [of "[94, 97, 46, 42, 99, 36]" "[97, 98, 99]"] by (simp add: Let_def)
qed

text \<open>C12: On every input, however \<^verbatim>\<open>read\<close> cuts it into pieces, \<^verbatim>\<open>grep\<close> ends and prints, in order, the matching ones of the complete lines before the first line that it cannot
  hold, one of at least 1023 bytes or with a zero byte in it. From that line on it prints nothing, and never an unfinished last line.\<close>

theorem grep_prints_matching_lines:
  assumes "reads rd"
  shows "grep rd pattern s =
    Some (concat (map (\<lambda>l. l @ [10]) (filter (match pattern) (takeWhile (\<lambda>l. 0 \<notin> set l \<and> length l < 1023) (complete_lines s)))))"
proof -
  let ?ls = "takeWhile line_ok (complete_lines s)"
  obtain b where b: "s = lines_of ?ls b" "stuck b" using good_lines by blast
  have "list_all line_ok ?ls" by (auto simp: list_all_iff dest: set_takeWhileD)
  then have "grep rd pattern s = Some (matching pattern ?ls)"
    using grep_loop_prints [OF assms b(2), of ?ls "[]" s pattern "[]"] b(1) by (simp add: grep_def)
  moreover have "?ls = takeWhile (\<lambda>l. 0 \<notin> set l \<and> length l < 1023) (complete_lines s)"
    using complete_lines_plain by (intro takeWhile_cong) (auto simp: line_ok_def BUF_SIZE_def)
  ultimately show ?thesis by (simp add: matching_def)
qed

text \<open>Looking for \<^verbatim>\<open>^a.*c$\<close> in six lines, with a \<^verbatim>\<open>read\<close> that gives at most three bytes at a time. The fifth line has a zero byte, and the last line is not finished.\<close>

theorem grep_prints_matching_lines_witness:
  "grep (\<lambda>s n. min 3 (min n (length s))) [94, 97, 46, 42, 99, 36]
     ([97, 98, 99, 10] @ [98, 97, 99, 10] @ [97, 99, 10] @ [10] @ [97, 0, 99, 10] @ [97, 99, 10] @ [97, 99]) = Some [97, 98, 99, 10, 97, 99, 10]"
proof -
  have "reads (\<lambda>s n. min 3 (min n (length s)))" by (auto simp: reads_def)
  note g = grep_prints_matching_lines [OF this, of "[94, 97, 46, 42, 99, 36]"]
  have "match [94, 97, 46, 42, 99, 36] [97, 98, 99]" "match [94, 97, 46, 42, 99, 36] [97, 99]"
    "\<not> match [94, 97, 46, 42, 99, 36] [98, 97, 99]" "\<not> match [94, 97, 46, 42, 99, 36] []"
    by (simp_all add: match_def matchhere.simps matchstar.simps)
  then show ?thesis by (subst g) (simp add: complete_lines.simps)
qed

end
