(* ===== verification/Spec2Isabelle.thy ===== *)
theory Spec2Isabelle
  imports Cstring Raid_Lifecycle Spinlock Log_Properties Fs_Block File_Inv Trap Grep
begin

text \<open>
  A verification development of the xv6 kernel in this repository with its software RAID, and of the matcher of the user program \<^verbatim>\<open>grep\<close>. Paths are relative to
  \<^verbatim>\<open>src/\<close>.

  \<^bold>\<open>The program.\<close> A system call or interrupt enters in \<^verbatim>\<open>kernel/trap.c\<close>, which dispatches system calls through \<^verbatim>\<open>kernel/syscall.c\<close>. Calls on files
  (\<^verbatim>\<open>sysfile.c\<close>) go through the file table (\<^verbatim>\<open>file.c\<close>) to pipes, the console or the file system (\<^verbatim>\<open>fs.c\<close>), which changes blocks in transactions of the
  write-ahead log (\<^verbatim>\<open>log.c\<close>), which uses the buffer cache (\<^verbatim>\<open>bio.c\<close>), which uses the virtio driver. Calls on processes (\<^verbatim>\<open>sysproc.c\<close>) go to \<^verbatim>\<open>proc.c\<close>, which
  uses page tables (\<^verbatim>\<open>vm.c\<close>) and the page allocator (\<^verbatim>\<open>kalloc.c\<close>). Calls on the array of RAID disks (\<^verbatim>\<open>sysraid.c\<close>) go to \<^verbatim>\<open>raid.c\<close>, which reads and writes blocks of
  single disks with \<^verbatim>\<open>read_block\<close> and \<^verbatim>\<open>write_block\<close> of the same driver.

  \<^bold>\<open>How C is translated.\<close> A C function is one definition with the name of the function; parts of a function with a loop or with a place where it sleeps have
  definitions of their own beside it. Machine integers are words of their width where the code computes with them and can wrap; counters and indices that the code
  keeps within a table are natural numbers. Memory is one function from addresses to bytes; page tables, the list of free pages, trap frames and the RAID superblock
  are laid out in it as in the kernel, while the static tables (processes, files, inodes, buffers) are functions from indices to records. A function that can stop
  returns \<open>fault + 'a\<close>: \<open>Panic\<close> is a call of \<^verbatim>\<open>panic\<close>, \<open>Undefined\<close> an access that C leaves undefined, \<open>Sleeps\<close> a wait for another process at a level where
  waiting is not resumed. A call that sleeps in a pipe, in \<^verbatim>\<open>wait\<close>, on the console, the clock or a sleep lock ends with \<open>Asleep j\<close>, and the definition with suffix
  \<open>_from\<close> or \<open>_loop\<close> is the rest of it from \<open>j\<close> on.

  \<^bold>\<open>The theories\<close>, from the bottom up:
  \<^item> \<open>Kernel_Prelude\<close>: faults, loops, byte lists, flat memory. \<open>Riscv\<close>: \<^verbatim>\<open>kernel/riscv.h\<close>, \<^verbatim>\<open>memlayout.h\<close>. \<open>Cstring\<close>: \<^verbatim>\<open>string.c\<close>, with what every routine leaves
    in memory.
  \<^item> \<open>Kalloc\<close>: \<^verbatim>\<open>kalloc.c\<close>; pages are neither lost nor handed out twice, through the locale \<open>page_pool\<close>. \<open>Vm\<close>: \<^verbatim>\<open>vm.c\<close>.
  \<^item> \<open>Blockdev\<close>: the contract of \<^verbatim>\<open>read_block\<close> and \<^verbatim>\<open>write_block\<close>. \<open>Virtio_Disk\<close>: \<^verbatim>\<open>virtio_disk.c\<close> on a device that is a parameter; the driver keeps that contract.
    \<open>Block_Array\<close>: the locale \<open>block_device\<close>, what a client of an array of blocks relies on.
  \<^item> \<open>Raid\<close>: \<^verbatim>\<open>raid.c\<close>, \<^verbatim>\<open>sysraid.c\<close>. \<open>Raid_Layout\<close>, \<open>Raid_State\<close>, \<open>Raid_Correct\<close>, \<open>Raid_Array\<close>: placement of blocks, invariants, the outcome of every call.
    \<open>Raid_Example\<close>: a concrete array. \<open>Raid_Properties\<close>: an array in service is a \<open>block_device\<close>, keeps its redundancy and survives a failure. \<open>Raid_Repair\<close>: repairs.
    \<open>Raid_Lifecycle\<close>: creation, restart, removal and error returns.
  \<^item> \<open>Spinlock\<close>: \<^verbatim>\<open>spinlock.c\<close>, interleaved between all CPUs at its atomic instructions.
  \<^item> \<open>Bio\<close>, \<open>Bio_Spec\<close>: \<^verbatim>\<open>bio.c\<close>; the cache is a \<open>block_device\<close>, its pointer ring a list in the order of use. \<open>Log\<close>, \<open>Log_Crash\<close>, \<open>Log_Properties\<close>: \<^verbatim>\<open>log.c\<close>; commits
    are atomic under crashes at every disk write, also during recovery, and reserved space suffices.
  \<^item> \<open>Fs\<close>: \<^verbatim>\<open>fs.c\<close> on the blocks of a transaction. \<open>Fs_Block\<close>: the block allocator as a set of used blocks.
  \<^item> \<open>Kern\<close>: the state of the running kernel, \<^verbatim>\<open>proc.h\<close>, \<^verbatim>\<open>file.h\<close>. \<open>Sched\<close>, \<open>Sched_Inv\<close>: switching, sleeping, waking and killing of \<^verbatim>\<open>proc.c\<close>; a process runs on one CPU
    exactly when it is marked so. \<open>Sleeplock\<close>: \<^verbatim>\<open>sleeplock.c\<close>; exclusion and no lost wakeup.
  \<^item> \<open>Pipe\<close>: \<^verbatim>\<open>pipe.c\<close>; a pipe is a queue. \<open>Console\<close>: \<^verbatim>\<open>uart.c\<close>, \<^verbatim>\<open>printf.c\<close>, \<^verbatim>\<open>console.c\<close>; the input side is a line editor, numbers are printed so that they read back.
    \<open>File\<close>: \<^verbatim>\<open>file.c\<close>.
  \<^item> \<open>Proc\<close>: the rest of \<^verbatim>\<open>proc.c\<close>. \<open>Proc_Inv\<close>: the life cycle of processes; an exited process always has a parent that will find it.
  \<^item> \<open>Sysfile\<close>: \<^verbatim>\<open>sysfile.c\<close>. \<open>File_Inv\<close>: reference counts of open files are exact. \<open>Exec\<close>: \<^verbatim>\<open>exec.c\<close>. \<open>Syscall\<close>: \<^verbatim>\<open>syscall.c\<close>, \<^verbatim>\<open>sysproc.c\<close>. \<open>Trap\<close>: \<^verbatim>\<open>trap.c\<close>, \<^verbatim>\<open>plic.c\<close>.
    \<open>Exec\<close>, \<open>Syscall\<close> and \<open>Trap\<close> are definitions only; the theorems are about the calls they lead to.
  \<^item> \<open>Grep\<close>: \<^verbatim>\<open>user/grep.c\<close>; the matcher decides the language of a pattern, and the loop prints the matching lines.
\<close>

text \<open>
  \<^bold>\<open>Concurrency.\<close> Spin locks are interleaved at their atomic instructions in \<open>Spinlock\<close>. Above that, code between \<^verbatim>\<open>acquire\<close> and \<^verbatim>\<open>release\<close> is one step, of which the
  nesting depth and interrupt state of the CPU and the holder of every \<^verbatim>\<open>p->lock\<close> are kept; that the section is atomic rests on the exclusion shown there. Sleep locks,
  processes and open files are step relations in which the calls of all processes on all CPUs, the scheduler, wakeups and kills come in any order. A call of \<^verbatim>\<open>fork\<close> or
  \<^verbatim>\<open>exit\<close> is one step, so the states inside it, like a child without a parent under \<^verbatim>\<open>wait_lock\<close>, are not seen by others. The flag \<^verbatim>\<open>killed\<close> of a process is not protected by the
  lock of a pipe: the argument \<open>env\<close> of \<open>pipewrite_loop\<close>, and of the calls that lead to it, is what other CPUs do before each byte. A kill
  that falls between the test of that flag and the sleep after it is not modelled.

  \<^bold>\<open>Loops.\<close> Loops over a table or up to a count are recursions that end. \<^verbatim>\<open>strlen\<close> and the loops like it, which run to a zero byte, and the loop of \<^verbatim>\<open>grep\<close> are partial functions
  that return an option, with theorems that they return. Waiting for the UART ends because the device accepts a byte after a number of polls that is an argument.
  No definition takes fuel.

  \<^bold>\<open>Parameters.\<close> The machine (linker symbols, memory and disk sizes, the number of disks), the virtio device (\<open>device_ok\<close> is the documented behaviour the driver relies on), the
  UART, the registers of a trap, what the interrupt controller reports, the other CPUs (\<open>meanwhile\<close>) and, for \<^verbatim>\<open>grep\<close>, the system call \<^verbatim>\<open>read\<close> (\<open>reads\<close>).

  \<^bold>\<open>Limits.\<close>
  \<^item> Not modelled: the assembly files, \<^verbatim>\<open>start.c\<close> and \<^verbatim>\<open>main.c\<close>, \<^verbatim>\<open>virtio_disk_init\<close>, register accessors, \<^verbatim>\<open>ramdisk.c\<close>, which is not linked, the other user programs and the
    tests.
  \<^item> Reference counts of buffers and block numbers are natural numbers, so their wrap-around at 32 bits is not visible; in \<^verbatim>\<open>balloc\<close> the loop variable is an \<^verbatim>\<open>int\<close>, which
    would overflow on a file system of more than \<open>2 ^ 31\<close> blocks. In \<^verbatim>\<open>printint\<close> the negation of the smallest integer wraps, as the compiler does it.
  \<^item> The buffer cache sees a disk without an end; block numbers beyond it are an error of the driver, in \<open>Virtio_Disk\<close> and \<open>Blockdev\<close>.
  \<^item> \<^verbatim>\<open>begin_op\<close> that has to wait is the outcome \<open>Sleeps\<close>, so the wakeups of \<^verbatim>\<open>end_op\<close> have no counterpart; likewise waiting for an inode or a buffer. A commit is one step of the
    running system, and a sequence of disk writes where crashes are concerned.
  \<^item> The RAID layer uses pages from \<^verbatim>\<open>kalloc\<close> without a test and disk numbers as they come: a failed allocation, an access to disk 0 and an index outside the table of disks
    are \<open>Undefined\<close>.
\<close>

end
